(* ===== verification/Prelude.thy ===== *)
theory Prelude
  imports Main "HOL-Library.Word"
begin

text \<open>
  Shared vocabulary of the Vanta development: the machine-integer types, the
  outcome of a Rust computation that may return \<open>Err\<close> or panic, slices and
  array updates with their bounds, the little-endian byte encodings, and the
  page-alignment arithmetic that the memory-management components share.

  Conventions.  A Rust \<open>uN\<close> is an \<open>N word\<close>; the kernel is built with
  \<open>cargo build --release\<close> (\<open>rust/run.ps1\<close>), so an unchecked \<open>+\<close>, \<open>-\<close> or
  \<open>*\<close> wraps, as it does on words.  A \<open>usize\<close> that indexes a slice or counts its
  elements is a \<open>nat\<close>.  A function returning \<open>Result\<close> returns an
  \<open>outcome\<close>; a panic (slice or array index out of range) is the constructor
  \<open>Panic\<close>.  Where the function has no \<open>Result\<close>, \<open>None\<close> of an \<open>option\<close>
  marks the panic.
\<close>

unbundle bit_operations_syntax

section \<open>Types\<close>

type_synonym u8 = "8 word"
type_synonym u16 = "16 word"
type_synonym u32 = "32 word"
type_synonym u64 = "64 word"
type_synonym i32 = "32 word"
type_synonym isize = "64 word"
type_synonym bytes = "u8 list"

named_theorems outcome_simps \<open>evaluation of outcome combinators\<close>
named_theorems le_simps \<open>little-endian encodings\<close>
named_theorems page_simps \<open>page-alignment arithmetic\<close>

section \<open>Outcomes\<close>

datatype ('e, 'a) outcome = Ok 'a | Err 'e | Panic

primrec and_then :: "('e, 'a) outcome \<Rightarrow> ('a \<Rightarrow> ('e, 'b) outcome) \<Rightarrow> ('e, 'b) outcome" where
  "and_then (Ok x) f = f x"
| "and_then (Err e) f = Err e"
| "and_then Panic f = Panic"

primrec ok_or :: "'a option \<Rightarrow> 'e \<Rightarrow> ('e, 'a) outcome" where
  "ok_or None e = Err e"
| "ok_or (Some x) e = Ok x"

primrec map_err :: "('e \<Rightarrow> 'f) \<Rightarrow> ('e, 'a) outcome \<Rightarrow> ('f, 'a) outcome" where
  "map_err f (Ok x) = Ok x"
| "map_err f (Err e) = Err (f e)"
| "map_err f Panic = Panic"

definition is_ok :: "('e, 'a) outcome \<Rightarrow> bool" where
  "is_ok r = (case r of Ok _ \<Rightarrow> True | _ \<Rightarrow> False)"

lemma and_then_Ok [outcome_simps]:
  "and_then r f = Ok y \<longleftrightarrow> (\<exists>x. r = Ok x \<and> f x = Ok y)"
  by (cases r) auto

lemma and_then_Err [outcome_simps]:
  "and_then r f = Err e \<longleftrightarrow> r = Err e \<or> (\<exists>x. r = Ok x \<and> f x = Err e)"
  by (cases r) auto

lemma and_then_Panic [outcome_simps]:
  "and_then r f = Panic \<longleftrightarrow> r = Panic \<or> (\<exists>x. r = Ok x \<and> f x = Panic)"
  by (cases r) auto

text \<open>An early return: the guarded result is \<open>Ok\<close> exactly when the guard did not fire.\<close>

lemma guard_Ok [outcome_simps]:
  "(if c then Err e else r) = Ok y \<longleftrightarrow> \<not> c \<and> r = Ok y"
  "(if c then Panic else r) = Ok y \<longleftrightarrow> \<not> c \<and> r = Ok y"
  by simp_all

lemma ok_or_Ok [simp]: "ok_or x e = Ok y \<longleftrightarrow> x = Some y"
  by (cases x) auto

lemma ok_or_Err [simp]: "ok_or x e = Err e' \<longleftrightarrow> x = None \<and> e' = e"
  by (cases x) auto

lemma ok_or_Panic [simp]: "ok_or x e \<noteq> Panic"
  by (cases x) auto

lemma map_err_Ok [simp]: "map_err f r = Ok y \<longleftrightarrow> r = Ok y"
  by (cases r) auto

lemma map_err_Panic [simp]: "map_err f r = Panic \<longleftrightarrow> r = Panic"
  by (cases r) auto

lemma is_ok_simps [simp]:
  "is_ok (Ok x)" "\<not> is_ok (Err e)" "\<not> is_ok Panic"
  by (simp_all add: is_ok_def)

lemma is_ok_iff: "is_ok r \<longleftrightarrow> (\<exists>x. r = Ok x)"
  by (cases r) auto

section \<open>Checked and saturating arithmetic\<close>

definition saturating_add :: "'a::len word \<Rightarrow> 'a word \<Rightarrow> 'a word" where
  "saturating_add a b = (if unat a + unat b < 2 ^ LENGTH('a) then a + b else - 1)"

definition saturating_sub :: "'a::len word \<Rightarrow> 'a word \<Rightarrow> 'a word" where
  "saturating_sub a b = (if b \<le> a then a - b else 0)"

definition checked_add :: "'a::len word \<Rightarrow> 'a word \<Rightarrow> 'a word option" where
  "checked_add a b = (if unat a + unat b < 2 ^ LENGTH('a) then Some (a + b) else None)"

definition checked_mul :: "'a::len word \<Rightarrow> 'a word \<Rightarrow> 'a word option" where
  "checked_mul a b = (if unat a * unat b < 2 ^ LENGTH('a) then Some (a * b) else None)"

lemma unat_add_no_overflow:
  fixes a b :: "'a::len word"
  shows "unat a + unat b < 2 ^ LENGTH('a) \<Longrightarrow> unat (a + b) = unat a + unat b"
  by (rule unat_add_lem [THEN iffD1])

lemma checked_add_Some:
  "checked_add a b = Some c \<Longrightarrow> unat c = unat a + unat b \<and> c = a + b"
  by (auto simp: checked_add_def unat_add_no_overflow split: if_splits)

lemma checked_mul_Some:
  "checked_mul a b = Some c \<Longrightarrow> unat c = unat a * unat b \<and> c = a * b"
  by (auto simp: checked_mul_def unat_mult_lem [THEN iffD1] split: if_splits)

lemma unat_saturating_add:
  fixes a b :: "'a::len word"
  shows "unat (saturating_add a b) = min (unat a + unat b) (2 ^ LENGTH('a) - 1)"
  by (auto simp: saturating_add_def unat_add_no_overflow unsigned_minus_1_eq_mask mask_eq_exp_minus_1)

lemma unat_saturating_sub: "unat (saturating_sub a b) = unat a - unat b"
  by (auto simp: saturating_sub_def unat_sub word_le_nat_alt)

text \<open>The overflow test without the numeral \<open>2 ^ LENGTH\<close>, so that runs of the model evaluate.\<close>

lemma no_overflow_iff: "unat a + unat b < 2 ^ LENGTH('a) \<longleftrightarrow> a \<le> a + b" for a b :: "'a::len word"
proof -
  have "a \<le> a + b \<longleftrightarrow> int (unat a + unat b) < int (2 ^ LENGTH('a))"
    unfolding no_olen_add by simp
  then show ?thesis by (simp only: of_nat_less_iff)
qed

lemma saturating_add_code [code]: "saturating_add a b = (if a \<le> a + b then a + b else - 1)"
  by (simp only: saturating_add_def no_overflow_iff)

lemma checked_add_code [code]: "checked_add a b = (if a \<le> a + b then Some (a + b) else None)"
  by (simp only: checked_add_def no_overflow_iff)

section \<open>Slices\<close>

text \<open>\<open>bytes.get(a..b)\<close>: \<open>None\<close> when the range is not inside the slice.\<close>

definition get_range :: "'a list \<Rightarrow> nat \<Rightarrow> nat \<Rightarrow> 'a list option" where
  "get_range xs a b = (if a \<le> b \<and> b \<le> length xs then Some (take (b - a) (drop a xs)) else None)"

text \<open>\<open>dst[off..off + src.len()].copy_from_slice(src)\<close> where the range is inside \<open>dst\<close>.\<close>

definition splice :: "'a list \<Rightarrow> nat \<Rightarrow> 'a list \<Rightarrow> 'a list" where
  "splice dst off src = take off dst @ src @ drop (off + length src) dst"

lemma get_range_Some:
  "get_range xs a b = Some ys \<longleftrightarrow> a \<le> b \<and> b \<le> length xs \<and> ys = take (b - a) (drop a xs)"
  by (auto simp: get_range_def)

lemma length_splice [simp]:
  "off + length src \<le> length dst \<Longrightarrow> length (splice dst off src) = length dst"
  by (simp add: splice_def)

lemma nth_splice:
  assumes "off + length src \<le> length dst" "i < length dst"
  shows "splice dst off src ! i =
    (if off \<le> i \<and> i < off + length src then src ! (i - off) else dst ! i)"
  using assms by (auto simp: splice_def nth_append min_def not_less)

lemma splice_empty [simp]: "off \<le> length dst \<Longrightarrow> splice dst off [] = dst"
  by (simp add: splice_def)

lemma slice_splice_same [simp]:
  "off + length src \<le> length dst \<Longrightarrow> take (length src) (drop off (splice dst off src)) = src"
  by (simp add: splice_def)

lemma slice_splice_below:
  assumes "a + n \<le> off" "off \<le> length dst"
  shows "take n (drop a (splice dst off src)) = take n (drop a dst)"
proof -
  have "take n (drop a (take off dst)) = take n (drop a dst)"
    using assms by (simp add: drop_take min_def)
  moreover have "n \<le> length (drop a (take off dst))"
    using assms by simp
  ultimately show ?thesis
    using assms by (simp add: splice_def)
qed

lemma slice_splice_above:
  assumes "off + length src \<le> a" "off \<le> length dst"
  shows "take n (drop a (splice dst off src)) = take n (drop a dst)"
proof -
  have "drop a (splice dst off src) = drop (a - off - length src) (drop (off + length src) dst)"
    using assms by (simp add: splice_def min_def)
  also have "\<dots> = drop a dst"
    using assms by (simp add: add.commute)
  finally show ?thesis by simp
qed

lemma splice_splice_append:
  assumes "off + length a + length b \<le> length dst"
  shows "splice (splice dst off a) (off + length a) b = splice dst off (a @ b)"
  using assms by (intro nth_equalityI) (auto simp: nth_splice nth_append)

text \<open>Filling a zeroed buffer from left to right.\<close>

lemma splice_fill:
  assumes "length xs = off" "length ys \<le> n"
  shows "splice (xs @ replicate n z) off ys = (xs @ ys) @ replicate (n - length ys) z"
  using assms by (auto simp: splice_def)

lemma splice_fill0:
  "length ys \<le> n \<Longrightarrow> splice (replicate n z) 0 ys = ys @ replicate (n - length ys) z"
  using splice_fill [of "[]" 0 ys n z] by simp

lemma drop_take_nth:
  "a + 2 \<le> length xs \<Longrightarrow> take 2 (drop a xs) = [xs ! a, xs ! Suc a]"
  by (simp add: take_Suc_conv_app_nth numeral_2_eq_2)

section \<open>Little-endian encodings\<close>

primrec nat_le :: "nat \<Rightarrow> nat \<Rightarrow> bytes" where
  "nat_le 0 x = []"
| "nat_le (Suc n) x = of_nat x # nat_le n (x div 256)"

primrec le_nat :: "bytes \<Rightarrow> nat" where
  "le_nat [] = 0"
| "le_nat (b # bs) = unat b + 256 * le_nat bs"

text \<open>\<open>to_le_bytes\<close> of an integer of \<open>n\<close> bytes, and \<open>from_le_bytes\<close>.\<close>

definition to_le :: "nat \<Rightarrow> 'a::len word \<Rightarrow> bytes" where
  "to_le n w = nat_le n (unat w)"

definition from_le :: "bytes \<Rightarrow> 'a::len word" where
  "from_le bs = of_nat (le_nat bs)"

lemma unat_u8_less: "unat (b :: u8) < 256"
  using unsigned_less [of b] by simp

lemma length_nat_le [simp]: "length (nat_le n x) = n"
  by (induction n arbitrary: x) auto

lemma length_to_le [simp, le_simps]: "length (to_le n w) = n"
  by (simp add: to_le_def)

lemma le_nat_nat_le: "le_nat (nat_le n x) = x mod 256 ^ n"
proof (induction n arbitrary: x)
  case 0
  then show ?case by simp
next
  case (Suc n)
  have "unat (of_nat x :: u8) = x mod 256"
    by (simp add: unat_of_nat)
  moreover have "x mod (256 * 256 ^ n) = 256 * (x div 256 mod 256 ^ n) + x mod 256"
    by (rule mod_mult2_eq)
  ultimately show ?case
    by (simp add: Suc)
qed

lemma le_nat_bound: "le_nat bs < 256 ^ length bs"
proof (induction bs)
  case Nil
  then show ?case by simp
next
  case (Cons b bs)
  have "unat b < 256"
    by (rule unat_u8_less)
  with Cons show ?case by simp
qed

lemma nat_le_le_nat: "nat_le (length bs) (le_nat bs) = bs"
proof (induction bs)
  case Nil
  then show ?case by simp
next
  case (Cons b bs)
  have b: "unat b < 256"
    by (rule unat_u8_less)
  have "of_nat (unat b + 256 * le_nat bs) = (of_nat (unat b) :: u8)"
  proof -
    have "(256 :: u8) = 0" by simp
    then show ?thesis
      by (simp only: of_nat_add of_nat_mult of_nat_numeral mult_zero_left add_0_right)
  qed
  moreover have "(unat b + 256 * le_nat bs) div 256 = le_nat bs"
    using b by simp
  ultimately show ?case
    by (simp add: Cons)
qed

lemma from_le_to_le [le_simps]:
  fixes w :: "'a::len word"
  assumes "LENGTH('a) \<le> 8 * n"
  shows "from_le (to_le n w) = w"
proof -
  have "unat w < 2 ^ LENGTH('a)"
    by (rule unsigned_less)
  also have "(2::nat) ^ LENGTH('a) \<le> 2 ^ (8 * n)"
    using assms by (intro power_increasing) auto
  also have "(2::nat) ^ (8 * n) = 256 ^ n"
    by (simp add: power_mult)
  finally show ?thesis
    by (simp add: from_le_def to_le_def le_nat_nat_le)
qed

lemma to_le_from_le [le_simps]:
  assumes "8 * length bs \<le> LENGTH('a)"
  shows "to_le (length bs) (from_le bs :: 'a::len word) = bs"
proof -
  have "le_nat bs < 256 ^ length bs"
    by (rule le_nat_bound)
  also have "(256::nat) ^ length bs = 2 ^ (8 * length bs)"
    by (simp add: power_mult)
  also have "\<dots> \<le> 2 ^ LENGTH('a)"
    using assms by (intro power_increasing) auto
  finally have "unat (of_nat (le_nat bs) :: 'a word) = le_nat bs"
    by (simp add: unat_of_nat)
  then show ?thesis
    by (simp add: to_le_def from_le_def nat_le_le_nat)
qed

text \<open>The integer stored at an offset.\<close>

abbreviation u16_at :: "bytes \<Rightarrow> nat \<Rightarrow> u16" where
  "u16_at bs off \<equiv> from_le (take 2 (drop off bs))"

abbreviation u32_at :: "bytes \<Rightarrow> nat \<Rightarrow> u32" where
  "u32_at bs off \<equiv> from_le (take 4 (drop off bs))"

abbreviation u64_at :: "bytes \<Rightarrow> nat \<Rightarrow> u64" where
  "u64_at bs off \<equiv> from_le (take 8 (drop off bs))"

section \<open>Page alignment\<close>

definition PAGE_SIZE :: u64 where
  "PAGE_SIZE = 4096"

definition page_down :: "u64 \<Rightarrow> u64" where
  "page_down a = a AND NOT (PAGE_SIZE - 1)"

definition page_aligned :: "u64 \<Rightarrow> bool" where
  "page_aligned a \<longleftrightarrow> a AND (PAGE_SIZE - 1) = 0"

lemma PAGE_SIZE_mask: "PAGE_SIZE - 1 = mask 12"
  by (simp add: PAGE_SIZE_def mask_eq_exp_minus_1)

lemma page_aligned_iff [page_simps]: "page_aligned a \<longleftrightarrow> unat a mod 4096 = 0"
proof -
  have "unat (a AND (PAGE_SIZE - 1)) = unat a mod 4096"
    by (simp add: PAGE_SIZE_mask take_bit_eq_mod unat_mod flip: take_bit_eq_mask)
  then show ?thesis
    by (metis page_aligned_def unat_eq_0)
qed

lemma unat_page_down [page_simps]: "unat (page_down a) = unat a div 4096 * 4096"
proof -
  have "page_down a = push_bit 12 (drop_bit 12 a)"
    unfolding page_down_def PAGE_SIZE_mask
    by (simp add: bit_eq_iff bit_simps) auto
  then have "page_down a = a div 4096 * 4096"
    by (simp add: push_bit_eq_mult drop_bit_eq_div)
  also have "unat \<dots> = unat a div 4096 * 4096"
  proof -
    have "unat a div 4096 * 4096 \<le> unat a" by simp
    also have "unat a < 2 ^ 64" using unsigned_less [of a] by simp
    finally show ?thesis
      using unat_mult_lem [of "a div 4096" 4096] by (simp add: unat_div)
  qed
  finally show ?thesis .
qed

lemma page_aligned_page_down [simp]: "page_aligned (page_down a)"
  by (simp add: page_simps)

lemma page_down_le: "page_down a \<le> a"
  by (simp add: word_le_nat_alt page_simps)

lemma page_down_aligned: "page_aligned a \<Longrightarrow> page_down a = a"
  by (simp add: word_unat_eq_iff page_simps mult.commute [of _ 4096] flip: minus_mod_eq_mult_div)

end
