(* ===== verification/Abi.thy ===== *)
theory Abi
  imports Prelude
begin

text \<open>
  The native ABI crate (\<open>rust/abi/src/lib.rs\<close>): feature sets, directory records,
  system-call numbers, error returns, rights and capability identifiers.  The
  lemmas show the encodings are lossless where the code relies on it, and where
  they are not (a directory name of 256 bytes).
\<close>

section \<open>Feature sets\<close>

definition ABI_VERSION :: u32 where
  "ABI_VERSION = 0"

definition MAX_GROUPS :: nat where
  "MAX_GROUPS = 8"

datatype feature_set = FeatureSet (feature_bits: u64)

definition FeatureSet_EMPTY :: feature_set where
  "FeatureSet_EMPTY = FeatureSet 0"

definition FeatureSet_contains :: "feature_set \<Rightarrow> feature_set \<Rightarrow> bool" where
  "FeatureSet_contains self required \<longleftrightarrow>
     feature_bits self AND feature_bits required = feature_bits required"

definition unknown_mandatory_bits :: "feature_set \<Rightarrow> feature_set \<Rightarrow> feature_set" where
  "unknown_mandatory_bits self required =
     FeatureSet (feature_bits required AND NOT (feature_bits self))"

definition FEATURE_NATIVE_TERMINAL :: feature_set where
  "FEATURE_NATIVE_TERMINAL = FeatureSet (push_bit 0 1)"

definition FEATURE_REDOXFS_ROOT :: feature_set where
  "FEATURE_REDOXFS_ROOT = FeatureSet (push_bit 1 1)"

definition FEATURE_PIPE_WAKEUP :: feature_set where
  "FEATURE_PIPE_WAKEUP = FeatureSet (push_bit 2 1)"

definition FEATURE_C_ABI_BOOTSTRAP :: feature_set where
  "FEATURE_C_ABI_BOOTSTRAP = FeatureSet (push_bit 3 1)"

definition SUPPORTED_FEATURES :: feature_set where
  "SUPPORTED_FEATURES = FeatureSet
     (feature_bits FEATURE_NATIVE_TERMINAL OR feature_bits FEATURE_REDOXFS_ROOT
      OR feature_bits FEATURE_PIPE_WAKEUP OR feature_bits FEATURE_C_ABI_BOOTSTRAP)"

record abi_info =
  abi_version :: u32
  struct_size :: u32
  features :: u64

text \<open>\<open>size_of::<AbiInfo>()\<close> of two \<open>u32\<close> and one \<open>u64\<close> under \<open>repr(C)\<close> is 16.\<close>

definition AbiInfo_current :: abi_info where
  "AbiInfo_current = \<lparr>abi_version = ABI_VERSION, struct_size = 16,
     features = feature_bits SUPPORTED_FEATURES\<rparr>"

section \<open>Directory records\<close>

definition MAX_DIRECTORY_NAME :: nat where
  "MAX_DIRECTORY_NAME = 256"

record directory_record =
  dr_inode :: u64
  dr_file_type :: u8
  dr_name_len :: u8
  dr_record_len :: u16
  dr_name :: bytes

text \<open>\<open>size_of::<DirectoryRecord>()\<close> is 8 + 1 + 1 + 2 + 256 = 268, padded to 272.\<close>

definition DirectoryRecord_empty :: "u64 \<Rightarrow> u8 \<Rightarrow> directory_record" where
  "DirectoryRecord_empty inode file_type =
     \<lparr>dr_inode = inode, dr_file_type = file_type, dr_name_len = 0, dr_record_len = 272,
      dr_name = replicate MAX_DIRECTORY_NAME 0\<rparr>"

definition set_name :: "directory_record \<Rightarrow> bytes \<Rightarrow> directory_record" where
  "set_name self name =
     (let len = min (length name) MAX_DIRECTORY_NAME
      in self\<lparr>dr_name := splice (dr_name self) 0 (take len name), dr_name_len := of_nat len\<rparr>)"

record signal_action =
  sa_handler :: u64
  sa_flags :: u64

definition SignalAction_default :: signal_action where
  "SignalAction_default = \<lparr>sa_handler = 0, sa_flags = 0\<rparr>"

section \<open>System calls\<close>

datatype syscall =
    SysRead | SysWrite | SysOpenAt | SysClose | SysDup3 | SysPipe2 | SysLSeek | SysFStat
  | SysGetDents | SysMkDirAt | SysUnlinkAt | SysRenameAt | SysTtyIoctl | SysGetAbiInfo
  | SysSpawnVe | SysExecVe | SysWaitPid | SysExit | SysKill | SysSigAction | SysBrk | SysMMap
  | SysMUnmap | SysGetPid | SysGetPpid | SysYield | SysSocket | SysConnect | SysIpcPair
  | SysIpcSend | SysIpcRecv | SysIpcRevoke | SysDisplayInfo | SysDisplayBlit
  | SysDisplayFlush | SysInputPoll | SysAudioPlay

fun syscall_number :: "syscall \<Rightarrow> u16" where
  "syscall_number SysRead = 0x0001"
| "syscall_number SysWrite = 0x0002"
| "syscall_number SysOpenAt = 0x0003"
| "syscall_number SysClose = 0x0004"
| "syscall_number SysDup3 = 0x0005"
| "syscall_number SysPipe2 = 0x0006"
| "syscall_number SysLSeek = 0x0007"
| "syscall_number SysFStat = 0x0008"
| "syscall_number SysGetDents = 0x0009"
| "syscall_number SysMkDirAt = 0x000A"
| "syscall_number SysUnlinkAt = 0x000B"
| "syscall_number SysRenameAt = 0x000C"
| "syscall_number SysTtyIoctl = 0x000D"
| "syscall_number SysGetAbiInfo = 0x000E"
| "syscall_number SysSpawnVe = 0x0011"
| "syscall_number SysExecVe = 0x0012"
| "syscall_number SysWaitPid = 0x0013"
| "syscall_number SysExit = 0x0014"
| "syscall_number SysKill = 0x0015"
| "syscall_number SysSigAction = 0x0016"
| "syscall_number SysBrk = 0x0017"
| "syscall_number SysMMap = 0x0018"
| "syscall_number SysMUnmap = 0x0019"
| "syscall_number SysGetPid = 0x001A"
| "syscall_number SysGetPpid = 0x001B"
| "syscall_number SysYield = 0x001C"
| "syscall_number SysSocket = 0x0020"
| "syscall_number SysConnect = 0x0021"
| "syscall_number SysIpcPair = 0x0030"
| "syscall_number SysIpcSend = 0x0031"
| "syscall_number SysIpcRecv = 0x0032"
| "syscall_number SysIpcRevoke = 0x0033"
| "syscall_number SysDisplayInfo = 0x0040"
| "syscall_number SysDisplayBlit = 0x0041"
| "syscall_number SysDisplayFlush = 0x0042"
| "syscall_number SysInputPoll = 0x0043"
| "syscall_number SysAudioPlay = 0x0044"

record display_info =
  di_width :: u32
  di_height :: u32
  di_pitch :: u32
  di_bpp :: u32

record input_event =
  ie_event_type :: u32
  ie_code :: u32
  ie_value :: i32
  ie_x :: i32
  ie_y :: i32

section \<open>Error returns\<close>

datatype errno = Errno (errno_code: i32)

definition Errno_IO :: errno where "Errno_IO = Errno 5"
definition Errno_BADF :: errno where "Errno_BADF = Errno 9"
definition Errno_INVAL :: errno where "Errno_INVAL = Errno 22"
definition Errno_NOSYS :: errno where "Errno_NOSYS = Errno 38"

definition into_return_value :: "errno \<Rightarrow> isize" where
  "into_return_value self = - signed (errno_code self)"

text \<open>\<open>isize::checked_neg\<close>: \<open>None\<close> exactly at \<open>isize::MIN\<close>.\<close>

definition isize_checked_neg :: "isize \<Rightarrow> isize option" where
  "isize_checked_neg v = (if sint v = - (2 ^ 63) then None else Some (- v))"

definition from_return_value :: "isize \<Rightarrow> errno option" where
  "from_return_value v =
     (if 0 \<le> sint v then None
      else case isize_checked_neg v of
        None \<Rightarrow> None
      | Some magnitude \<Rightarrow>
          if sint magnitude > 2 ^ 31 - 1 then None else Some (Errno (ucast magnitude)))"

section \<open>Rights and capabilities\<close>

datatype rights = Rights (rights_bits: u32)

definition RIGHT_READ :: rights where "RIGHT_READ = Rights (push_bit 0 1)"
definition RIGHT_WRITE :: rights where "RIGHT_WRITE = Rights (push_bit 1 1)"
definition RIGHT_EXECUTE :: rights where "RIGHT_EXECUTE = Rights (push_bit 2 1)"
definition RIGHT_TRANSFER :: rights where "RIGHT_TRANSFER = Rights (push_bit 3 1)"
definition RIGHT_MOUNT :: rights where "RIGHT_MOUNT = Rights (push_bit 4 1)"
definition RIGHT_DEVICE :: rights where "RIGHT_DEVICE = Rights (push_bit 5 1)"
definition RIGHT_PROCESS_ADMIN :: rights where "RIGHT_PROCESS_ADMIN = Rights (push_bit 6 1)"
definition RIGHT_CONNECT :: rights where "RIGHT_CONNECT = Rights (push_bit 7 1)"

definition Rights_contains :: "rights \<Rightarrow> rights \<Rightarrow> bool" where
  "Rights_contains self required \<longleftrightarrow> rights_bits self AND rights_bits required = rights_bits required"

definition Rights_bitor :: "rights \<Rightarrow> rights \<Rightarrow> rights" where
  "Rights_bitor self rhs = Rights (rights_bits self OR rights_bits rhs)"

datatype capability_id = CapabilityId (raw: u64)

definition CapabilityId_INVALID :: capability_id where
  "CapabilityId_INVALID = CapabilityId 0"

definition from_parts :: "u32 \<Rightarrow> u32 \<Rightarrow> capability_id" where
  "from_parts slot generation = CapabilityId (push_bit 32 (ucast generation) OR ucast slot)"

definition cap_slot :: "capability_id \<Rightarrow> u32" where
  "cap_slot self = ucast (raw self)"

definition cap_generation :: "capability_id \<Rightarrow> u32" where
  "cap_generation self = ucast (drop_bit 32 (raw self))"

definition is_invalid :: "capability_id \<Rightarrow> bool" where
  "is_invalid self \<longleftrightarrow> raw self = 0"

section \<open>Credentials\<close>

record credentials =
  uid :: u32
  gid :: u32
  groups :: "u32 list"
  group_count :: u8
  umask :: u16

definition Credentials_root :: credentials where
  "Credentials_root = \<lparr>uid = 0, gid = 0, groups = replicate MAX_GROUPS 0, group_count = 1, umask = 18\<rparr>"

definition Credentials_vanta :: credentials where
  "Credentials_vanta =
     \<lparr>uid = 1000, gid = 1000, groups = [1000, 0, 0, 0, 0, 0, 0, 0], group_count = 1, umask = 18\<rparr>"

definition is_root :: "credentials \<Rightarrow> bool" where
  "is_root self \<longleftrightarrow> uid self = 0"

section \<open>Lemmas\<close>

lemma contains_refl: "Rights_contains r r"
  by (simp add: Rights_contains_def)

lemma bit_word_eq_iff_all: "a = b \<longleftrightarrow> (\<forall>n. bit a n = bit b n)" for a b :: "'a::len word"
  by (auto intro: bit_word_eqI)

lemma contains_bits_iff:
  "Rights_contains a b \<longleftrightarrow> (\<forall>n. bit (rights_bits b) n \<longrightarrow> bit (rights_bits a) n)"
  by (auto simp: Rights_contains_def bit_word_eq_iff_all bit_and_iff)

lemma slot_from_parts: "cap_slot (from_parts s g) = s"
  by (rule bit_word_eqI) (auto simp: cap_slot_def from_parts_def bit_simps)

lemma generation_from_parts: "cap_generation (from_parts s g) = g"
  by (rule bit_word_eqI) (auto simp: cap_generation_def from_parts_def bit_simps dest: bit_imp_le_length)

lemma from_parts_slot_generation: "from_parts (cap_slot c) (cap_generation c) = c"
  by (cases c, simp add: from_parts_def, rule bit_word_eqI)
     (auto simp: cap_slot_def cap_generation_def bit_simps)

lemma sint_signed_i32: "sint (signed (c :: i32) :: isize) = sint c"
  by (rule sint_up_scast) (simp add: is_up)

lemma sint_neg_isize:
  assumes "sint (v :: isize) \<noteq> - (2 ^ 63)"
  shows "sint (- v) = - sint v"
proof -
  have "- (2 ^ 63) \<le> sint v" "sint v < 2 ^ 63"
    using sint_ge [of v] sint_lt [of v] by simp_all
  with assms have "- (2 ^ 63) \<le> - sint v" "- sint v < 2 ^ 63" by simp_all
  then have "signed_take_bit 63 (- sint v) = - sint v"
    by (intro signed_take_bit_int_eq_self) auto
  then show ?thesis by (simp add: sint_word_minus)
qed

lemma ucast_signed_i32: "ucast (signed (c :: i32) :: isize) = c"
  by (rule bit_word_eqI) (simp add: bit_simps)

lemma sint_i32_bounds: "- (2 ^ 31) \<le> sint (c :: i32)" "sint c < 2 ^ 31"
  using sint_ge [of c] sint_lt [of c] by simp_all

lemma sint_into_return_value: "sint (into_return_value (Errno c)) = - sint c"
  using sint_i32_bounds [of c]
  by (simp add: into_return_value_def sint_neg_isize sint_signed_i32)

lemma signed_ucast_small:
  assumes "0 \<le> sint (m :: isize)" "sint m < 2 ^ 31"
  shows "signed (ucast m :: i32) = m"
proof -
  define k where "k = sint m"
  have m: "m = word_of_int k" by (simp add: k_def)
  have k: "0 \<le> k" "k < 2 ^ 31" using assms by (simp_all add: k_def)
  have "uint (word_of_int k :: isize) = k"
    using k by (simp add: uint_word_of_int)
  then have "ucast m = (word_of_int k :: i32)"
    by (simp add: m ucast_eq)
  moreover have "sint (word_of_int k :: i32) = k"
    using k by (simp add: sint_sbintrunc' signed_take_bit_int_eq_self)
  ultimately show ?thesis by (simp add: m scast_eq)
qed

lemma from_into_return_value:
  assumes "0 < sint c"
  shows "from_return_value (into_return_value (Errno c)) = Some (Errno c)"
proof -
  have s: "sint (into_return_value (Errno c)) = - sint c"
    by (rule sint_into_return_value)
  have "- into_return_value (Errno c) = signed c"
    by (simp add: into_return_value_def)
  then show ?thesis
    using assms sint_i32_bounds [of c]
    by (simp add: from_return_value_def isize_checked_neg_def s sint_signed_i32 ucast_signed_i32)
qed

lemma into_from_return_value:
  assumes "from_return_value v = Some e"
  shows "into_return_value e = v \<and> 0 < sint (errno_code e)"
proof -
  from assms have neg: "sint v < 0" and nmin: "sint v \<noteq> - (2 ^ 63)"
    and small: "sint (- v) \<le> 2 ^ 31 - 1" and e: "e = Errno (ucast (- v))"
    by (auto simp: from_return_value_def isize_checked_neg_def split: if_splits)
  have sm: "sint (- v) = - sint v" using nmin by (rule sint_neg_isize)
  have rt: "signed (ucast (- v) :: i32) = - v"
    using neg small sm by (intro signed_ucast_small) auto
  moreover have "sint (ucast (- v) :: i32) = sint (- v)"
    by (metis rt sint_signed_i32)
  ultimately show ?thesis
    using e neg sm by (simp add: into_return_value_def)
qed

section \<open>Properties\<close>

text \<open>A capability identifier is exactly its slot and generation: both halves
  survive \<open>from_parts\<close>, and an identifier is rebuilt from its two halves, so two
  capabilities with different slots or generations never collide.\<close>

theorem capability_id_roundtrip:
  "cap_slot (from_parts s g) = s \<and> cap_generation (from_parts s g) = g \<and>
   from_parts (cap_slot c) (cap_generation c) = c"
  by (simp add: slot_from_parts generation_from_parts from_parts_slot_generation)

text \<open>The error-return convention is unambiguous: a return value decodes to an
  error exactly when it is the encoding of that error and the error code is positive.\<close>

theorem errno_return_roundtrip:
  "from_return_value v = Some e \<longleftrightarrow> into_return_value e = v \<and> 0 < sint (errno_code e)"
  using from_into_return_value [of "errno_code e"] into_from_return_value [of v e]
  by auto

text \<open>What a reader of a directory record gets back (the first \<open>name_len\<close> bytes)
  is the name when it has at most 255 bytes; a longer name reads back as the empty
  name, because the stored length 256 does not fit \<open>name_len: u8\<close>.\<close>

theorem directory_name_readback:
  "let r = set_name (DirectoryRecord_empty inode file_type) name
   in take (unat (dr_name_len r)) (dr_name r) = (if length name \<le> 255 then name else [])"
proof (cases "length name \<le> 255")
  case True
  then have "unat (of_nat (length name) :: u8) = length name"
    by (simp add: unat_of_nat)
  with True show ?thesis
    by (simp add: set_name_def DirectoryRecord_empty_def MAX_DIRECTORY_NAME_def splice_def Let_def)
next
  case False
  then have "min (length name) 256 = 256" by simp
  with False show ?thesis
    by (simp add: set_name_def DirectoryRecord_empty_def MAX_DIRECTORY_NAME_def Let_def)
qed

end
