(* ===== verification/Services.thy ===== *)
theory Services
  imports Abi
begin

text \<open>
  The service crate (\<open>rust/services/src/lib.rs\<close>): the 256-byte wire frames that
  native services exchange over IPC, and the service supervisor that \<open>procd\<close> keeps
  (registration, dispatch, crash and restart, upgrade, revocation, audit ring).
\<close>

section \<open>Identifiers\<close>

definition MAX_IPC_PAYLOAD :: nat where "MAX_IPC_PAYLOAD = 256"
definition MAX_SERVICES :: nat where "MAX_SERVICES = 16"
definition MAX_AUDIT_EVENTS :: nat where "MAX_AUDIT_EVENTS = 64"
definition REQUEST_PAYLOAD_OFFSET :: nat where "REQUEST_PAYLOAD_OFFSET = 23"
definition RESPONSE_PAYLOAD_OFFSET :: nat where "RESPONSE_PAYLOAD_OFFSET = 34"

definition MAX_REQUEST_PAYLOAD :: nat where
  "MAX_REQUEST_PAYLOAD = MAX_IPC_PAYLOAD - REQUEST_PAYLOAD_OFFSET"

definition MAX_RESPONSE_PAYLOAD :: nat where
  "MAX_RESPONSE_PAYLOAD = MAX_IPC_PAYLOAD - RESPONSE_PAYLOAD_OFFSET"

lemmas frame_consts =
  MAX_IPC_PAYLOAD_def REQUEST_PAYLOAD_OFFSET_def RESPONSE_PAYLOAD_OFFSET_def
  MAX_REQUEST_PAYLOAD_def MAX_RESPONSE_PAYLOAD_def

datatype service_id =
  Svc_Process | Svc_Vfs | Svc_Network | Svc_Device | Svc_Display | Svc_Audio | Svc_Input
  | Svc_Package | Svc_Security

fun service_id_raw :: "service_id \<Rightarrow> u16" where
  "service_id_raw Svc_Process = 1"
| "service_id_raw Svc_Vfs = 2"
| "service_id_raw Svc_Network = 3"
| "service_id_raw Svc_Device = 4"
| "service_id_raw Svc_Display = 5"
| "service_id_raw Svc_Audio = 6"
| "service_id_raw Svc_Input = 7"
| "service_id_raw Svc_Package = 8"
| "service_id_raw Svc_Security = 9"

datatype service_error =
  SE_InvalidRequest | SE_AccessDenied | SE_NotFound | SE_Io | SE_Unsupported
  | SE_ServiceUnavailable | SE_QueueFull | SE_Revoked

fun service_error_raw :: "service_error \<Rightarrow> i32" where
  "service_error_raw SE_InvalidRequest = 1"
| "service_error_raw SE_AccessDenied = 2"
| "service_error_raw SE_NotFound = 3"
| "service_error_raw SE_Io = 4"
| "service_error_raw SE_Unsupported = 5"
| "service_error_raw SE_ServiceUnavailable = 6"
| "service_error_raw SE_QueueFull = 7"
| "service_error_raw SE_Revoked = 8"

datatype service_operation =
  Op_Register | Op_Discover | Op_Healthy | Op_Crash | Op_ReadFile | Op_Audit | Op_Shutdown

fun service_operation_raw :: "service_operation \<Rightarrow> u8" where
  "service_operation_raw Op_Register = 1"
| "service_operation_raw Op_Discover = 2"
| "service_operation_raw Op_Healthy = 3"
| "service_operation_raw Op_Crash = 4"
| "service_operation_raw Op_ReadFile = 5"
| "service_operation_raw Op_Audit = 6"
| "service_operation_raw Op_Shutdown = 7"

definition ServiceOperation_from_raw :: "u8 \<Rightarrow> service_operation option" where
  "ServiceOperation_from_raw r =
     (if r = 1 then Some Op_Register
      else if r = 2 then Some Op_Discover
      else if r = 3 then Some Op_Healthy
      else if r = 4 then Some Op_Crash
      else if r = 5 then Some Op_ReadFile
      else if r = 6 then Some Op_Audit
      else if r = 7 then Some Op_Shutdown
      else None)"

definition ServiceId_from_raw :: "u16 \<Rightarrow> service_id option" where
  "ServiceId_from_raw r =
     (if r = 1 then Some Svc_Process
      else if r = 2 then Some Svc_Vfs
      else if r = 3 then Some Svc_Network
      else if r = 4 then Some Svc_Device
      else if r = 5 then Some Svc_Display
      else if r = 6 then Some Svc_Audio
      else if r = 7 then Some Svc_Input
      else if r = 8 then Some Svc_Package
      else if r = 9 then Some Svc_Security
      else None)"

section \<open>Wire frames\<close>

record service_request =
  sr_operation :: service_operation
  sr_service :: service_id
  sr_request_id :: u64
  sr_authority :: capability_id
  sr_payload :: bytes
  sr_payload_len :: u16

definition ServiceRequest_empty ::
    "service_operation \<Rightarrow> service_id \<Rightarrow> u64 \<Rightarrow> capability_id \<Rightarrow> service_request" where
  "ServiceRequest_empty operation service request_id authority =
     \<lparr>sr_operation = operation, sr_service = service, sr_request_id = request_id,
      sr_authority = authority, sr_payload = replicate MAX_REQUEST_PAYLOAD 0, sr_payload_len = 0\<rparr>"

definition ServiceRequest_with_payload ::
    "service_request \<Rightarrow> bytes \<Rightarrow> (service_error, service_request) outcome" where
  "ServiceRequest_with_payload self payload =
     (if length payload > MAX_REQUEST_PAYLOAD then Err SE_InvalidRequest
      else Ok (self\<lparr>sr_payload := splice (sr_payload self) 0 payload,
                    sr_payload_len := of_nat (length payload)\<rparr>))"

text \<open>\<open>&self.payload[..self.payload_len as usize]\<close>: the slice panics when the length
  exceeds the array.\<close>

definition ServiceRequest_payload :: "service_request \<Rightarrow> bytes option" where
  "ServiceRequest_payload self = get_range (sr_payload self) 0 (unat (sr_payload_len self))"

definition ServiceRequest_encode :: "service_request \<Rightarrow> bytes option" where
  "ServiceRequest_encode self =
     (case ServiceRequest_payload self of
        None \<Rightarrow> None
      | Some payload \<Rightarrow>
          let bs = replicate MAX_IPC_PAYLOAD 0;
              bs = splice bs 0 [0x56];
              bs = splice bs 1 [0x53];
              bs = splice bs 2 [service_operation_raw (sr_operation self)];
              bs = splice bs 3 (to_le 2 (service_id_raw (sr_service self)));
              bs = splice bs 5 (to_le 8 (sr_request_id self));
              bs = splice bs 13 (to_le 8 (raw (sr_authority self)));
              bs = splice bs 21 (to_le 2 (sr_payload_len self))
          in Some (splice bs REQUEST_PAYLOAD_OFFSET payload))"

definition ServiceRequest_decode :: "bytes \<Rightarrow> (service_error, service_request) outcome" where
  "ServiceRequest_decode bs =
     (if length bs \<noteq> MAX_IPC_PAYLOAD \<or> take 2 bs \<noteq> [0x56, 0x53] then Err SE_InvalidRequest
      else let payload_len = unat (from_le [bs ! 21, bs ! 22] :: u16) in
        if payload_len > MAX_REQUEST_PAYLOAD then Err SE_InvalidRequest
        else let payload = splice (replicate MAX_REQUEST_PAYLOAD 0) 0
                             (take payload_len (drop REQUEST_PAYLOAD_OFFSET bs)) in
          and_then (ok_or (ServiceOperation_from_raw (bs ! 2)) SE_InvalidRequest) (\<lambda>operation.
          and_then (ok_or (ServiceId_from_raw (from_le [bs ! 3, bs ! 4])) SE_InvalidRequest) (\<lambda>service.
          Ok \<lparr>sr_operation = operation, sr_service = service,
              sr_request_id = from_le (take 8 (drop 5 bs)),
              sr_authority = CapabilityId (from_le (take 8 (drop 13 bs))),
              sr_payload = payload, sr_payload_len = of_nat payload_len\<rparr>)))"

record service_response =
  rsp_request_id :: u64
  rsp_service :: service_id
  rsp_generation :: u64
  rsp_authority :: capability_id
  rsp_result :: i32
  rsp_payload :: bytes
  rsp_payload_len :: u16

record service_endpoint =
  ep_service :: service_id
  ep_generation :: u64
  ep_authority :: capability_id

definition ServiceResponse_success ::
    "u64 \<Rightarrow> service_id \<Rightarrow> u64 \<Rightarrow> capability_id \<Rightarrow> service_response" where
  "ServiceResponse_success request_id service generation authority =
     \<lparr>rsp_request_id = request_id, rsp_service = service, rsp_generation = generation,
      rsp_authority = authority, rsp_result = 0,
      rsp_payload = replicate MAX_RESPONSE_PAYLOAD 0, rsp_payload_len = 0\<rparr>"

definition ServiceResponse_error :: "u64 \<Rightarrow> service_id \<Rightarrow> service_error \<Rightarrow> service_response" where
  "ServiceResponse_error request_id service error =
     \<lparr>rsp_request_id = request_id, rsp_service = service, rsp_generation = 0,
      rsp_authority = CapabilityId_INVALID, rsp_result = - service_error_raw error,
      rsp_payload = replicate MAX_RESPONSE_PAYLOAD 0, rsp_payload_len = 0\<rparr>"

definition ServiceResponse_with_payload ::
    "service_response \<Rightarrow> bytes \<Rightarrow> (service_error, service_response) outcome" where
  "ServiceResponse_with_payload self payload =
     (if length payload > MAX_RESPONSE_PAYLOAD then Err SE_InvalidRequest
      else Ok (self\<lparr>rsp_payload := splice (rsp_payload self) 0 payload,
                    rsp_payload_len := of_nat (length payload)\<rparr>))"

definition ServiceResponse_payload :: "service_response \<Rightarrow> bytes option" where
  "ServiceResponse_payload self = get_range (rsp_payload self) 0 (unat (rsp_payload_len self))"

definition ServiceResponse_encode :: "service_response \<Rightarrow> bytes option" where
  "ServiceResponse_encode self =
     (case ServiceResponse_payload self of
        None \<Rightarrow> None
      | Some payload \<Rightarrow>
          let bs = replicate MAX_IPC_PAYLOAD 0;
              bs = splice bs 0 [0x56];
              bs = splice bs 1 [0x52];
              bs = splice bs 2 (to_le 4 (rsp_result self));
              bs = splice bs 6 (to_le 8 (rsp_request_id self));
              bs = splice bs 14 (to_le 2 (service_id_raw (rsp_service self)));
              bs = splice bs 16 (to_le 8 (rsp_generation self));
              bs = splice bs 24 (to_le 8 (raw (rsp_authority self)));
              bs = splice bs 32 (to_le 2 (rsp_payload_len self))
          in Some (splice bs RESPONSE_PAYLOAD_OFFSET payload))"

definition ServiceResponse_decode :: "bytes \<Rightarrow> (service_error, service_response) outcome" where
  "ServiceResponse_decode bs =
     (if length bs \<noteq> MAX_IPC_PAYLOAD \<or> take 2 bs \<noteq> [0x56, 0x52] then Err SE_InvalidRequest
      else let payload_len = unat (from_le [bs ! 32, bs ! 33] :: u16) in
        if payload_len > MAX_RESPONSE_PAYLOAD then Err SE_InvalidRequest
        else let payload = splice (replicate MAX_RESPONSE_PAYLOAD 0) 0
                             (take payload_len (drop RESPONSE_PAYLOAD_OFFSET bs)) in
          and_then (ok_or (ServiceId_from_raw (from_le [bs ! 14, bs ! 15])) SE_InvalidRequest) (\<lambda>service.
          Ok \<lparr>rsp_request_id = from_le (take 8 (drop 6 bs)), rsp_service = service,
              rsp_generation = from_le (take 8 (drop 16 bs)),
              rsp_authority = CapabilityId (from_le (take 8 (drop 24 bs))),
              rsp_result = from_le (take 4 (drop 2 bs)),
              rsp_payload = payload, rsp_payload_len = of_nat payload_len\<rparr>))"

section \<open>Frames inside the supervisor\<close>

record service_request_header =
  hd_service :: service_id
  hd_operation :: u16
  hd_request_id :: u64
  hd_authority :: capability_id

record service_response_header =
  rh_request_id :: u64
  rh_result :: i32

definition ServiceResponseHeader_success :: "u64 \<Rightarrow> service_response_header" where
  "ServiceResponseHeader_success request_id = \<lparr>rh_request_id = request_id, rh_result = 0\<rparr>"

definition ServiceResponseHeader_error :: "u64 \<Rightarrow> service_error \<Rightarrow> service_response_header" where
  "ServiceResponseHeader_error request_id error =
     \<lparr>rh_request_id = request_id, rh_result = - service_error_raw error\<rparr>"

record ipc_frame =
  fr_header :: service_request_header
  fr_payload_len :: u16
  fr_payload :: bytes

definition IpcFrame_empty :: "service_request_header \<Rightarrow> ipc_frame" where
  "IpcFrame_empty header =
     \<lparr>fr_header = header, fr_payload_len = 0, fr_payload = replicate MAX_IPC_PAYLOAD 0\<rparr>"

definition IpcFrame_with_payload :: "ipc_frame \<Rightarrow> bytes \<Rightarrow> (service_error, ipc_frame) outcome" where
  "IpcFrame_with_payload self payload =
     (if length payload > MAX_IPC_PAYLOAD then Err SE_InvalidRequest
      else Ok (self\<lparr>fr_payload := splice (fr_payload self) 0 payload,
                    fr_payload_len := of_nat (length payload)\<rparr>))"

definition IpcFrame_payload :: "ipc_frame \<Rightarrow> bytes option" where
  "IpcFrame_payload self = get_range (fr_payload self) 0 (unat (fr_payload_len self))"

section \<open>The supervisor\<close>

datatype service_state = SS_Registered | SS_Running | SS_Crashed | SS_Restarting | SS_Revoked

datatype audit_kind =
  AK_Registered | AK_Started | AK_Request | AK_Completed | AK_Crashed | AK_Restarted | AK_Revoked

record audit_event =
  ae_sequence :: u64
  ae_service :: service_id
  ae_kind :: audit_kind
  ae_request_id :: u64
  ae_authority :: capability_id
  ae_result :: i32

record service_slot =
  sl_id :: service_id
  sl_authority :: capability_id
  sl_generation :: u64
  sl_state :: service_state
  sl_restart_count :: u32

record service_supervisor =
  sv_slots :: "service_slot option list"
  sv_audit :: "audit_event option list"
  sv_audit_next :: nat
  sv_sequence :: u64

definition Supervisor_new :: service_supervisor where
  "Supervisor_new = \<lparr>sv_slots = replicate MAX_SERVICES None,
     sv_audit = replicate MAX_AUDIT_EVENTS None, sv_audit_next = 0, sv_sequence = 0\<rparr>"

text \<open>\<open>slots.iter().flatten().find(|slot| slot.id == id)\<close>.\<close>

fun find_in :: "service_id \<Rightarrow> service_slot option list \<Rightarrow> service_slot option" where
  "find_in i [] = None"
| "find_in i (None # xs) = find_in i xs"
| "find_in i (Some s # xs) = (if sl_id s = i then Some s else find_in i xs)"

definition find_slot :: "service_supervisor \<Rightarrow> service_id \<Rightarrow> service_slot option" where
  "find_slot self i = find_in i (sv_slots self)"

text \<open>The assignments through the reference that \<open>slot_mut\<close> returns: the first slot with
  this identifier is rewritten in place.\<close>

fun rewrite_in :: "service_id \<Rightarrow> (service_slot \<Rightarrow> service_slot) \<Rightarrow>
    service_slot option list \<Rightarrow> service_slot option list" where
  "rewrite_in i f [] = []"
| "rewrite_in i f (None # xs) = None # rewrite_in i f xs"
| "rewrite_in i f (Some s # xs) =
     (if sl_id s = i then Some (f s) # xs else Some s # rewrite_in i f xs)"

definition slot_mut :: "service_supervisor \<Rightarrow> service_id \<Rightarrow> (service_error, service_slot) outcome" where
  "slot_mut self i = ok_or (find_in i (sv_slots self)) SE_NotFound"

definition write_slot ::
    "service_id \<Rightarrow> (service_slot \<Rightarrow> service_slot) \<Rightarrow> service_supervisor \<Rightarrow> service_supervisor" where
  "write_slot i f self = self\<lparr>sv_slots := rewrite_in i f (sv_slots self)\<rparr>"

text \<open>\<open>self.audit[self.audit_next] = ...\<close> panics when the index is out of range.\<close>

definition record_event :: "service_supervisor \<Rightarrow> service_id \<Rightarrow> audit_kind \<Rightarrow> u64 \<Rightarrow>
    capability_id \<Rightarrow> i32 \<Rightarrow> (service_error, service_supervisor) outcome" where
  "record_event self service kind request_id authority result =
     (let sequence = sv_sequence self + 1 in
      if sv_audit_next self < length (sv_audit self)
      then Ok (self\<lparr>sv_sequence := sequence,
             sv_audit := (sv_audit self)[sv_audit_next self := Some
               \<lparr>ae_sequence = sequence, ae_service = service, ae_kind = kind,
                ae_request_id = request_id, ae_authority = authority, ae_result = result\<rparr>],
             sv_audit_next := (sv_audit_next self + 1) mod MAX_AUDIT_EVENTS\<rparr>)
      else Panic)"

text \<open>\<open>slots.iter().position(Option::is_none)\<close>.\<close>

fun position_none :: "'a option list \<Rightarrow> nat option" where
  "position_none [] = None"
| "position_none (None # xs) = Some 0"
| "position_none (Some x # xs) = map_option Suc (position_none xs)"

definition register :: "service_supervisor \<Rightarrow> service_id \<Rightarrow> capability_id \<Rightarrow>
    (service_error, service_supervisor) outcome" where
  "register self i authority =
     (if find_slot self i \<noteq> None then Err SE_InvalidRequest
      else and_then (ok_or (position_none (sv_slots self)) SE_QueueFull) (\<lambda>index.
        record_event (self\<lparr>sv_slots := (sv_slots self)[index := Some
            \<lparr>sl_id = i, sl_authority = authority, sl_generation = 1,
             sl_state = SS_Registered, sl_restart_count = 0\<rparr>]\<rparr>)
          i AK_Registered 0 authority 0))"

definition start :: "service_supervisor \<Rightarrow> service_id \<Rightarrow> (service_error, service_supervisor) outcome" where
  "start self i =
     and_then (slot_mut self i) (\<lambda>slot.
       if sl_state slot = SS_Revoked then Err SE_Revoked
       else record_event (write_slot i (\<lambda>s. s\<lparr>sl_state := SS_Running\<rparr>) self)
              i AK_Started 0 (sl_authority slot) 0)"

definition dispatch :: "service_supervisor \<Rightarrow> ipc_frame \<Rightarrow>
    (service_error, service_supervisor \<times> service_response_header) outcome" where
  "dispatch self frame =
     (let header = fr_header frame; request_id = hd_request_id header in
      case slot_mut self (hd_service header) of
        Ok slot \<Rightarrow>
          if sl_state slot = SS_Revoked \<or> sl_authority slot \<noteq> hd_authority header
          then Ok (self, ServiceResponseHeader_error request_id SE_Revoked)
          else if sl_state slot \<noteq> SS_Running
          then Ok (self, ServiceResponseHeader_error request_id SE_ServiceUnavailable)
          else and_then (record_event self (hd_service header) AK_Request request_id
                           (hd_authority header) 0) (\<lambda>self.
            let response = ServiceResponseHeader_success request_id in
            and_then (record_event self (hd_service header) AK_Completed request_id
                        (hd_authority header) (rh_result response)) (\<lambda>self.
            Ok (self, response)))
      | _ \<Rightarrow> Ok (self, ServiceResponseHeader_error request_id SE_NotFound))"

definition crash_and_restart ::
    "service_supervisor \<Rightarrow> service_id \<Rightarrow> (service_error, service_supervisor) outcome" where
  "crash_and_restart self i =
     and_then (slot_mut self i) (\<lambda>slot.
       if sl_state slot = SS_Revoked then Err SE_Revoked
       else let authority = sl_authority slot in
         and_then (record_event (write_slot i (\<lambda>s. s\<lparr>sl_state := SS_Crashed\<rparr>) self)
                     i AK_Crashed 0 authority (- 1)) (\<lambda>self.
         and_then (slot_mut self i) (\<lambda>_.
           record_event (write_slot i (\<lambda>s. (s\<lparr>sl_state := SS_Restarting,
               sl_restart_count := saturating_add (sl_restart_count s) 1\<rparr>)\<lparr>sl_state := SS_Running\<rparr>) self)
             i AK_Restarted 0 authority 0)))"

definition revoke :: "service_supervisor \<Rightarrow> service_id \<Rightarrow>
    (service_error, service_supervisor \<times> capability_id) outcome" where
  "revoke self i =
     and_then (slot_mut self i) (\<lambda>slot.
       let old = sl_authority slot in
       and_then (record_event (write_slot i (\<lambda>s. s\<lparr>sl_state := SS_Revoked\<rparr>) self) i AK_Revoked 0 old 0)
         (\<lambda>self. Ok (self, old)))"

definition state_of :: "service_supervisor \<Rightarrow> service_id \<Rightarrow> service_state option" where
  "state_of self i = map_option sl_state (find_slot self i)"

definition restart_count_of :: "service_supervisor \<Rightarrow> service_id \<Rightarrow> u32 option" where
  "restart_count_of self i = map_option sl_restart_count (find_slot self i)"

definition discover :: "service_supervisor \<Rightarrow> service_id \<Rightarrow> (service_error, service_endpoint) outcome" where
  "discover self i =
     and_then (ok_or (find_slot self i) SE_NotFound) (\<lambda>slot.
       if sl_state slot = SS_Revoked then Err SE_Revoked
       else Ok \<lparr>ep_service = sl_id slot, ep_generation = sl_generation slot,
                ep_authority = sl_authority slot\<rparr>)"

definition upgrade :: "service_supervisor \<Rightarrow> service_id \<Rightarrow> capability_id \<Rightarrow>
    (service_error, service_supervisor) outcome" where
  "upgrade self i authority =
     and_then (slot_mut self i) (\<lambda>slot.
       if sl_state slot = SS_Revoked then Err SE_Revoked
       else Ok (write_slot i (\<lambda>s. s\<lparr>sl_authority := authority,
                  sl_generation := saturating_add (sl_generation s) 1,
                  sl_state := SS_Running\<rparr>) self))"

definition audit_events :: "service_supervisor \<Rightarrow> audit_event list" where
  "audit_events self = List.map_filter (\<lambda>e. e) (sv_audit self)"

section \<open>Wire-format lemmas\<close>

text \<open>A request built by this crate: the payload array has its fixed size and is zero
  beyond the declared length.\<close>

definition request_wf :: "service_request \<Rightarrow> bool" where
  "request_wf r \<longleftrightarrow> length (sr_payload r) = MAX_REQUEST_PAYLOAD \<and>
     unat (sr_payload_len r) \<le> MAX_REQUEST_PAYLOAD \<and>
     drop (unat (sr_payload_len r)) (sr_payload r) =
       replicate (MAX_REQUEST_PAYLOAD - unat (sr_payload_len r)) 0"

definition response_wf :: "service_response \<Rightarrow> bool" where
  "response_wf r \<longleftrightarrow> length (rsp_payload r) = MAX_RESPONSE_PAYLOAD \<and>
     unat (rsp_payload_len r) \<le> MAX_RESPONSE_PAYLOAD \<and>
     drop (unat (rsp_payload_len r)) (rsp_payload r) =
       replicate (MAX_RESPONSE_PAYLOAD - unat (rsp_payload_len r)) 0"

lemma from_raw_service_id [simp]: "ServiceId_from_raw (service_id_raw i) = Some i"
  by (cases i) (simp_all add: ServiceId_from_raw_def)

lemma from_raw_service_operation [simp]:
  "ServiceOperation_from_raw (service_operation_raw i) = Some i"
  by (cases i) (simp_all add: ServiceOperation_from_raw_def)

lemma raw_from_service_id: "ServiceId_from_raw r = Some i \<Longrightarrow> service_id_raw i = r"
  by (auto simp: ServiceId_from_raw_def split: if_splits)

lemma raw_from_service_operation:
  "ServiceOperation_from_raw r = Some i \<Longrightarrow> service_operation_raw i = r"
  by (auto simp: ServiceOperation_from_raw_def split: if_splits)

lemma from_le_pair:
  assumes "take 2 (drop a bs) = to_le 2 (w :: u16)"
  shows "from_le [bs ! a, bs ! Suc a] = w"
proof -
  have "length (take 2 (drop a bs)) = 2" using assms by simp
  then have "a + 2 \<le> length bs" by simp
  then have "[bs ! a, bs ! Suc a] = to_le 2 w"
    using assms by (simp add: drop_take_nth)
  then show ?thesis by (simp add: le_simps)
qed

subsection \<open>Requests\<close>

lemma request_payload_split:
  assumes "request_wf r"
  shows "take (unat (sr_payload_len r)) (sr_payload r) @
    replicate (233 - unat (sr_payload_len r)) 0 = sr_payload r"
proof -
  have "drop (unat (sr_payload_len r)) (sr_payload r) = replicate (233 - unat (sr_payload_len r)) 0"
    using assms by (simp add: request_wf_def frame_consts)
  then show ?thesis by (metis append_take_drop_id)
qed

definition request_layout :: "service_request \<Rightarrow> bytes" where
  "request_layout r = [0x56, 0x53, service_operation_raw (sr_operation r)]
     @ to_le 2 (service_id_raw (sr_service r)) @ to_le 8 (sr_request_id r)
     @ to_le 8 (raw (sr_authority r)) @ to_le 2 (sr_payload_len r) @ sr_payload r"

lemma request_encode_layout:
  assumes "request_wf r"
  shows "ServiceRequest_encode r = Some (request_layout r)"
proof -
  let ?n = "unat (sr_payload_len r)"
  have p: "ServiceRequest_payload r = Some (take ?n (sr_payload r))"
    using assms by (simp add: ServiceRequest_payload_def get_range_def request_wf_def)
  have "ServiceRequest_encode r = Some
    (((((((([0x56] @ [0x53]) @ [service_operation_raw (sr_operation r)])
      @ to_le 2 (service_id_raw (sr_service r))) @ to_le 8 (sr_request_id r))
      @ to_le 8 (raw (sr_authority r))) @ to_le 2 (sr_payload_len r)) @ take ?n (sr_payload r))
      @ replicate (233 - ?n) 0)"
    using assms
    by (simp add: ServiceRequest_encode_def p Let_def frame_consts splice_fill0 splice_fill
        request_wf_def del: append.simps append_assoc)
  then show ?thesis
    using request_payload_split [OF assms] by (simp add: request_layout_def)
qed

lemma request_decode_layout:
  assumes "request_wf r"
  shows "ServiceRequest_decode (request_layout r) = Ok r"
proof -
  let ?bs = "request_layout r"
  have len: "length ?bs = 256"
    using assms by (simp add: request_layout_def request_wf_def frame_consts)
  have id: "from_le [?bs ! 3, ?bs ! 4] = service_id_raw (sr_service r)"
    using from_le_pair [of 3 ?bs] by (simp add: request_layout_def)
  have pl: "from_le [?bs ! 21, ?bs ! 22] = sr_payload_len r"
    using from_le_pair [of 21 ?bs] by (simp add: request_layout_def)
  have parts: "take 8 (drop 5 ?bs) = to_le 8 (sr_request_id r)"
    "take 8 (drop 13 ?bs) = to_le 8 (raw (sr_authority r))"
    "drop 23 ?bs = sr_payload r" "take 2 ?bs = [0x56, 0x53]"
    "?bs ! 2 = service_operation_raw (sr_operation r)"
    by (simp_all add: request_layout_def)
  show ?thesis
    using assms request_payload_split [OF assms] unfolding ServiceRequest_decode_def
    by (simp add: len id pl parts frame_consts request_wf_def splice_fill0 from_le_to_le Let_def)
qed

lemma request_with_payload_wf:
  assumes "ServiceRequest_with_payload (ServiceRequest_empty op i rid a) p = Ok r"
  shows "request_wf r \<and> ServiceRequest_payload r = Some p"
proof -
  have "length p \<le> 233" and r: "sr_payload r = p @ replicate (233 - length p) 0"
      "sr_payload_len r = of_nat (length p)"
    using assms by (auto simp: ServiceRequest_with_payload_def ServiceRequest_empty_def
        frame_consts splice_fill0 split: if_splits)
  moreover from this have "unat (sr_payload_len r) = length p"
    by (simp add: unat_of_nat)
  ultimately show ?thesis
    by (simp add: request_wf_def ServiceRequest_payload_def get_range_def frame_consts)
qed

text \<open>Any request a client builds is carried intact by the 256-byte wire frame:
  construction fails exactly for payloads over 233 bytes, and otherwise encoding does not
  panic, yields 256 bytes, and decodes to the same request with the same payload.\<close>

theorem request_wire_roundtrip:
  "case ServiceRequest_with_payload (ServiceRequest_empty operation service rid authority) payload of
     Ok r \<Rightarrow> ServiceRequest_payload r = Some payload \<and>
       (\<exists>bs. ServiceRequest_encode r = Some bs \<and> length bs = 256 \<and> ServiceRequest_decode bs = Ok r)
   | Err e \<Rightarrow> e = SE_InvalidRequest \<and> length payload > 233
   | Panic \<Rightarrow> False"
proof (cases "ServiceRequest_with_payload (ServiceRequest_empty operation service rid authority) payload")
  case (Ok r)
  then have wf: "request_wf r" and "ServiceRequest_payload r = Some payload"
    using request_with_payload_wf by blast+
  with Ok show ?thesis
    using request_encode_layout [OF wf] request_decode_layout [OF wf]
    by (simp add: request_layout_def request_wf_def frame_consts)
qed (auto simp: ServiceRequest_with_payload_def frame_consts split: if_splits)

lemma request_decode_Ok:
  assumes "ServiceRequest_decode bs = Ok r"
  shows "request_wf r \<and> (\<exists>cs. ServiceRequest_encode r = Some cs \<and>
    take (23 + unat (sr_payload_len r)) cs = take (23 + unat (sr_payload_len r)) bs)"
proof -
  let ?n = "unat (from_le [bs ! 21, bs ! 22] :: u16)"
  from assms have len: "length bs = 256" and n: "?n \<le> 233" and hd: "take 2 bs = [0x56, 0x53]"
    and op: "ServiceOperation_from_raw (bs ! 2) = Some (sr_operation r)"
    and id: "ServiceId_from_raw (from_le [bs ! 3, bs ! 4]) = Some (sr_service r)"
    and f: "sr_request_id r = from_le (take 8 (drop 5 bs))"
      "sr_authority r = CapabilityId (from_le (take 8 (drop 13 bs)))"
      "sr_payload_len r = of_nat ?n"
      "sr_payload r = take ?n (drop 23 bs) @ replicate (233 - ?n) 0"
    by (auto simp: ServiceRequest_decode_def Let_def outcome_simps frame_consts splice_fill0
        min_def split: if_splits)
  have pl: "sr_payload_len r = from_le [bs ! 21, bs ! 22]" and un: "unat (sr_payload_len r) = ?n"
    using f(3) by simp_all
  have wf: "request_wf r"
    using n len un by (simp add: request_wf_def f(4) frame_consts)
  have two: "to_le 2 (from_le [x, y] :: u16) = [x, y]" for x y
    using to_le_from_le [where 'a = 16, of "[x, y]"] by (simp add: numeral_2_eq_2)
  have eight: "to_le 8 (from_le (take 8 (drop k bs)) :: u64) = take 8 (drop k bs)" if "k \<le> 200" for k
    using to_le_from_le [where 'a = 64, of "take 8 (drop k bs)"] that len by simp
  have "request_layout r = [0x56, 0x53, bs ! 2] @ [bs ! 3, bs ! 4] @ take 8 (drop 5 bs)
      @ take 8 (drop 13 bs) @ [bs ! 21, bs ! 22] @ sr_payload r"
    using raw_from_service_operation [OF op] raw_from_service_id [OF id]
    by (simp add: request_layout_def f(1,2) pl two eight)
  moreover have "take 23 bs = [0x56, 0x53, bs ! 2] @ [bs ! 3, bs ! 4] @ take 8 (drop 5 bs)
      @ take 8 (drop 13 bs) @ [bs ! 21, bs ! 22]"
  proof -
    have "take 23 bs = take 2 bs @ take 1 (drop 2 bs) @ take 2 (drop 3 bs) @ take 8 (drop 5 bs)
        @ take 8 (drop 13 bs) @ take 2 (drop 21 bs)"
      using take_add [of 2 21 bs] take_add [of 1 20 "drop 2 bs"] take_add [of 2 18 "drop 3 bs"]
        take_add [of 8 10 "drop 5 bs"] take_add [of 8 2 "drop 13 bs"]
      by (simp del: One_nat_def)
    moreover have "take 1 (drop 2 bs) = [bs ! 2]" "take 2 (drop 3 bs) = [bs ! 3, bs ! 4]"
        "take 2 (drop 21 bs) = [bs ! 21, bs ! 22]"
      using len drop_take_nth [of 3 bs] drop_take_nth [of 21 bs]
      by (simp_all add: take_Suc_conv_app_nth)
    ultimately show ?thesis using hd by simp
  qed
  ultimately have "request_layout r = take 23 bs @ take ?n (drop 23 bs) @ replicate (233 - ?n) 0"
    by (simp add: f(4))
  then have "take (23 + ?n) (request_layout r) = take (23 + ?n) bs"
    using len n by (simp add: take_add)
  with wf un show ?thesis
    using request_encode_layout [OF wf] by simp
qed

text \<open>Decoding is safe on arbitrary bytes: it never panics, and a frame it accepts is a
  well-formed request whose re-encoding does not panic and agrees with the received bytes up
  to the end of the declared payload.\<close>

theorem request_decode_sound:
  "case ServiceRequest_decode bs of
     Ok r \<Rightarrow> request_wf r \<and> (\<exists>cs. ServiceRequest_encode r = Some cs \<and>
       take (23 + unat (sr_payload_len r)) cs = take (23 + unat (sr_payload_len r)) bs)
   | Err e \<Rightarrow> e = SE_InvalidRequest
   | Panic \<Rightarrow> False"
proof (cases "ServiceRequest_decode bs")
  case (Ok r)
  then show ?thesis using request_decode_Ok [OF Ok] by simp
qed (auto simp: ServiceRequest_decode_def Let_def outcome_simps split: if_splits)

subsection \<open>Responses\<close>

lemma response_payload_split:
  assumes "response_wf r"
  shows "take (unat (rsp_payload_len r)) (rsp_payload r) @
    replicate (222 - unat (rsp_payload_len r)) 0 = rsp_payload r"
proof -
  have "drop (unat (rsp_payload_len r)) (rsp_payload r) = replicate (222 - unat (rsp_payload_len r)) 0"
    using assms by (simp add: response_wf_def frame_consts)
  then show ?thesis by (metis append_take_drop_id)
qed

definition response_layout :: "service_response \<Rightarrow> bytes" where
  "response_layout r = [0x56, 0x52] @ to_le 4 (rsp_result r) @ to_le 8 (rsp_request_id r)
     @ to_le 2 (service_id_raw (rsp_service r)) @ to_le 8 (rsp_generation r)
     @ to_le 8 (raw (rsp_authority r)) @ to_le 2 (rsp_payload_len r) @ rsp_payload r"

lemma response_encode_layout:
  assumes "response_wf r"
  shows "ServiceResponse_encode r = Some (response_layout r)"
proof -
  let ?n = "unat (rsp_payload_len r)"
  have p: "ServiceResponse_payload r = Some (take ?n (rsp_payload r))"
    using assms by (simp add: ServiceResponse_payload_def get_range_def response_wf_def)
  have "ServiceResponse_encode r = Some
    ((((((((([0x56] @ [0x52]) @ to_le 4 (rsp_result r)) @ to_le 8 (rsp_request_id r))
      @ to_le 2 (service_id_raw (rsp_service r))) @ to_le 8 (rsp_generation r))
      @ to_le 8 (raw (rsp_authority r))) @ to_le 2 (rsp_payload_len r)) @ take ?n (rsp_payload r))
      @ replicate (222 - ?n) 0)"
    using assms
    by (simp add: ServiceResponse_encode_def p Let_def frame_consts splice_fill0 splice_fill
        response_wf_def del: append.simps append_assoc)
  then show ?thesis
    using response_payload_split [OF assms] by (simp add: response_layout_def)
qed

lemma response_decode_layout:
  assumes "response_wf r"
  shows "ServiceResponse_decode (response_layout r) = Ok r"
proof -
  let ?bs = "response_layout r"
  have len: "length ?bs = 256"
    using assms by (simp add: response_layout_def response_wf_def frame_consts)
  have id: "from_le [?bs ! 14, ?bs ! 15] = service_id_raw (rsp_service r)"
    using from_le_pair [of 14 ?bs] by (simp add: response_layout_def)
  have pl: "from_le [?bs ! 32, ?bs ! 33] = rsp_payload_len r"
    using from_le_pair [of 32 ?bs] by (simp add: response_layout_def)
  have parts: "take 4 (drop 2 ?bs) = to_le 4 (rsp_result r)"
    "take 8 (drop 6 ?bs) = to_le 8 (rsp_request_id r)"
    "take 8 (drop 16 ?bs) = to_le 8 (rsp_generation r)"
    "take 8 (drop 24 ?bs) = to_le 8 (raw (rsp_authority r))"
    "drop 34 ?bs = rsp_payload r" "take 2 ?bs = [0x56, 0x52]"
    by (simp_all add: response_layout_def)
  show ?thesis
    using assms response_payload_split [OF assms] unfolding ServiceResponse_decode_def
    by (simp add: len id pl parts frame_consts response_wf_def splice_fill0 from_le_to_le Let_def)
qed

lemma response_with_payload_wf:
  assumes "rsp_payload q = replicate 222 0" "ServiceResponse_with_payload q p = Ok r"
  shows "response_wf r \<and> ServiceResponse_payload r = Some p"
proof -
  have "length p \<le> 222" and r: "rsp_payload r = p @ replicate (222 - length p) 0"
      "rsp_payload_len r = of_nat (length p)"
    using assms by (auto simp: ServiceResponse_with_payload_def
        frame_consts splice_fill0 split: if_splits)
  moreover from this have "unat (rsp_payload_len r) = length p"
    by (simp add: unat_of_nat)
  ultimately show ?thesis
    by (simp add: response_wf_def ServiceResponse_payload_def get_range_def frame_consts)
qed

text \<open>Responses are carried intact too: a success response with any payload of at most
  222 bytes and an error response both survive encoding and decoding, the signed result
  included.\<close>

theorem response_wire_roundtrip:
  "(case ServiceResponse_with_payload (ServiceResponse_success rid service generation authority) payload of
      Ok r \<Rightarrow> ServiceResponse_payload r = Some payload \<and>
        (\<exists>bs. ServiceResponse_encode r = Some bs \<and> length bs = 256 \<and> ServiceResponse_decode bs = Ok r)
    | Err e \<Rightarrow> e = SE_InvalidRequest \<and> length payload > 222
    | Panic \<Rightarrow> False) \<and>
   (\<exists>bs. ServiceResponse_encode (ServiceResponse_error rid service err) = Some bs \<and>
      ServiceResponse_decode bs = Ok (ServiceResponse_error rid service err))"
proof
  show "\<exists>bs. ServiceResponse_encode (ServiceResponse_error rid service err) = Some bs \<and>
      ServiceResponse_decode bs = Ok (ServiceResponse_error rid service err)"
  proof -
    have "response_wf (ServiceResponse_error rid service err)"
      by (simp add: response_wf_def ServiceResponse_error_def)
    then show ?thesis
      using response_encode_layout response_decode_layout by blast
  qed
next
  let ?q = "ServiceResponse_success rid service generation authority"
  have q: "rsp_payload ?q = replicate 222 0"
    by (simp add: ServiceResponse_success_def frame_consts)
  show "case ServiceResponse_with_payload ?q payload of
      Ok r \<Rightarrow> ServiceResponse_payload r = Some payload \<and>
        (\<exists>bs. ServiceResponse_encode r = Some bs \<and> length bs = 256 \<and> ServiceResponse_decode bs = Ok r)
    | Err e \<Rightarrow> e = SE_InvalidRequest \<and> length payload > 222
    | Panic \<Rightarrow> False"
  proof (cases "ServiceResponse_with_payload ?q payload")
    case (Ok r)
    with q have wf: "response_wf r" and "ServiceResponse_payload r = Some payload"
      using response_with_payload_wf by blast+
    with Ok show ?thesis
      using response_encode_layout [OF wf] response_decode_layout [OF wf]
      by (simp add: response_layout_def response_wf_def frame_consts)
  qed (auto simp: ServiceResponse_with_payload_def frame_consts split: if_splits)
qed

section \<open>The supervisor as a state machine\<close>

inductive sv_step :: "service_supervisor \<Rightarrow> service_supervisor \<Rightarrow> bool" where
  sv_register: "register s i a = Ok t \<Longrightarrow> sv_step s t"
| sv_start: "start s i = Ok t \<Longrightarrow> sv_step s t"
| sv_dispatch: "dispatch s f = Ok (t, r) \<Longrightarrow> sv_step s t"
| sv_crash: "crash_and_restart s i = Ok t \<Longrightarrow> sv_step s t"
| sv_revoke: "revoke s i = Ok (t, a) \<Longrightarrow> sv_step s t"
| sv_upgrade: "upgrade s i a = Ok t \<Longrightarrow> sv_step s t"

inductive sv_reach :: "service_supervisor \<Rightarrow> bool" where
  sv_new: "sv_reach Supervisor_new"
| sv_next: "sv_reach s \<Longrightarrow> sv_step s t \<Longrightarrow> sv_reach t"

inductive_cases sv_stepE: "sv_step s t"

subsection \<open>Slots\<close>

lemma find_rewrite_same:
  "find_in i xs = Some s \<Longrightarrow> sl_id (f s) = i \<Longrightarrow> find_in i (rewrite_in i f xs) = Some (f s)"
  by (induction i f xs rule: rewrite_in.induct) (auto split: if_splits)

lemma find_rewrite_other:
  "i \<noteq> j \<Longrightarrow> (\<And>s. sl_id (f s) = sl_id s) \<Longrightarrow> find_in j (rewrite_in i f xs) = find_in j xs"
  by (induction i f xs rule: rewrite_in.induct) auto

lemma find_rewrite:
  "(\<And>s. sl_id (f s) = sl_id s) \<Longrightarrow>
   find_in j (rewrite_in i f xs) = (if j = i then map_option f (find_in i xs) else find_in j xs)"
  by (induction i f xs rule: rewrite_in.induct) auto

lemma find_in_id: "find_in i xs = Some s \<Longrightarrow> sl_id s = i"
  by (induction i xs rule: find_in.induct) (auto split: if_splits)

lemma find_position_none:
  "position_none xs = Some k \<Longrightarrow> sl_id s = i \<Longrightarrow> find_in i xs = None \<Longrightarrow>
   find_in j (xs[k := Some s]) = (if j = i then Some s else find_in j xs)"
  by (induction xs arbitrary: k rule: position_none.induct) (auto split: if_splits)

subsection \<open>The audit ring\<close>

text \<open>Slot \<open>k\<close> of the ring holds the event recorded \<open>age\<close> records ago, or was never
  written because fewer than \<open>k + 1\<close> events were recorded.\<close>

definition ring_age :: "service_supervisor \<Rightarrow> nat \<Rightarrow> nat" where
  "ring_age s k = (sv_audit_next s + 63 - k) mod 64"

definition ring_slot :: "service_supervisor \<Rightarrow> nat \<Rightarrow> bool" where
  "ring_slot s k = (case sv_audit s ! k of
     Some e \<Rightarrow> ae_sequence e = sv_sequence s - of_nat (ring_age s k)
   | None \<Rightarrow> unat (sv_sequence s) \<le> k)"

definition ring_inv :: "service_supervisor \<Rightarrow> bool" where
  "ring_inv s \<longleftrightarrow> length (sv_audit s) = 64 \<and> sv_audit_next s = unat (sv_sequence s) mod 64 \<and>
     (\<forall>k<64. ring_slot s k)"

lemma ring_inv_new: "ring_inv Supervisor_new"
  by (simp add: ring_inv_def ring_slot_def Supervisor_new_def MAX_AUDIT_EVENTS_def)

lemma ring_inv_frame:
  "sv_audit t = sv_audit s \<Longrightarrow> sv_audit_next t = sv_audit_next s \<Longrightarrow> sv_sequence t = sv_sequence s \<Longrightarrow>
   ring_inv t = ring_inv s"
  by (simp add: ring_inv_def ring_slot_def ring_age_def cong: option.case_cong)

lemma unat_inc_mod64: "unat (x + 1 :: u64) mod 64 = (unat x mod 64 + 1) mod 64"
proof -
  have "unat (x + 1) = (unat x + 1) mod 2 ^ 64" by (simp add: unat_word_ariths)
  then have "unat (x + 1) mod 64 = (unat x + 1) mod 64" by (simp add: mod_mod_cancel)
  then show ?thesis by (simp add: mod_Suc_eq)
qed

lemma ring_inv_record:
  assumes "ring_inv s" "record_event s i kind rid a res = Ok t"
  shows "ring_inv t"
proof -
  let ?j = "sv_audit_next s"
  have len: "length (sv_audit s) = 64" and j: "?j = unat (sv_sequence s) mod 64" and j64: "?j < 64"
    using assms(1) by (auto simp: ring_inv_def)
  have t: "sv_sequence t = sv_sequence s + 1" "sv_audit_next t = (?j + 1) mod 64"
      "length (sv_audit t) = 64"
    and at_j: "\<exists>e. sv_audit t ! ?j = Some e \<and> ae_sequence e = sv_sequence s + 1"
    and other: "\<And>k. k \<noteq> ?j \<Longrightarrow> sv_audit t ! k = sv_audit s ! k"
    using assms(2) len j64 
    by (auto simp: record_event_def Let_def MAX_AUDIT_EVENTS_def)
  have age_j: "ring_age t ?j = 0"
    using j64 by (auto simp: ring_age_def t mod_Suc)
  have age: "ring_age t k = ring_age s k + 1" if "k < 64" "k \<noteq> ?j" for k
  proof -
    have s: "ring_age s k = (if k < ?j then ?j - 1 - k else ?j + 63 - k)"
    proof (cases "k < ?j")
      case True
      then have "?j + 63 - k = 64 + (?j - 1 - k)" by simp
      then have "ring_age s k = (?j - 1 - k) mod 64" by (simp only: ring_age_def mod_add_self1)
      with True j64 show ?thesis by simp
    qed (use that in \<open>simp add: ring_age_def\<close>)
    have "ring_age t k = (if k < ?j then ?j - k else ?j + 64 - k)"
    proof (cases "?j = 63")
      case True
      with that show ?thesis by (simp add: ring_age_def t)
    next
      case False
      then have "sv_audit_next t = ?j + 1" using j64 by (simp add: t)
      moreover have "k < ?j \<Longrightarrow> (64 + ?j - k) mod 64 = ?j - k"
      proof -
        assume "k < ?j"
        then have "64 + ?j - k = 64 + (?j - k)" by simp
        then have "(64 + ?j - k) mod 64 = (?j - k) mod 64" by (simp only: mod_add_self1)
        with j64 show ?thesis by simp
      qed
      ultimately show ?thesis using that j64 by (auto simp: ring_age_def)
    qed
    with s that show ?thesis by auto
  qed
  have "ring_slot t k" if k: "k < 64" for k
  proof (cases "k = ?j")
    case True
    with at_j age_j t(1) show ?thesis by (auto simp: ring_slot_def)
  next
    case False
    have old: "ring_slot s k"
      using assms(1) k by (simp add: ring_inv_def)
    show ?thesis
    proof (cases "sv_audit s ! k")
      case (Some e)
      with old False show ?thesis by (simp add: ring_slot_def other age k t(1))
    next
      case None
      with old have le: "unat (sv_sequence s) \<le> k" by (simp add: ring_slot_def)
      with k j have "unat (sv_sequence s) = ?j" by simp
      with le False have "unat (sv_sequence s) + 1 \<le> k" by simp
      moreover from this k have "unat (sv_sequence s) + unat (1 :: u64) < 2 ^ LENGTH(64)" by simp
      from unat_add_no_overflow [OF this] have "unat (sv_sequence s + 1) = unat (sv_sequence s) + 1"
        by simp
      ultimately show ?thesis using None False by (simp add: ring_slot_def other t(1))
    qed
  qed
  then show ?thesis
    using j by (simp add: ring_inv_def t unat_inc_mod64)
qed

lemma record_event_Ok:
  "ring_inv s \<Longrightarrow> \<exists>t. record_event s i kind rid a res = Ok t \<and> sv_slots t = sv_slots s"
  by (simp add: record_event_def ring_inv_def Let_def)

lemma record_event_slots: "record_event s i kind rid a res = Ok t \<Longrightarrow> sv_slots t = sv_slots s"
  by (auto simp: record_event_def Let_def split: if_splits)


subsection \<open>Invariant of every reachable state\<close>

lemma ring_inv_write [simp]: "ring_inv (write_slot i f s) = ring_inv s"
  by (rule ring_inv_frame) (simp_all add: write_slot_def)

lemma ring_inv_slots [simp]: "ring_inv (s\<lparr>sv_slots := xs\<rparr>) = ring_inv s"
  by (rule ring_inv_frame) simp_all

lemma ring_inv_recordD: "record_event s i kind rid a res = Ok t \<Longrightarrow> ring_inv s \<longrightarrow> ring_inv t"
  using ring_inv_record by blast

lemma ring_inv_step: "sv_step s t \<Longrightarrow> ring_inv s \<Longrightarrow> ring_inv t"
  by (erule sv_step.cases)
     (auto simp: register_def start_def dispatch_def crash_and_restart_def revoke_def upgrade_def
        outcome_simps Let_def slot_mut_def split: if_splits outcome.splits
        dest!: ring_inv_recordD)

lemma ring_inv_reach: "sv_reach s \<Longrightarrow> ring_inv s"
  by (induction rule: sv_reach.induct) (auto intro: ring_inv_new ring_inv_step)

lemma record_event_no_panic: "ring_inv s \<Longrightarrow> record_event s i kind rid a res \<noteq> Panic"
  by (simp add: record_event_def ring_inv_def Let_def)

lemma no_panic:
  assumes "ring_inv s"
  shows "register s i a \<noteq> Panic" "start s i \<noteq> Panic" "dispatch s f \<noteq> Panic"
    "crash_and_restart s i \<noteq> Panic" "revoke s i \<noteq> Panic" "upgrade s i a \<noteq> Panic"
  using assms
  by (auto simp: register_def start_def dispatch_def crash_and_restart_def revoke_def upgrade_def
        outcome_simps Let_def slot_mut_def record_event_no_panic split: outcome.splits
        dest: ring_inv_recordD)

subsection \<open>Revocation\<close>

lemma find_slot_write:
  "(\<And>s. sl_id (f s) = sl_id s) \<Longrightarrow>
   find_slot (write_slot i f s) j = (if j = i then map_option f (find_slot s i) else find_slot s j)"
  by (simp add: find_slot_def write_slot_def find_rewrite)

lemma find_slot_record: "record_event s i kind rid a res = Ok t \<Longrightarrow> find_slot t = find_slot s"
  by (simp add: find_slot_def [abs_def] record_event_slots)

lemma slot_mut_Ok: "slot_mut s i = Ok x \<longleftrightarrow> find_slot s i = Some x"
  by (simp add: slot_mut_def find_slot_def)

lemma register_find:
  assumes "register s i a = Ok t"
  shows "find_slot s i = None \<and> find_slot t = (find_slot s)(i \<mapsto>
    \<lparr>sl_id = i, sl_authority = a, sl_generation = 1, sl_state = SS_Registered, sl_restart_count = 0\<rparr>)"
  using assms
  by (auto simp: register_def outcome_simps fun_eq_iff find_position_none find_slot_def
      dest!: record_event_slots split: if_splits)

lemma start_find:
  assumes "start s i = Ok t"
  shows "\<exists>x. find_slot s i = Some x \<and> sl_state x \<noteq> SS_Revoked \<and>
    find_slot t = (find_slot s)(i \<mapsto> x\<lparr>sl_state := SS_Running\<rparr>)"
  using assms
  by (auto simp: start_def outcome_simps slot_mut_Ok fun_eq_iff find_slot_write
      dest!: find_slot_record split: if_splits)

lemma crash_and_restart_find:
  assumes "crash_and_restart s i = Ok t"
  shows "\<exists>x. find_slot s i = Some x \<and> sl_state x \<noteq> SS_Revoked \<and>
    find_slot t = (find_slot s)(i \<mapsto> x\<lparr>sl_state := SS_Running,
      sl_restart_count := saturating_add (sl_restart_count x) 1\<rparr>)"
  using assms
  by (auto simp: crash_and_restart_def outcome_simps slot_mut_Ok fun_eq_iff find_slot_write Let_def
      dest!: find_slot_record split: if_splits)

lemma revoke_find:
  assumes "revoke s i = Ok (t, a)"
  shows "\<exists>x. find_slot s i = Some x \<and> a = sl_authority x \<and>
    find_slot t = (find_slot s)(i \<mapsto> x\<lparr>sl_state := SS_Revoked\<rparr>)"
  using assms
  by (auto simp: revoke_def outcome_simps slot_mut_Ok fun_eq_iff find_slot_write Let_def
      dest!: find_slot_record split: if_splits)

lemma upgrade_find:
  assumes "upgrade s i a = Ok t"
  shows "\<exists>x. find_slot s i = Some x \<and> sl_state x \<noteq> SS_Revoked \<and>
    find_slot t = (find_slot s)(i \<mapsto> x\<lparr>sl_authority := a,
      sl_generation := saturating_add (sl_generation x) 1, sl_state := SS_Running\<rparr>)"
  using assms
  by (auto simp: upgrade_def outcome_simps slot_mut_Ok fun_eq_iff find_slot_write split: if_splits)

lemma dispatch_find: "dispatch s f = Ok (t, r) \<Longrightarrow> find_slot t = find_slot s"
  by (auto simp: dispatch_def outcome_simps Let_def dest!: find_slot_record
      split: if_splits outcome.splits)

lemmas op_finds = register_find start_find crash_and_restart_find revoke_find upgrade_find dispatch_find

lemma revoked_step:
  assumes "sv_step s t" "state_of s i = Some SS_Revoked"
  shows "state_of t i = Some SS_Revoked"
  using assms by (cases rule: sv_step.cases) (auto simp: state_of_def dest!: op_finds)

lemma revoked_steps:
  "sv_step\<^sup>*\<^sup>* s t \<Longrightarrow> state_of s i = Some SS_Revoked \<Longrightarrow> state_of t i = Some SS_Revoked"
  by (induction rule: rtranclp_induct) (auto intro: revoked_step)

lemma dispatch_revoked:
  assumes "state_of s (hd_service (fr_header f)) = Some SS_Revoked"
  shows "dispatch s f = Ok (s, ServiceResponseHeader_error (hd_request_id (fr_header f)) SE_Revoked)"
  using assms by (auto simp: state_of_def find_slot_def dispatch_def Let_def slot_mut_def)

section \<open>Properties of the supervisor\<close>

text \<open>C23. Revocation is permanent: once a service is revoked, whatever operations follow,
  every request to it is answered with \<open>Revoked\<close>, discovery, start, upgrade and restart
  fail with \<open>Revoked\<close>, and the service cannot be registered again.\<close>

theorem revocation_permanent:
  assumes "revoke s i = Ok (t, a)" "sv_step\<^sup>*\<^sup>* t u" "hd_service (fr_header f) = i"
  shows "dispatch u f = Ok (u, ServiceResponseHeader_error (hd_request_id (fr_header f)) SE_Revoked) \<and>
    discover u i = Err SE_Revoked \<and> start u i = Err SE_Revoked \<and> upgrade u i b = Err SE_Revoked \<and>
    crash_and_restart u i = Err SE_Revoked \<and> register u i b = Err SE_InvalidRequest"
proof -
  have "state_of t i = Some SS_Revoked"
    using revoke_find [OF assms(1)] by (auto simp: state_of_def)
  with assms(2) have u: "state_of u i = Some SS_Revoked" by (rule revoked_steps)
  then obtain x where x: "find_slot u i = Some x" "sl_state x = SS_Revoked"
    by (auto simp: state_of_def)
  then have m: "slot_mut u i = Ok x" by (simp add: slot_mut_Ok)
  show ?thesis
    using u assms(3) x m
    by (simp add: dispatch_revoked discover_def start_def upgrade_def crash_and_restart_def register_def)
qed

definition demo_supervisor :: service_supervisor where
  "demo_supervisor = (case register Supervisor_new Svc_Vfs (CapabilityId 7) of
     Ok s \<Rightarrow> (case start s Svc_Vfs of Ok t \<Rightarrow> t | _ \<Rightarrow> s) | _ \<Rightarrow> Supervisor_new)"

definition demo_frame :: ipc_frame where
  "demo_frame = IpcFrame_empty \<lparr>hd_service = Svc_Vfs, hd_operation = 1, hd_request_id = 42,
     hd_authority = CapabilityId 7\<rparr>"

lemma demo_revoke: "\<exists>t. revoke demo_supervisor Svc_Vfs = Ok (t, CapabilityId 7)"
proof -
  have "(case revoke demo_supervisor Svc_Vfs of Ok (t, a) \<Rightarrow> a = CapabilityId 7 | _ \<Rightarrow> False)"
    by code_simp
  then show ?thesis by (auto split: outcome.splits)
qed

theorem revocation_permanent_witness:
  "\<exists>t. revoke demo_supervisor Svc_Vfs = Ok (t, CapabilityId 7) \<and>
     dispatch t demo_frame = Ok (t, ServiceResponseHeader_error 42 SE_Revoked)"
proof -
  obtain t where t: "revoke demo_supervisor Svc_Vfs = Ok (t, CapabilityId 7)"
    using demo_revoke by blast
  have "dispatch t demo_frame = Ok (t, ServiceResponseHeader_error 42 SE_Revoked)"
    using revocation_permanent [OF t rtranclp.rtrancl_refl, of demo_frame]
    by (simp add: demo_frame_def IpcFrame_empty_def)
  with t show ?thesis by blast
qed

text \<open>C24. In every reachable state a request is answered, with its own request id, and it
  succeeds exactly when the service is running and the caller presents the service's current
  authority; a success adds exactly two audit records, a refusal leaves the state unchanged.\<close>

theorem dispatch_authority:
  assumes "sv_reach s"
  shows "\<exists>t r. dispatch s f = Ok (t, r) \<and> rh_request_id r = hd_request_id (fr_header f) \<and>
    (rh_result r = 0 \<longleftrightarrow> (\<exists>x. find_slot s (hd_service (fr_header f)) = Some x \<and>
        sl_state x = SS_Running \<and> sl_authority x = hd_authority (fr_header f))) \<and>
    (if rh_result r = 0 then sv_sequence t = sv_sequence s + 2 else t = s)"
proof (cases "dispatch s f")
  case (Ok p)
  obtain t r where p: "p = (t, r)" by (cases p)
  show ?thesis
    using Ok unfolding p
    by (auto simp: dispatch_def Let_def outcome_simps ServiceResponseHeader_error_def
       ServiceResponseHeader_success_def record_event_def find_slot_def slot_mut_def
       split: if_splits outcome.splits option.splits)
next
  case (Err e)
  then show ?thesis
    by (auto simp: dispatch_def Let_def outcome_simps record_event_def
        split: if_splits outcome.splits)
next
  case Panic
  then show ?thesis using no_panic(3) [OF ring_inv_reach [OF assms], of f] by simp
qed

lemma demo_reach: "sv_reach demo_supervisor"
proof -
  have "(case register Supervisor_new Svc_Vfs (CapabilityId 7) of Ok s \<Rightarrow> is_ok (start s Svc_Vfs) | _ \<Rightarrow> False)"
    by code_simp
  then obtain s t where s: "register Supervisor_new Svc_Vfs (CapabilityId 7) = Ok s" and t: "start s Svc_Vfs = Ok t"
    by (auto simp: is_ok_iff split: outcome.splits)
  have "sv_reach t"
    by (rule sv_next [OF sv_next [OF sv_new sv_register [OF s]] sv_start [OF t]])
  with s t show ?thesis by (simp add: demo_supervisor_def)
qed

theorem dispatch_authority_witness:
  "\<exists>t r. dispatch demo_supervisor demo_frame = Ok (t, r) \<and> rh_result r = 0 \<and>
     sv_sequence t = sv_sequence demo_supervisor + 2"
proof -
  have "\<exists>x. find_slot demo_supervisor Svc_Vfs = Some x \<and> sl_state x = SS_Running \<and> sl_authority x = CapabilityId 7"
  proof -
    have "(case find_slot demo_supervisor Svc_Vfs of Some x \<Rightarrow>
        sl_state x = SS_Running \<and> sl_authority x = CapabilityId 7 | None \<Rightarrow> False)"
      by code_simp
    then show ?thesis by (auto split: option.splits)
  qed
  with dispatch_authority [OF demo_reach, of demo_frame] show ?thesis
    by (auto simp: demo_frame_def IpcFrame_empty_def)
qed



end
