(* ===== verification/Btree.thy ===== *)
theory Btree
  imports Prelude
begin

text \<open>
  Rust's \<open>BTreeMap\<close> (standard library), as the kernel uses it: an association
  list kept in strictly increasing key order.  The operations are the ones the
  sources call (\<open>get\<close>, \<open>insert\<close>, \<open>remove\<close>, \<open>contains_key\<close>,
  \<open>range(..k)\<close>, \<open>range(..=k)\<close> with \<open>next_back\<close>, \<open>keys\<close>, \<open>values\<close>,
  \<open>iter().find\<close>).  The locale \<open>ordered_map\<close> is the contract the clients rely on;
  it is interpreted on these definitions.
\<close>

section \<open>The contract\<close>

locale ordered_map =
  fixes invar :: "'m \<Rightarrow> bool"
    and lookup :: "'m \<Rightarrow> 'k \<Rightarrow> 'v option"
    and ins :: "'k \<Rightarrow> 'v \<Rightarrow> 'm \<Rightarrow> 'm"
    and del :: "'k \<Rightarrow> 'm \<Rightarrow> 'm"
  assumes lookup_ins: "invar m \<Longrightarrow> lookup (ins k v m) = (lookup m)(k \<mapsto> v)"
    and lookup_del: "invar m \<Longrightarrow> lookup (del k m) = (lookup m)(k := None)"
    and invar_ins: "invar m \<Longrightarrow> invar (ins k v m)"
    and invar_del: "invar m \<Longrightarrow> invar (del k m)"
begin

lemma invar_dels: "invar m \<Longrightarrow> invar (fold del ks m)"
  by (induction ks arbitrary: m) (auto intro: invar_del)

lemma lookup_dels:
  "invar m \<Longrightarrow> lookup (fold del ks m) = (lookup m) |` (- set ks)"
proof (induction ks arbitrary: m)
  case Nil
  then show ?case by simp
next
  case (Cons k ks)
  have "lookup (fold del ks (del k m)) = lookup (del k m) |` (- set ks)"
    by (rule Cons.IH) (rule invar_del [OF Cons.prems])
  also have "\<dots> = lookup m |` (- set (k # ks))"
    by (auto simp: lookup_del [OF Cons.prems] restrict_map_def)
  finally show ?case by simp
qed

lemma invar_inss: "invar m \<Longrightarrow> invar (fold (\<lambda>x. ins (f x) (g x)) xs m)"
  by (induction xs arbitrary: m) (auto intro: invar_ins)

lemma lookup_inss:
  "invar m \<Longrightarrow> lookup (fold (\<lambda>x. ins (f x) (g x)) xs m) = lookup m ++ map_of (rev (map (\<lambda>x. (f x, g x)) xs))"
proof (induction xs arbitrary: m)
  case Nil
  then show ?case by simp
next
  case (Cons x xs)
  have "lookup (fold (\<lambda>x. ins (f x) (g x)) xs (ins (f x) (g x) m)) =
      lookup (ins (f x) (g x) m) ++ map_of (rev (map (\<lambda>x. (f x, g x)) xs))"
    by (rule Cons.IH) (rule invar_ins [OF Cons.prems])
  then show ?case
    by (auto simp: lookup_ins [OF Cons.prems] map_add_def split: option.splits)
qed

end

section \<open>The representation\<close>

type_synonym ('k, 'v) btree = "('k \<times> 'v) list"

definition bt_inv :: "('k::linorder, 'v) btree \<Rightarrow> bool" where
  "bt_inv m \<longleftrightarrow> sorted_wrt (<) (map fst m)"

definition bt_get :: "('k, 'v) btree \<Rightarrow> 'k \<Rightarrow> 'v option" where
  "bt_get m k = map_of m k"

definition bt_contains :: "('k, 'v) btree \<Rightarrow> 'k \<Rightarrow> bool" where
  "bt_contains m k \<longleftrightarrow> bt_get m k \<noteq> None"

fun bt_insert :: "'k::linorder \<Rightarrow> 'v \<Rightarrow> ('k, 'v) btree \<Rightarrow> ('k, 'v) btree" where
  "bt_insert k v [] = [(k, v)]"
| "bt_insert k v (e # m) =
     (if fst e < k then e # bt_insert k v m
      else (k, v) # (if fst e = k then m else e # m))"

definition bt_remove :: "'k \<Rightarrow> ('k, 'v) btree \<Rightarrow> ('k, 'v) btree" where
  "bt_remove k m = filter (\<lambda>e. fst e \<noteq> k) m"

text \<open>\<open>range(..k)\<close>, \<open>range(..=k)\<close> and \<open>range(lo..=hi)\<close>.\<close>

definition bt_range_lt :: "('k::linorder, 'v) btree \<Rightarrow> 'k \<Rightarrow> ('k, 'v) btree" where
  "bt_range_lt m k = filter (\<lambda>e. fst e < k) m"

definition bt_range_le :: "('k::linorder, 'v) btree \<Rightarrow> 'k \<Rightarrow> ('k, 'v) btree" where
  "bt_range_le m k = filter (\<lambda>e. fst e \<le> k) m"

definition bt_range :: "('k::linorder, 'v) btree \<Rightarrow> 'k \<Rightarrow> 'k \<Rightarrow> ('k, 'v) btree" where
  "bt_range m lo hi = filter (\<lambda>e. lo \<le> fst e \<and> fst e \<le> hi) m"

definition next_back :: "'a list \<Rightarrow> 'a option" where
  "next_back xs = (if xs = [] then None else Some (last xs))"

definition bt_keys :: "('k, 'v) btree \<Rightarrow> 'k list" where
  "bt_keys m = map fst m"

definition bt_values :: "('k, 'v) btree \<Rightarrow> 'v list" where
  "bt_values m = map snd m"

text \<open>\<open>if let Some(e) = m.get_mut(&k) { *e = f(e) }\<close>.\<close>

definition bt_modify :: "'k \<Rightarrow> ('v \<Rightarrow> 'v) \<Rightarrow> ('k, 'v) btree \<Rightarrow> ('k, 'v) btree" where
  "bt_modify k f m = map (\<lambda>e. if fst e = k then (fst e, f (snd e)) else e) m"

section \<open>Laws\<close>

lemma bt_inv_Nil [simp]: "bt_inv []"
  by (simp add: bt_inv_def)

lemma bt_inv_Cons:
  "bt_inv (e # m) \<longleftrightarrow> (\<forall>x\<in>set m. fst e < fst x) \<and> bt_inv m"
  by (auto simp: bt_inv_def)

lemma bt_inv_filter: "bt_inv m \<Longrightarrow> bt_inv (filter P m)"
  by (induction m) (auto simp: bt_inv_Cons)

lemma bt_inv_distinct: "bt_inv m \<Longrightarrow> distinct (map fst m)"
  by (induction m) (auto simp: bt_inv_Cons)

lemma bt_get_Nil [simp]: "bt_get [] k = None"
  by (simp add: bt_get_def)

lemma bt_get_in: "bt_get m k = Some v \<Longrightarrow> (k, v) \<in> set m"
  by (auto simp: bt_get_def dest: map_of_SomeD)

lemma bt_get_iff: "bt_inv m \<Longrightarrow> bt_get m k = Some v \<longleftrightarrow> (k, v) \<in> set m"
  by (auto simp: bt_get_def bt_inv_distinct)

lemma bt_get_None: "bt_get m k = None \<longleftrightarrow> k \<notin> fst ` set m"
  by (simp add: bt_get_def map_of_eq_None_iff)

lemma set_bt_insert:
  "bt_inv m \<Longrightarrow> set (bt_insert k v m) = insert (k, v) {e \<in> set m. fst e \<noteq> k}"
proof (induction m)
  case Nil
  then show ?case by simp
next
  case (Cons e m)
  then have "\<forall>x\<in>set m. fst e < fst x" and "bt_inv m"
    by (auto simp: bt_inv_Cons)
  with Cons.IH show ?case by (cases e) auto
qed

lemma bt_inv_insert: "bt_inv m \<Longrightarrow> bt_inv (bt_insert k v m)"
proof (induction m)
  case Nil
  then show ?case by (simp add: bt_inv_Cons)
next
  case (Cons e m)
  then show ?case
    by (auto simp: bt_inv_Cons set_bt_insert dest: order.strict_trans)
qed

lemma set_bt_remove: "set (bt_remove k m) = {e \<in> set m. fst e \<noteq> k}"
  by (simp add: bt_remove_def)

lemma bt_inv_remove: "bt_inv m \<Longrightarrow> bt_inv (bt_remove k m)"
  by (simp add: bt_remove_def bt_inv_filter)

lemma bt_get_insert: "bt_inv m \<Longrightarrow> bt_get (bt_insert k v m) = (bt_get m)(k \<mapsto> v)"
  by (induction m) (auto simp: bt_get_def bt_inv_Cons fun_eq_iff split: prod.splits)

lemma bt_get_remove: "bt_get (bt_remove k m) = (bt_get m)(k := None)"
  by (induction m) (auto simp: bt_get_def bt_remove_def fun_eq_iff)

interpretation bt: ordered_map "bt_inv :: ('k::linorder, 'v) btree \<Rightarrow> bool" bt_get bt_insert bt_remove
  by unfold_locales (simp_all add: bt_get_insert bt_get_remove bt_inv_insert bt_inv_remove)

lemma fst_bt_modify [simp]: "map fst (bt_modify k f m) = map fst m"
  by (simp add: bt_modify_def)

lemma bt_inv_modify [simp]: "bt_inv (bt_modify k f m) \<longleftrightarrow> bt_inv m"
  by (simp add: bt_inv_def)

lemma bt_get_modify: "bt_get (bt_modify k f m) k' =
    (if k' = k then map_option f (bt_get m k) else bt_get m k')"
  by (induction m) (auto simp: bt_get_def bt_modify_def)

lemma next_back_Some: "next_back xs = Some x \<longleftrightarrow> xs \<noteq> [] \<and> x = last xs"
  by (auto simp: next_back_def)

lemma next_back_None [simp]: "next_back xs = None \<longleftrightarrow> xs = []"
  by (simp add: next_back_def)

lemma bt_inv_last_greatest:
  "bt_inv m \<Longrightarrow> e \<in> set m \<Longrightarrow> fst e \<le> fst (last m)"
proof (induction m)
  case Nil
  then show ?case by simp
next
  case (Cons a m)
  show ?case
  proof (cases "m = []")
    case True
    with Cons show ?thesis by simp
  next
    case False
    then have "fst a < fst (last m)"
      using Cons.prems by (simp add: bt_inv_Cons)
    with Cons False show ?thesis
      by (auto simp: bt_inv_Cons less_imp_le)
  qed
qed

lemma next_back_filter:
  assumes "bt_inv m"
  shows "next_back (filter P m) = Some e \<longleftrightarrow>
    e \<in> set m \<and> P e \<and> (\<forall>x\<in>set m. P x \<longrightarrow> fst x \<le> fst e)"
    (is "?L \<longleftrightarrow> ?R")
proof -
  let ?f = "filter P m"
  have inv: "bt_inv ?f" using assms by (rule bt_inv_filter)
  have top: "fst x \<le> fst (last ?f)" if "x \<in> set m" "P x" for x
    using that by (intro bt_inv_last_greatest [OF inv]) simp
  show ?thesis
  proof
    assume ?L
    then have "?f \<noteq> []" and "e = last ?f" by (auto simp: next_back_Some)
    then show ?R using top last_in_set [of ?f] by auto
  next
    assume r: ?R
    then have mem: "e \<in> set ?f" by simp
    then have ne: "?f \<noteq> []" by (metis empty_iff set_empty)
    then have l: "last ?f \<in> set ?f" by (rule last_in_set)
    have "fst e = fst (last ?f)" using r l top [of e] by (auto intro: order.antisym)
    then have "e = last ?f"
      using bt_inv_distinct [OF inv] mem l by (metis eq_key_imp_eq_value prod.collapse)
    with ne show ?L by (simp add: next_back_Some)
  qed
qed

text \<open>\<open>range(..k).next_back()\<close> is the entry with the greatest key below \<open>k\<close>.\<close>

lemma next_back_range_lt:
  "bt_inv m \<Longrightarrow> next_back (bt_range_lt m k) = Some e \<longleftrightarrow>
    e \<in> set m \<and> fst e < k \<and> (\<forall>x\<in>set m. fst x < k \<longrightarrow> fst x \<le> fst e)"
  unfolding bt_range_lt_def by (rule next_back_filter)

lemma next_back_range_le:
  "bt_inv m \<Longrightarrow> next_back (bt_range_le m k) = Some e \<longleftrightarrow>
    e \<in> set m \<and> fst e \<le> k \<and> (\<forall>x\<in>set m. fst x \<le> k \<longrightarrow> fst x \<le> fst e)"
  unfolding bt_range_le_def by (rule next_back_filter)

lemma set_bt_remove_entry:
  assumes "bt_inv m" "(k, v) \<in> set m"
  shows "set (bt_remove k m) = set m - {(k, v)}"
proof -
  have "fst x = k \<longleftrightarrow> x = (k, v)" if "x \<in> set m" for x
    using that assms bt_get_iff [OF assms(1), of "fst x" "snd x"] bt_get_iff [OF assms(1), of k v]
    by (cases x) auto
  then show ?thesis by (auto simp: set_bt_remove)
qed

lemma bt_insert_remove_same:
  "bt_inv m \<Longrightarrow> bt_get m k = Some v \<Longrightarrow> bt_insert k v (bt_remove k m) = m"
proof (induction m)
  case (Cons x m)
  then have gt: "\<forall>y\<in>set m. fst x < fst y" and inv: "bt_inv m" by (simp_all add: bt_inv_Cons)
  show ?case
  proof (cases "fst x = k")
    case True
    then have "filter (\<lambda>e. fst e \<noteq> k) m = m" using gt by (auto simp: filter_id_conv)
    moreover have "bt_insert k v m = (k, v) # m" using gt True by (cases m) auto
    ultimately show ?thesis using True Cons.prems by (auto simp: bt_remove_def bt_get_def prod_eq_iff)
  next
    case False
    then have "bt_get m k = Some v" using Cons.prems by (auto simp: bt_get_def split: if_splits)
    moreover from this have "fst x < k" using gt bt_get_in [of m k v] by force
    ultimately show ?thesis using Cons.IH [OF inv] False by (simp add: bt_remove_def)
  qed
qed simp

end
