(* ===== verification/Vma.thy ===== *)
theory Vma
  imports Btree
begin

text \<open>
  Virtual memory areas of a process (\<open>rust/kernel/src/vma.rs\<close>): the ordered map of
  regions, lookup, insertion, removal and protection of address ranges, stack growth
  and the search for a free \<open>mmap\<close> region.  The abstract view of a memory map is a
  partial function from addresses to (flags, backing position); the lemmas show what
  each operation does to that view and that the regions stay page-aligned and disjoint.
\<close>

section \<open>Flags and regions\<close>

type_synonym vma_flags = u32

definition VMA_READ :: vma_flags where "VMA_READ = push_bit 0 1"
definition VMA_WRITE :: vma_flags where "VMA_WRITE = push_bit 1 1"
definition VMA_EXEC :: vma_flags where "VMA_EXEC = push_bit 2 1"
definition VMA_SHARED :: vma_flags where "VMA_SHARED = push_bit 3 1"
definition VMA_ANONYMOUS :: vma_flags where "VMA_ANONYMOUS = push_bit 4 1"
definition VMA_GROWSDOWN :: vma_flags where "VMA_GROWSDOWN = push_bit 5 1"
definition VMA_STACK :: vma_flags where "VMA_STACK = push_bit 6 1"

definition flags_contains :: "vma_flags \<Rightarrow> vma_flags \<Rightarrow> bool" where
  "flags_contains self other \<longleftrightarrow> self AND other = other"

definition flags_insert :: "vma_flags \<Rightarrow> vma_flags \<Rightarrow> vma_flags" where
  "flags_insert self other = self OR other"

definition flags_remove :: "vma_flags \<Rightarrow> vma_flags \<Rightarrow> vma_flags" where
  "flags_remove self other = self AND NOT other"

datatype vma_backing =
    Anonymous
  | FileBacked (fb_mount_id: nat) (fb_inode: u64) (fb_offset: u64) (fb_file_size: u64) (fb_shared: bool)
  | DeviceMmio (mmio_phys: u64)

record vma =
  vma_start :: u64
  vma_end :: u64
  vma_flags :: vma_flags
  vma_backing :: vma_backing

definition Vma_new :: "u64 \<Rightarrow> u64 \<Rightarrow> vma_flags \<Rightarrow> vma_backing \<Rightarrow> vma" where
  "Vma_new s e f b = \<lparr>vma_start = s, vma_end = e, vma_flags = f, vma_backing = b\<rparr>"

definition vma_contains :: "vma \<Rightarrow> u64 \<Rightarrow> bool" where
  "vma_contains self addr \<longleftrightarrow> vma_start self \<le> addr \<and> addr < vma_end self"

definition vma_size :: "vma \<Rightarrow> u64" where
  "vma_size self = saturating_sub (vma_end self) (vma_start self)"

section \<open>The memory map of a process\<close>

record process_memory_map =
  vmas :: "(u64, vma) btree"
  heap_start :: u64
  heap_break :: u64
  mmap_hint :: u64
  stack_bottom :: u64
  stack_top :: u64
  dynamic_mappings :: "u64 list"

definition ProcessMemoryMap_new :: "u64 \<Rightarrow> u64 \<Rightarrow> process_memory_map" where
  "ProcessMemoryMap_new s_top s_bottom =
     \<lparr>vmas = [], heap_start = 0, heap_break = 0, mmap_hint = 0x700000000000,
      stack_bottom = s_bottom, stack_top = s_top, dynamic_mappings = []\<rparr>"

definition find_vma :: "process_memory_map \<Rightarrow> u64 \<Rightarrow> vma option" where
  "find_vma self addr =
     (case next_back (bt_range_le (vmas self) addr) of
        Some (_, v) \<Rightarrow> if vma_contains v addr then Some v else None
      | None \<Rightarrow> None)"

definition insert_vma :: "process_memory_map \<Rightarrow> u64 \<Rightarrow> u64 \<Rightarrow> vma_flags \<Rightarrow> vma_backing \<Rightarrow>
    (unit, process_memory_map) outcome" where
  "insert_vma self s e f b =
     (if e \<le> s \<or> s AND (PAGE_SIZE - 1) \<noteq> 0 \<or> e AND (PAGE_SIZE - 1) \<noteq> 0 then Err ()
      else case next_back (bt_range_lt (vmas self) e) of
        Some (_, prev) \<Rightarrow>
          if vma_end prev > s then Err ()
          else Ok (self\<lparr>vmas := bt_insert s (Vma_new s e f b) (vmas self)\<rparr>)
      | None \<Rightarrow> Ok (self\<lparr>vmas := bt_insert s (Vma_new s e f b) (vmas self)\<rparr>))"

text \<open>The keys of the regions that meet \<open>[s, e)\<close>: \<open>range(..end)\<close> filtered by \<open>vma.end > start\<close>.\<close>

definition overlapping_keys :: "(u64, vma) btree \<Rightarrow> u64 \<Rightarrow> u64 \<Rightarrow> u64 list" where
  "overlapping_keys m s e = map fst (filter (\<lambda>x. vma_end (snd x) > s) (bt_range_lt m e))"

definition backing_after :: "vma_backing \<Rightarrow> u64 \<Rightarrow> vma_backing" where
  "backing_after b skipped = (case b of
     Anonymous \<Rightarrow> Anonymous
   | FileBacked mid i off fs sh \<Rightarrow> FileBacked mid i (off + skipped) fs sh
   | DeviceMmio p \<Rightarrow> DeviceMmio (p + skipped))"

definition remove_pieces :: "u64 \<Rightarrow> u64 \<Rightarrow> vma \<Rightarrow> vma list" where
  "remove_pieces s e v =
     (if vma_start v < s then [Vma_new (vma_start v) s (vma_flags v) (vma_backing v)] else []) @
     (if vma_end v > e
      then [Vma_new e (vma_end v) (vma_flags v) (backing_after (vma_backing v) (e - vma_start v))]
      else [])"

text \<open>The loop over the collected keys, threading (regions, affected, to reinsert).\<close>

fun remove_loop :: "u64 \<Rightarrow> u64 \<Rightarrow> u64 list \<Rightarrow> (u64, vma) btree \<times> vma list \<times> vma list \<Rightarrow>
    (u64, vma) btree \<times> vma list \<times> vma list" where
  "remove_loop s e [] st = st"
| "remove_loop s e (k # ks) (m, affected, re) =
     (case bt_get m k of
        Some v \<Rightarrow> remove_loop s e ks (bt_remove k m, affected @ [v], re @ remove_pieces s e v)
      | None \<Rightarrow> remove_loop s e ks (m, affected, re))"

definition reinsert :: "vma list \<Rightarrow> (u64, vma) btree \<Rightarrow> (u64, vma) btree" where
  "reinsert vs m = fold (\<lambda>v. bt_insert (vma_start v) v) vs m"

definition remove_vma_range ::
    "process_memory_map \<Rightarrow> u64 \<Rightarrow> u64 \<Rightarrow> process_memory_map \<times> vma list" where
  "remove_vma_range self s e =
     (case remove_loop s e (overlapping_keys (vmas self) s e) (vmas self, [], []) of
        (m, affected, re) \<Rightarrow> (self\<lparr>vmas := reinsert re m\<rparr>, affected))"

definition protect_flags :: "vma_flags \<Rightarrow> vma_flags \<Rightarrow> vma_flags" where
  "protect_flags old new = (old AND NOT (VMA_READ OR VMA_WRITE OR VMA_EXEC)) OR new"

definition protect_pieces :: "u64 \<Rightarrow> u64 \<Rightarrow> vma_flags \<Rightarrow> vma \<Rightarrow> vma list" where
  "protect_pieces s e new v =
     (if vma_start v < s then [Vma_new (vma_start v) s (vma_flags v) (vma_backing v)] else []) @
     (let mid_start = max (vma_start v) s; mid_end = min (vma_end v) e in
      if mid_start < mid_end
      then [Vma_new mid_start mid_end (protect_flags (vma_flags v) new) (vma_backing v)] else []) @
     (if vma_end v > e then [Vma_new e (vma_end v) (vma_flags v) (vma_backing v)] else [])"

fun protect_loop :: "u64 \<Rightarrow> u64 \<Rightarrow> vma_flags \<Rightarrow> u64 list \<Rightarrow> (u64, vma) btree \<times> vma list \<Rightarrow>
    (u64, vma) btree \<times> vma list" where
  "protect_loop s e new [] st = st"
| "protect_loop s e new (k # ks) (m, re) =
     (case bt_get m k of
        Some v \<Rightarrow> protect_loop s e new ks (bt_remove k m, re @ protect_pieces s e new v)
      | None \<Rightarrow> protect_loop s e new ks (m, re))"

definition protect_vma_range ::
    "process_memory_map \<Rightarrow> u64 \<Rightarrow> u64 \<Rightarrow> vma_flags \<Rightarrow> process_memory_map" where
  "protect_vma_range self s e new =
     (case protect_loop s e new (overlapping_keys (vmas self) s e) (vmas self, []) of
        (m, re) \<Rightarrow> self\<lparr>vmas := reinsert re m\<rparr>)"

definition find_stack_vma :: "process_memory_map \<Rightarrow> vma option" where
  "find_stack_vma self = find (\<lambda>v. flags_contains (vma_flags v) VMA_STACK) (bt_values (vmas self))"

definition can_grow_stack :: "process_memory_map \<Rightarrow> u64 \<Rightarrow> bool" where
  "can_grow_stack self addr =
     (if addr \<ge> stack_top self \<or> addr < stack_bottom self then False
      else case find_stack_vma self of
        Some sv \<Rightarrow>
          if addr < vma_start sv \<and> addr \<ge> stack_bottom self
          then (case next_back (bt_range_lt (vmas self) (vma_start sv)) of
                  Some (_, prev) \<Rightarrow> \<not> addr < vma_end prev
                | None \<Rightarrow> True)
          else False
      | None \<Rightarrow> False)"

text \<open>The region is taken out of the map and put back on the two early exits.\<close>

definition grow_stack_to ::
    "process_memory_map \<Rightarrow> u64 \<Rightarrow> process_memory_map \<times> (unit, u64) outcome" where
  "grow_stack_to self addr =
     (let new_start = addr AND NOT (PAGE_SIZE - 1) in
      if new_start < stack_bottom self then (self, Err ())
      else case find (\<lambda>x. flags_contains (vma_flags (snd x)) VMA_STACK) (vmas self) of
        None \<Rightarrow> (self, Err ())
      | Some (stack_key, _) \<Rightarrow>
          (case bt_get (vmas self) stack_key of
             None \<Rightarrow> (self, Err ())
           | Some stack_vma \<Rightarrow>
               let rest = bt_remove stack_key (vmas self);
                   collides = (case next_back (bt_range_lt rest (vma_start stack_vma)) of
                     Some (_, prev) \<Rightarrow> new_start < vma_end prev
                   | None \<Rightarrow> False) in
               if new_start \<ge> vma_start stack_vma
               then (self\<lparr>vmas := bt_insert stack_key stack_vma rest\<rparr>, Ok stack_key)
               else if collides
               then (self\<lparr>vmas := bt_insert stack_key stack_vma rest\<rparr>, Err ())
               else (self\<lparr>vmas := bt_insert new_start (stack_vma\<lparr>vma_start := new_start\<rparr>) rest\<rparr>,
                     Ok new_start)))"

section \<open>Searching a free region\<close>

text \<open>One scan of the regions: the first that meets \<open>[candidate, candidate + len)\<close>.\<close>

definition first_conflict :: "vma list \<Rightarrow> u64 \<Rightarrow> u64 \<Rightarrow> vma option" where
  "first_conflict vs candidate e = find (\<lambda>v. candidate < vma_end v \<and> e > vma_start v) vs"

text \<open>The \<open>while\<close> loop with fuel: \<open>None\<close> is running out of it; \<open>Some (Ok None)\<close> is leaving
  the loop because the condition failed.\<close>

fun mmap_scan :: "nat \<Rightarrow> vma list \<Rightarrow> u64 \<Rightarrow> u64 \<Rightarrow> u64 \<Rightarrow> (unit, u64 option) outcome option" where
  "mmap_scan 0 vs bottom len candidate = None"
| "mmap_scan (Suc fuel) vs bottom len candidate =
     (case checked_add candidate len of
        None \<Rightarrow> Some (Err ())
      | Some e \<Rightarrow>
          if e < bottom
          then (case first_conflict vs candidate e of
                  Some v \<Rightarrow> mmap_scan fuel vs bottom len ((vma_end v + (PAGE_SIZE - 1)) AND NOT (PAGE_SIZE - 1))
                | None \<Rightarrow> Some (Ok (Some candidate)))
          else Some (Ok None))"

text \<open>\<open>Suc (length vmas)\<close> rounds are enough for each of the two loops.\<close>

definition find_free_mmap_region ::
    "process_memory_map \<Rightarrow> u64 \<Rightarrow> (unit, process_memory_map \<times> u64) outcome option" where
  "find_free_mmap_region self length_req =
     (let vs = bt_values (vmas self); fuel = Suc (length vs) in
      case checked_add length_req (PAGE_SIZE - 1) of
        None \<Rightarrow> Some (Err ())
      | Some x \<Rightarrow>
          let len = x AND NOT (PAGE_SIZE - 1) in
          case mmap_scan fuel vs (stack_bottom self) len (mmap_hint self) of
            None \<Rightarrow> None
          | Some (Ok (Some c)) \<Rightarrow> Some (Ok (self\<lparr>mmap_hint := c + len\<rparr>, c))
          | Some (Ok None) \<Rightarrow>
              (case mmap_scan fuel vs (stack_bottom self) len 0x10000000 of
                 None \<Rightarrow> None
               | Some (Ok (Some c)) \<Rightarrow> Some (Ok (self, c))
               | Some (Ok None) \<Rightarrow> Some (Err ())
               | Some (Err u) \<Rightarrow> Some (Err ())
               | Some Panic \<Rightarrow> Some Panic)
          | Some (Err u) \<Rightarrow> Some (Err ())
          | Some Panic \<Rightarrow> Some Panic)"

section \<open>The registry of address spaces\<close>

text \<open>\<open>ADDRESS_SPACE_VMAS\<close>, keyed by the physical address of the top-level page table; the
  value is the shared reference to the memory map.\<close>

definition register_address_space_vmas :: "u64 \<Rightarrow> 'r \<Rightarrow> (u64, 'r) btree \<Rightarrow> (u64, 'r) btree" where
  "register_address_space_vmas pml4 r reg = bt_insert pml4 r reg"

definition unregister_address_space_vmas :: "u64 \<Rightarrow> (u64, 'r) btree \<Rightarrow> (u64, 'r) btree" where
  "unregister_address_space_vmas pml4 reg = bt_remove pml4 reg"

definition get_address_space_vmas :: "(u64, 'r) btree \<Rightarrow> u64 \<Rightarrow> 'r option" where
  "get_address_space_vmas reg pml4 = bt_get reg pml4"

section \<open>Well-formed memory maps\<close>

definition region_ok :: "vma \<Rightarrow> bool" where
  "region_ok v \<longleftrightarrow> vma_start v < vma_end v \<and> page_aligned (vma_start v) \<and> page_aligned (vma_end v)"

definition apart :: "vma \<Rightarrow> vma \<Rightarrow> bool" where
  "apart v w \<longleftrightarrow> vma_end v \<le> vma_start w \<or> vma_end w \<le> vma_start v"

definition regions_ok :: "(u64, vma) btree \<Rightarrow> bool" where
  "regions_ok m \<longleftrightarrow> bt_inv m \<and>
     (\<forall>x\<in>set m. fst x = vma_start (snd x) \<and> region_ok (snd x)) \<and>
     (\<forall>x\<in>set m. \<forall>y\<in>set m. x \<noteq> y \<longrightarrow> apart (snd x) (snd y))"

definition vm_inv :: "process_memory_map \<Rightarrow> bool" where
  "vm_inv m \<longleftrightarrow> regions_ok (vmas m)"

text \<open>What an address is mapped to: the flags and the backing position of its byte.\<close>

definition vm_view :: "process_memory_map \<Rightarrow> u64 \<Rightarrow> (vma_flags \<times> vma_backing) option" where
  "vm_view m a = map_option (\<lambda>v. (vma_flags v, backing_after (vma_backing v) (a - vma_start v))) (find_vma m a)"

definition abs_map :: "u64 \<Rightarrow> u64 \<Rightarrow> vma_flags \<Rightarrow> vma_backing \<Rightarrow>
    (u64 \<rightharpoonup> vma_flags \<times> vma_backing) \<Rightarrow> u64 \<rightharpoonup> vma_flags \<times> vma_backing" where
  "abs_map s e f b V = (\<lambda>a. if s \<le> a \<and> a < e then Some (f, backing_after b (a - s)) else V a)"

definition abs_unmap :: "u64 \<Rightarrow> u64 \<Rightarrow> (u64 \<rightharpoonup> 'x) \<Rightarrow> u64 \<rightharpoonup> 'x" where
  "abs_unmap s e V = (\<lambda>a. if s \<le> a \<and> a < e then None else V a)"

section \<open>Lookup\<close>

lemma page_mask_iff: "s AND (PAGE_SIZE - 1) = 0 \<longleftrightarrow> page_aligned s"
  by (simp add: page_aligned_def)

lemma Vma_new_simps [simp]:
  "vma_start (Vma_new s e f b) = s" "vma_end (Vma_new s e f b) = e"
  "vma_flags (Vma_new s e f b) = f" "vma_backing (Vma_new s e f b) = b"
  by (simp_all add: Vma_new_def)

lemma backing_after_0 [simp]: "backing_after b 0 = b"
  by (simp add: backing_after_def split: vma_backing.splits)

lemma backing_after_after: "backing_after (backing_after b x) y = backing_after b (x + y)"
  by (simp add: backing_after_def add.assoc split: vma_backing.splits)

lemma regions_okD:
  assumes "regions_ok m"
  shows "bt_inv m"
    and "x \<in> set m \<Longrightarrow> fst x = vma_start (snd x)"
    and "x \<in> set m \<Longrightarrow> region_ok (snd x)"
    and "x \<in> set m \<Longrightarrow> y \<in> set m \<Longrightarrow> x \<noteq> y \<Longrightarrow> apart (snd x) (snd y)"
  using assms by (simp_all add: regions_ok_def)

text \<open>The lookup through \<open>range(..=addr).next_back()\<close> finds exactly the region that
  contains the address.\<close>

lemma find_vma_iff:
  assumes ok: "regions_ok (vmas m)"
  shows "find_vma m a = Some v \<longleftrightarrow> (vma_start v, v) \<in> set (vmas m) \<and> vma_contains v a"
proof -
  note inv = regions_okD(1) [OF ok]
  have top: "next_back (bt_range_le (vmas m) a) = Some (vma_start v, v)"
    if v: "(vma_start v, v) \<in> set (vmas m)" "vma_contains v a"
    unfolding next_back_range_le [OF inv]
  proof (intro conjI ballI impI)
    fix x assume x: "x \<in> set (vmas m)" "fst x \<le> a"
    show "fst x \<le> fst (vma_start v, v)"
      using regions_okD(4) [OF ok x(1) v(1)] regions_okD(2,3) [OF ok x(1)] v(2) x(2)
      by (cases "x = (vma_start v, v)") (auto simp: apart_def vma_contains_def region_ok_def)
  qed (use v in \<open>auto simp: vma_contains_def\<close>)
  show ?thesis
  proof
    assume "find_vma m a = Some v"
    then obtain k where k: "next_back (bt_range_le (vmas m) a) = Some (k, v)" "vma_contains v a"
      by (auto simp: find_vma_def split: option.splits if_splits)
    then show "(vma_start v, v) \<in> set (vmas m) \<and> vma_contains v a"
      using regions_okD(2) [OF ok, of "(k, v)"] by (simp add: next_back_range_le [OF inv])
  next
    assume "(vma_start v, v) \<in> set (vmas m) \<and> vma_contains v a"
    then show "find_vma m a = Some v" using top by (simp add: find_vma_def)
  qed
qed

lemma find_vma_None:
  assumes "regions_ok (vmas m)"
  shows "find_vma m a = None \<longleftrightarrow> (\<forall>x\<in>set (vmas m). \<not> vma_contains (snd x) a)"
proof
  assume none: "find_vma m a = None"
  show "\<forall>x\<in>set (vmas m). \<not> vma_contains (snd x) a"
  proof
    fix x assume x: "x \<in> set (vmas m)"
    then have "(vma_start (snd x), snd x) = x"
      using regions_okD(2) [OF assms x] by (simp add: prod_eq_iff)
    with x none show "\<not> vma_contains (snd x) a"
      using find_vma_iff [OF assms, of a "snd x"] by auto
  qed
next
  assume "\<forall>x\<in>set (vmas m). \<not> vma_contains (snd x) a"
  then show "find_vma m a = None"
    using find_vma_iff [OF assms, of a "the (find_vma m a)"] by (cases "find_vma m a") auto
qed

text \<open>The check through \<open>range(..e).next_back()\<close> that \<open>[s, e)\<close> meets no region.\<close>

definition clash_below :: "(u64, vma) btree \<Rightarrow> u64 \<Rightarrow> u64 \<Rightarrow> bool" where
  "clash_below m s e = (case next_back (bt_range_lt m e) of Some (_, prev) \<Rightarrow> vma_end prev > s | None \<Rightarrow> False)"

lemma clash_below_iff:
  assumes ok: "regions_ok m"
  shows "clash_below m s e \<longleftrightarrow> (\<exists>x\<in>set m. vma_start (snd x) < e \<and> s < vma_end (snd x))"
proof -
  note inv = regions_okD(1) [OF ok]
  have lt: "s < vma_end (snd p)"
    if p: "next_back (bt_range_lt m e) = Some p" and x: "x \<in> set m" "vma_start (snd x) < e" "s < vma_end (snd x)" for p x
  proof (cases "p = x")
    case False
    from p have pm: "p \<in> set m" and le: "fst x \<le> fst p"
      using x regions_okD(2) [OF ok x(1)] by (auto simp: next_back_range_lt [OF inv])
    from le show ?thesis
      using regions_okD(4) [OF ok pm x(1) False] regions_okD(2,3) [OF ok x(1)] regions_okD(2,3) [OF ok pm] x(3)
      by (auto simp: apart_def region_ok_def)
  qed (use x in simp)
  have ne: "next_back (bt_range_lt m e) \<noteq> None" if "x \<in> set m" "vma_start (snd x) < e" for x
    using that regions_okD(2) [OF ok that(1)]
    by (auto simp: bt_range_lt_def filter_empty_conv intro!: bexI [of _ x])
  show ?thesis
  proof (cases "next_back (bt_range_lt m e)")
    case None
    then show ?thesis using ne by (auto simp: clash_below_def simp del: next_back_None)
  next
    case (Some p)
    then have p: "p \<in> set m" "fst p < e" by (auto simp: next_back_range_lt [OF inv])
    have "clash_below m s e \<longleftrightarrow> s < vma_end (snd p)"
      using Some by (cases p) (simp add: clash_below_def)
    also have "\<dots> \<longleftrightarrow> (\<exists>x\<in>set m. vma_start (snd x) < e \<and> s < vma_end (snd x))"
      using p lt [OF Some] regions_okD(2) [OF ok p(1)] by auto
    finally show ?thesis .
  qed
qed

section \<open>Replacing regions by pieces\<close>

lemma set_reinsert:
  assumes "bt_inv m"
    and "\<And>x y. x \<in> set m \<union> (\<lambda>v. (vma_start v, v)) ` set vs \<Longrightarrow>
           y \<in> set m \<union> (\<lambda>v. (vma_start v, v)) ` set vs \<Longrightarrow> fst x = fst y \<Longrightarrow> x = y"
  shows "bt_inv (reinsert vs m) \<and> set (reinsert vs m) = set m \<union> (\<lambda>v. (vma_start v, v)) ` set vs"
  using assms
proof (induction vs arbitrary: m)
  case Nil
  then show ?case by (simp add: reinsert_def)
next
  case (Cons v vs)
  let ?m = "bt_insert (vma_start v) v m"
  have same: "e = (vma_start v, v)" if "e \<in> set m" "fst e = vma_start v" for e
    using Cons.prems(2) [of e "(vma_start v, v)"] that by simp
  have "set ?m = insert (vma_start v, v) {e \<in> set m. fst e \<noteq> vma_start v}"
    by (rule set_bt_insert [OF Cons.prems(1)])
  also have "\<dots> = insert (vma_start v, v) (set m)"
    using same by auto
  finally have s: "set ?m = insert (vma_start v, v) (set m)" .
  have "bt_inv (reinsert vs ?m) \<and> set (reinsert vs ?m) = set ?m \<union> (\<lambda>v. (vma_start v, v)) ` set vs"
  proof (rule Cons.IH)
    fix x y
    assume "x \<in> set ?m \<union> (\<lambda>v. (vma_start v, v)) ` set vs" "y \<in> set ?m \<union> (\<lambda>v. (vma_start v, v)) ` set vs"
      and "fst x = fst y"
    then show "x = y" by (intro Cons.prems(2)) (simp_all add: s)
  qed (rule bt_inv_insert [OF Cons.prems(1)])
  then show ?case by (simp add: reinsert_def s)
qed

text \<open>Pieces of a region: well-formed, inside it, pairwise apart.\<close>

definition pieces_of :: "vma \<Rightarrow> vma list \<Rightarrow> bool" where
  "pieces_of v ps \<longleftrightarrow>
     (\<forall>p\<in>set ps. region_ok p \<and> vma_start v \<le> vma_start p \<and> vma_end p \<le> vma_end v) \<and>
     (\<forall>p\<in>set ps. \<forall>q\<in>set ps. p \<noteq> q \<longrightarrow> apart p q)"

lemma apart_sub:
  assumes "apart v w" "vma_start v \<le> vma_start p" "vma_end p \<le> vma_end v"
    "vma_start w \<le> vma_start q" "vma_end q \<le> vma_end w"
  shows "apart p q"
  using assms unfolding apart_def by (meson order_trans)

lemma apart_start_neq: "apart v w \<Longrightarrow> region_ok v \<Longrightarrow> region_ok w \<Longrightarrow> vma_start v \<noteq> vma_start w"
  by (auto simp: apart_def region_ok_def)

text \<open>The regions after each region that is hit has been replaced by its pieces.\<close>

definition split_set :: "(vma \<Rightarrow> bool) \<Rightarrow> (vma \<Rightarrow> vma list) \<Rightarrow> (u64, vma) btree \<Rightarrow> vma set" where
  "split_set hit P m = {v \<in> snd ` set m. \<not> hit v} \<union> (\<Union>v\<in>{v \<in> snd ` set m. hit v}. set (P v))"

lemma split_set_part:
  assumes ok: "regions_ok m"
    and ps: "\<forall>v\<in>snd ` set m. hit v \<longrightarrow> pieces_of v (P v)"
    and w: "w \<in> split_set hit P m"
  shows "region_ok w \<and> (\<exists>v\<in>snd ` set m. vma_start v \<le> vma_start w \<and> vma_end w \<le> vma_end v \<and>
    (if hit v then w \<in> set (P v) else w = v))"
proof (cases "w \<in> {v \<in> snd ` set m. \<not> hit v}")
  case True
  then have "region_ok w" using regions_okD(3) [OF ok] by auto
  with True show ?thesis by (auto intro!: bexI [of _ w])
next
  case False
  with w obtain v where "v \<in> snd ` set m" "hit v" "w \<in> set (P v)"
    by (auto simp: split_set_def)
  with ps show ?thesis by (auto simp: pieces_of_def intro!: bexI [of _ v])
qed

lemma split_set_apart:
  assumes ok: "regions_ok m"
    and ps: "\<forall>v\<in>snd ` set m. hit v \<longrightarrow> pieces_of v (P v)"
    and w: "w \<in> split_set hit P m" and z: "z \<in> split_set hit P m" and ne: "w \<noteq> z"
  shows "apart w z"
proof -
  obtain v where v: "v \<in> snd ` set m" "vma_start v \<le> vma_start w" "vma_end w \<le> vma_end v"
    "if hit v then w \<in> set (P v) else w = v"
    using split_set_part [OF ok ps w] by blast
  obtain u where u: "u \<in> snd ` set m" "vma_start u \<le> vma_start z" "vma_end z \<le> vma_end u"
    "if hit u then z \<in> set (P u) else z = u"
    using split_set_part [OF ok ps z] by blast
  show ?thesis
  proof (cases "v = u")
    case True
    with v(4) u(4) ne have h: "hit v" by (auto split: if_splits)
    then have "w \<in> set (P v)" "z \<in> set (P v)" "pieces_of v (P v)"
      using v(1,4) u(4) True ps by auto
    then show ?thesis using ne by (simp add: pieces_of_def)
  next
    case False
    obtain x y where "x \<in> set m" "y \<in> set m" "v = snd x" "u = snd y" using v(1) u(1) by blast
    moreover from this False have "x \<noteq> y" by auto
    ultimately have "apart v u" using regions_okD(4) [OF ok, of x y] by simp
    then show ?thesis by (rule apart_sub [OF _ v(2,3) u(2,3)])
  qed
qed

lemma reinsert_regions:
  assumes ok: "regions_ok m"
    and ps: "\<forall>v\<in>snd ` set m. hit v \<longrightarrow> pieces_of v (P v)"
    and hits: "set hs = {v \<in> snd ` set m. hit v}"
    and rest: "rest = filter (\<lambda>x. \<not> hit (snd x)) m"
  defines "m' \<equiv> reinsert (concat (map P hs)) rest"
  shows "regions_ok m' \<and> snd ` set m' = split_set hit P m"
proof -
  let ?key = "\<lambda>v. (vma_start v, v)"
  have key: "?key (snd x) = x" if "x \<in> set m" for x
    using regions_okD(2) [OF ok that] by (simp add: prod_eq_iff)
  have "?key ` {v \<in> snd ` set m. \<not> hit v} = (\<lambda>x. ?key (snd x)) ` {x \<in> set m. \<not> hit (snd x)}"
    by (rule set_eqI) (simp add: image_iff Bex_def, blast)
  also have "\<dots> = set rest" using key by (simp add: rest)
  finally have "set rest = ?key ` {v \<in> snd ` set m. \<not> hit v}" ..
  moreover have "set (concat (map P hs)) = (\<Union>v\<in>{v \<in> snd ` set m. hit v}. set (P v))"
    by (simp add: hits)
  ultimately have S: "set rest \<union> ?key ` set (concat (map P hs)) = ?key ` split_set hit P m"
    by (simp only: split_set_def image_Un)
  have rok: "region_ok w" if "w \<in> split_set hit P m" for w
    using split_set_part [OF ok ps that] by blast
  have "bt_inv m' \<and> set m' = set rest \<union> ?key ` set (concat (map P hs))"
    unfolding m'_def
  proof (rule set_reinsert)
    show "bt_inv rest" by (simp add: rest bt_inv_filter regions_okD(1) [OF ok])
    fix x y
    assume "x \<in> set rest \<union> ?key ` set (concat (map P hs))" "y \<in> set rest \<union> ?key ` set (concat (map P hs))"
      and eq: "fst x = fst y"
    then obtain w z where wz: "x = ?key w" "y = ?key z" "w \<in> split_set hit P m" "z \<in> split_set hit P m"
      unfolding S by blast
    then show "x = y"
      using eq split_set_apart [OF ok ps wz(3,4)] apart_start_neq [of w z] rok by (cases "w = z") auto
  qed
  then have inv: "bt_inv m'" and set': "set m' = ?key ` split_set hit P m" unfolding S by blast+
  show ?thesis
  proof
    show "snd ` set m' = split_set hit P m" by (auto simp: set' image_iff)
    show "regions_ok m'"
      unfolding regions_ok_def
    proof (intro conjI ballI impI)
      fix x y assume "x \<in> set m'" "y \<in> set m'" "x \<noteq> y"
      then have "snd x \<in> split_set hit P m" "snd y \<in> split_set hit P m" "snd x \<noteq> snd y"
        by (auto simp: set')
      then show "apart (snd x) (snd y)" by (rule split_set_apart [OF ok ps])
    qed (use inv rok in \<open>auto simp: set'\<close>)
  qed
qed

text \<open>The two loops over the overlapping keys, in closed form.\<close>

definition hits :: "u64 \<Rightarrow> u64 \<Rightarrow> vma \<Rightarrow> bool" where
  "hits s e v \<longleftrightarrow> vma_start v < e \<and> s < vma_end v"

lemma overlapping_keys_eq:
  assumes "regions_ok m"
  shows "overlapping_keys m s e = map fst (filter (\<lambda>x. hits s e (snd x)) m)"
proof -
  have "filter (\<lambda>x. s < vma_end (snd x) \<and> fst x < e) m = filter (\<lambda>x. hits s e (snd x)) m"
    by (rule filter_cong) (auto simp: hits_def regions_okD(2) [OF assms])
  then show ?thesis by (simp add: overlapping_keys_def bt_range_lt_def conj_commute)
qed

lemma remove_loop_eq:
  assumes "bt_inv m" "bt_inv hs" "set hs \<subseteq> set m"
  shows "remove_loop s e (map fst hs) (m, a, r) =
    (filter (\<lambda>x. x \<notin> set hs) m, a @ map snd hs, r @ concat (map (remove_pieces s e) (map snd hs)))"
  using assms
proof (induction hs arbitrary: m a r)
  case Nil
  then show ?case by simp
next
  case (Cons h hs)
  have get: "bt_get m (fst h) = Some (snd h)"
    using Cons.prems by (simp add: bt_get_iff)
  have eq: "bt_remove (fst h) m = filter (\<lambda>x. x \<noteq> h) m"
    unfolding bt_remove_def
  proof (rule filter_cong)
    fix x assume "x \<in> set m"
    then show "fst x \<noteq> fst h \<longleftrightarrow> x \<noteq> h"
      using get bt_get_iff [OF Cons.prems(1), of "fst x" "snd x"] by (auto simp: prod_eq_iff)
  qed simp
  show ?case
  proof -
    have "set hs \<subseteq> set (filter (\<lambda>x. x \<noteq> h) m)"
      using Cons.prems(2,3) by (auto simp: bt_inv_Cons)
    then show ?thesis
      using Cons.prems by (simp add: get eq Cons.IH bt_inv_Cons bt_inv_filter conj_commute)
  qed
qed

lemma protect_loop_eq:
  "protect_loop s e f ks (m, r) =
    (fst (remove_loop s e ks (m, [], [])),
     r @ concat (map (protect_pieces s e f) (fst (snd (remove_loop s e ks (m, [], []))))))"
proof -
  have acc: "fst (remove_loop s e ks (m, a, q)) = fst (remove_loop s e ks (m, [], [])) \<and>
      fst (snd (remove_loop s e ks (m, a, q))) = a @ fst (snd (remove_loop s e ks (m, [], [])))" for ks m a q
  proof (induction ks arbitrary: m a q)
    case (Cons k ks)
    show ?case
    proof (cases "bt_get m k")
      case (Some v)
      show ?thesis
        using Cons.IH [of "bt_remove k m" "a @ [v]" "q @ remove_pieces s e v"]
          Cons.IH [of "bt_remove k m" "[v]" "remove_pieces s e v"] Some by simp
    qed (use Cons.IH [of m a q] in simp)
  qed simp
  show ?thesis
  proof (induction ks arbitrary: m r)
    case (Cons k ks)
    show ?case
      using Cons.IH acc [of ks "bt_remove k m" "[the (bt_get m k)]" "remove_pieces s e (the (bt_get m k))"]
      by (cases "bt_get m k") simp_all
  qed simp
qed

definition hit_regions :: "u64 \<Rightarrow> u64 \<Rightarrow> (u64, vma) btree \<Rightarrow> vma list" where
  "hit_regions s e m = map snd (filter (\<lambda>x. hits s e (snd x)) m)"

lemma remove_loop_keys:
  assumes "regions_ok m"
  shows "remove_loop s e (overlapping_keys m s e) (m, [], []) =
    (filter (\<lambda>x. \<not> hits s e (snd x)) m, hit_regions s e m,
     concat (map (remove_pieces s e) (hit_regions s e m)))"
proof -
  let ?hs = "filter (\<lambda>x. hits s e (snd x)) m"
  have "remove_loop s e (map fst ?hs) (m, [], []) =
      (filter (\<lambda>x. x \<notin> set ?hs) m, [] @ map snd ?hs, [] @ concat (map (remove_pieces s e) (map snd ?hs)))"
    by (rule remove_loop_eq) (auto intro: bt_inv_filter regions_okD(1) [OF assms])
  moreover have "filter (\<lambda>x. x \<notin> set ?hs) m = filter (\<lambda>x. \<not> hits s e (snd x)) m"
    by (rule filter_cong) auto
  ultimately show ?thesis by (simp add: overlapping_keys_eq [OF assms] hit_regions_def)
qed

lemma set_hit_regions: "set (hit_regions s e m) = {v \<in> snd ` set m. hits s e v}"
  by (auto simp: hit_regions_def)

lemma remove_pieces_of:
  assumes "region_ok v" "s \<le> e" "page_aligned s" "page_aligned e" "hits s e v"
  shows "pieces_of v (remove_pieces s e v)"
  using assms by (auto simp: pieces_of_def remove_pieces_def region_ok_def apart_def hits_def)

lemma protect_pieces_of:
  assumes "region_ok v" "s \<le> e" "page_aligned s" "page_aligned e" "hits s e v"
  shows "pieces_of v (protect_pieces s e f v)"
  using assms
  by (auto simp: pieces_of_def protect_pieces_def region_ok_def apart_def hits_def Let_def
      max_def min_def)

lemma remove_pieces_all:
  assumes "vm_inv m" "s \<le> e" "page_aligned s" "page_aligned e"
  shows "\<forall>v\<in>snd ` set (vmas m). hits s e v \<longrightarrow> pieces_of v (remove_pieces s e v)"
  using assms regions_okD(3) [of "vmas m"] by (auto simp: vm_inv_def intro: remove_pieces_of)

lemma remove_vma_range_regions:
  assumes ok: "vm_inv m" and r: "s \<le> e" "page_aligned s" "page_aligned e"
  shows "vm_inv (fst (remove_vma_range m s e)) \<and>
    snd ` set (vmas (fst (remove_vma_range m s e))) = split_set (hits s e) (remove_pieces s e) (vmas m) \<and>
    snd (remove_vma_range m s e) = hit_regions s e (vmas m)"
proof -
  from ok have ok': "regions_ok (vmas m)" by (simp add: vm_inv_def)
  from reinsert_regions [OF ok' remove_pieces_all [OF ok r] set_hit_regions refl]
  show ?thesis by (simp add: remove_vma_range_def remove_loop_keys [OF ok'] vm_inv_def)
qed

lemma protect_pieces_all:
  assumes "vm_inv m" "s \<le> e" "page_aligned s" "page_aligned e"
  shows "\<forall>v\<in>snd ` set (vmas m). hits s e v \<longrightarrow> pieces_of v (protect_pieces s e f v)"
  using assms regions_okD(3) [of "vmas m"] by (auto simp: vm_inv_def intro: protect_pieces_of)

lemma protect_vma_range_regions:
  assumes ok: "vm_inv m" and r: "s \<le> e" "page_aligned s" "page_aligned e"
  shows "vm_inv (protect_vma_range m s e f) \<and>
    snd ` set (vmas (protect_vma_range m s e f)) = split_set (hits s e) (protect_pieces s e f) (vmas m)"
proof -
  from ok have ok': "regions_ok (vmas m)" by (simp add: vm_inv_def)
  from reinsert_regions [OF ok' protect_pieces_all [OF ok r] set_hit_regions refl]
  show ?thesis
    by (simp add: protect_vma_range_def protect_loop_eq remove_loop_keys [OF ok'] vm_inv_def)
qed

lemma find_vma_region:
  assumes "vm_inv m"
  shows "find_vma m a = Some v \<longleftrightarrow> v \<in> snd ` set (vmas m) \<and> vma_contains v a"
proof -
  from assms have ok: "regions_ok (vmas m)" by (simp add: vm_inv_def)
  have "v \<in> snd ` set (vmas m) \<longleftrightarrow> (vma_start v, v) \<in> set (vmas m)"
  proof
    assume "v \<in> snd ` set (vmas m)"
    then obtain x where x: "x \<in> set (vmas m)" "v = snd x" by blast
    then have "(vma_start v, v) = x" using regions_okD(2) [OF ok x(1)] by (simp add: prod_eq_iff)
    with x show "(vma_start v, v) \<in> set (vmas m)" by simp
  qed force
  then show ?thesis by (simp add: find_vma_iff [OF ok])
qed

lemma find_vma_unmapped:
  assumes "vm_inv m"
  shows "find_vma m a = None \<longleftrightarrow> (\<forall>v\<in>snd ` set (vmas m). \<not> vma_contains v a)"
  using find_vma_None [of m a] assms by (simp add: vm_inv_def)

text \<open>The lookup after hit regions have been replaced by their pieces.\<close>

lemma pieces_contain: "pieces_of v ps \<Longrightarrow> p \<in> set ps \<Longrightarrow> vma_contains p a \<Longrightarrow> vma_contains v a"
  by (auto simp: pieces_of_def vma_contains_def intro: order.trans order.strict_trans2)

lemma find_vma_split:
  assumes "vm_inv m" "vm_inv m'" "snd ` set (vmas m') = split_set hit P (vmas m)"
    and ps: "\<forall>v\<in>snd ` set (vmas m). hit v \<longrightarrow> pieces_of v (P v)"
  shows "find_vma m' a = (case find_vma m a of
      None \<Rightarrow> None
    | Some v \<Rightarrow> if hit v then find (\<lambda>p. vma_contains p a) (P v) else Some v)"
proof (cases "find_vma m a")
  case None
  then have "find_vma m' a = None"
    using ps pieces_contain unfolding find_vma_unmapped [OF assms(1)] find_vma_unmapped [OF assms(2)] assms(3)
      split_set_def by blast
  with None show ?thesis by simp
next
  case (Some v)
  then have v: "v \<in> snd ` set (vmas m)" "vma_contains v a" by (simp_all add: find_vma_region [OF assms(1)])
  have uniq: "w = v" if "w \<in> snd ` set (vmas m)" "vma_contains w a" for w
    using find_vma_region [OF assms(1), of a w] that Some by simp
  show ?thesis
  proof (cases "hit v")
    case False
    with v have "find_vma m' a = Some v"
      by (simp add: find_vma_region [OF assms(2)] assms(3) split_set_def)
    with Some False show ?thesis by simp
  next
    case True
    show ?thesis
    proof (cases "find (\<lambda>p. vma_contains p a) (P v)")
      case None
      then have no: "\<forall>p\<in>set (P v). \<not> vma_contains p a" by (auto simp: find_None_iff)
      have "find_vma m' a = None"
        unfolding find_vma_unmapped [OF assms(2)] assms(3)
      proof
        fix w assume "w \<in> split_set hit P (vmas m)"
        then consider "w \<in> snd ` set (vmas m)" "\<not> hit w"
          | u where "u \<in> snd ` set (vmas m)" "hit u" "w \<in> set (P u)"
          unfolding split_set_def by blast
        then show "\<not> vma_contains w a"
          using uniq no ps pieces_contain True by cases blast+
      qed
      with Some True None show ?thesis by simp
    next
      case p: (Some p)
      then have "p \<in> set (P v)" "vma_contains p a" by (auto simp: find_Some_iff)
      with v True have "find_vma m' a = Some p"
        unfolding find_vma_region [OF assms(2)] assms(3) split_set_def by blast
      with Some True p show ?thesis by simp
    qed
  qed
qed

lemma remove_view:
  assumes ok: "vm_inv m" and r: "s \<le> e" "page_aligned s" "page_aligned e"
  shows "vm_view (fst (remove_vma_range m s e)) = abs_unmap s e (vm_view m)"
proof
  fix a
  note reg = remove_vma_range_regions [OF ok r]
  have "find_vma (fst (remove_vma_range m s e)) a = (case find_vma m a of
      None \<Rightarrow> None
    | Some v \<Rightarrow> if hits s e v then find (\<lambda>p. vma_contains p a) (remove_pieces s e v) else Some v)"
    by (rule find_vma_split [OF ok _ _ remove_pieces_all [OF ok r]]) (use reg in blast)+
  moreover have "vma_contains v a" if "find_vma m a = Some v" for v
    using that by (simp add: find_vma_region [OF ok])
  ultimately show "vm_view (fst (remove_vma_range m s e)) a = abs_unmap s e (vm_view m) a"
    using r by (auto simp: vm_view_def abs_unmap_def remove_pieces_def hits_def vma_contains_def
        backing_after_after algebra_simps split: option.splits)
qed

section \<open>Protection\<close>

text \<open>Where the piece of a region that holds \<open>a\<close> starts after \<open>protect_vma_range\<close>.\<close>

definition piece_start :: "u64 \<Rightarrow> u64 \<Rightarrow> vma \<Rightarrow> u64 \<Rightarrow> u64" where
  "piece_start s e v a = (if a < s then vma_start v else if a < e then max (vma_start v) s
     else max (vma_start v) e)"

lemma find_protect_piece:
  assumes "vma_start v \<le> a" "a < vma_end v" "s \<le> e" "hits s e v"
  shows "find (\<lambda>p. vma_contains p a) (protect_pieces s e f v) = Some
    (if a < s then Vma_new (vma_start v) s (vma_flags v) (vma_backing v)
     else if a < e then Vma_new (max (vma_start v) s) (min (vma_end v) e) (protect_flags (vma_flags v) f) (vma_backing v)
     else Vma_new (max (vma_start v) e) (vma_end v) (vma_flags v) (vma_backing v))"
proof -
  consider "a < s" | "s \<le> a" "a < e" | "e \<le> a" by fastforce
  then show ?thesis
  proof cases
    case 1
    with assms have "vma_start v < s" by order
    with 1 assms show ?thesis by (simp add: protect_pieces_def vma_contains_def)
  next
    case 2
    with assms have "max (vma_start v) s \<le> a" "a < min (vma_end v) e" by simp_all
    with 2 assms show ?thesis by (auto simp: protect_pieces_def vma_contains_def Let_def)
  next
    case 3
    with assms have "e < vma_end v" by order
    with 3 assms show ?thesis
      by (auto simp: protect_pieces_def vma_contains_def Let_def hits_def max_def)
  qed
qed

lemma protect_view:
  assumes ok: "vm_inv m" and r: "s \<le> e" "page_aligned s" "page_aligned e"
  shows "vm_view (protect_vma_range m s e f) a = map_option (\<lambda>v.
     (if s \<le> a \<and> a < e then protect_flags (vma_flags v) f else vma_flags v,
      backing_after (vma_backing v) (a - piece_start s e v a))) (find_vma m a)"
proof -
  note reg = protect_vma_range_regions [OF ok r, of f]
  have "find_vma (protect_vma_range m s e f) a = (case find_vma m a of
      None \<Rightarrow> None
    | Some v \<Rightarrow> if hits s e v then find (\<lambda>p. vma_contains p a) (protect_pieces s e f v) else Some v)"
    by (rule find_vma_split [OF ok _ _ protect_pieces_all [OF ok r]]) (use reg in blast)+
  note eq = this
  show ?thesis
  proof (cases "find_vma m a")
    case (Some v)
    then have c: "vma_start v \<le> a" "a < vma_end v"
      by (simp_all add: find_vma_region [OF ok] vma_contains_def)
    show ?thesis
    proof (cases "hits s e v")
      case True
      with eq Some c r(1) show ?thesis
        by (auto simp: vm_view_def find_protect_piece piece_start_def)
    next
      case False
      with c r(1) have "\<not> (s \<le> a \<and> a < e)" "piece_start s e v a = vma_start v"
        by (auto simp: hits_def piece_start_def max_def)
      with eq Some False show ?thesis by (auto simp: vm_view_def)
    qed
  qed (use eq in \<open>simp add: vm_view_def\<close>)
qed

section \<open>Insertion\<close>

lemma insert_vma_eq:
  "insert_vma m s e f b =
    (if s < e \<and> page_aligned s \<and> page_aligned e \<and> \<not> clash_below (vmas m) s e
     then Ok (m\<lparr>vmas := bt_insert s (Vma_new s e f b) (vmas m)\<rparr>) else Err ())"
  by (auto simp: insert_vma_def clash_below_def page_mask_iff simp del: next_back_None split: option.splits)

lemma clash_view:
  assumes ok: "vm_inv m" and "s < e"
  shows "clash_below (vmas m) s e \<longleftrightarrow> (\<exists>a. s \<le> a \<and> a < e \<and> vm_view m a \<noteq> None)"
proof -
  have ok': "regions_ok (vmas m)" using ok by (simp add: vm_inv_def)
  have mapped: "vm_view m a \<noteq> None \<longleftrightarrow> (\<exists>v\<in>snd ` set (vmas m). vma_contains v a)" for a
    using find_vma_unmapped [OF ok, of a] by (auto simp: vm_view_def simp del: not_None_eq)
  have meets: "(\<exists>a. s \<le> a \<and> a < e \<and> vma_contains v a) \<longleftrightarrow> vma_start v < e \<and> s < vma_end v"
    if "v \<in> snd ` set (vmas m)" for v
  proof
    assume "vma_start v < e \<and> s < vma_end v"
    moreover have "vma_start v < vma_end v" using that regions_okD(3) [OF ok'] by (auto simp: region_ok_def)
    ultimately show "\<exists>a. s \<le> a \<and> a < e \<and> vma_contains v a"
      using assms(2) by (intro exI [of _ "max s (vma_start v)"]) (auto simp: vma_contains_def)
  qed (auto simp: vma_contains_def)
  have "(\<exists>a. s \<le> a \<and> a < e \<and> vm_view m a \<noteq> None) \<longleftrightarrow>
      (\<exists>v\<in>snd ` set (vmas m). \<exists>a. s \<le> a \<and> a < e \<and> vma_contains v a)"
    unfolding mapped by blast
  also have "\<dots> \<longleftrightarrow> (\<exists>v\<in>snd ` set (vmas m). vma_start v < e \<and> s < vma_end v)"
    by (rule bex_cong [OF refl meets])
  finally show ?thesis by (simp add: clash_below_iff [OF ok'])
qed

lemma insert_region:
  assumes ok: "regions_ok m" and v: "region_ok v" and free: "\<not> clash_below m (vma_start v) (vma_end v)"
  shows "regions_ok (bt_insert (vma_start v) v m) \<and> set (bt_insert (vma_start v) v m) = insert (vma_start v, v) (set m)"
proof -
  have ap: "apart (snd x) v" if "x \<in> set m" for x
    using free that unfolding clash_below_iff [OF ok] apart_def by (meson not_le)
  have "fst x \<noteq> vma_start v" if "x \<in> set m" for x
    using apart_start_neq [OF ap [OF that] regions_okD(3) [OF ok that] v] regions_okD(2) [OF ok that] by simp
  then have s: "set (bt_insert (vma_start v) v m) = insert (vma_start v, v) (set m)"
    by (auto simp: set_bt_insert [OF regions_okD(1) [OF ok]])
  have sym: "apart v (snd x)" if "x \<in> set m" for x using ap [OF that] by (auto simp: apart_def)
  have "regions_ok (bt_insert (vma_start v) v m)"
    unfolding regions_ok_def s
    using ap sym v bt_inv_insert [OF regions_okD(1) [OF ok]] ok by (simp add: regions_ok_def)
  with s show ?thesis by simp
qed

lemma insert_Ok:
  assumes ok: "vm_inv m" and v: "region_ok v" and free: "\<not> clash_below (vmas m) (vma_start v) (vma_end v)"
  defines "m' \<equiv> m\<lparr>vmas := bt_insert (vma_start v) v (vmas m)\<rparr>"
  shows "vm_inv m' \<and> vm_view m' = abs_map (vma_start v) (vma_end v) (vma_flags v) (vma_backing v) (vm_view m)"
proof
  note reg = insert_region [OF ok [unfolded vm_inv_def] v free]
  then show ok': "vm_inv m'" by (simp add: vm_inv_def m'_def)
  have set': "snd ` set (vmas m') = insert v (snd ` set (vmas m))" using reg by (simp add: m'_def)
  show "vm_view m' = abs_map (vma_start v) (vma_end v) (vma_flags v) (vma_backing v) (vm_view m)"
  proof
    fix a
    show "vm_view m' a = abs_map (vma_start v) (vma_end v) (vma_flags v) (vma_backing v) (vm_view m) a"
    proof (cases "vma_contains v a")
      case True
      then have "find_vma m' a = Some v" by (simp add: find_vma_region [OF ok'] set')
      with True show ?thesis by (simp add: vm_view_def abs_map_def vma_contains_def)
    next
      case False
      have "find_vma m' a = Some w \<longleftrightarrow> find_vma m a = Some w" for w
        using False by (auto simp: find_vma_region [OF ok'] find_vma_region [OF ok] set')
      then have "find_vma m' a = find_vma m a" by (metis not_None_eq)
      with False show ?thesis by (auto simp: vm_view_def abs_map_def vma_contains_def)
    qed
  qed
qed

section \<open>The contract of an address map\<close>

locale address_map =
  fixes ok :: "'m \<Rightarrow> bool"
    and view :: "'m \<Rightarrow> u64 \<rightharpoonup> 'x"
    and enter :: "'m \<Rightarrow> u64 \<Rightarrow> u64 \<Rightarrow> 'f \<Rightarrow> 'b \<Rightarrow> (unit, 'm) outcome"
    and discard :: "'m \<Rightarrow> u64 \<Rightarrow> u64 \<Rightarrow> 'm"
    and entry :: "'f \<Rightarrow> 'b \<Rightarrow> u64 \<Rightarrow> 'x"
  assumes enter_free: "ok m \<Longrightarrow> s < e \<Longrightarrow> page_aligned s \<Longrightarrow> page_aligned e \<Longrightarrow>
      (\<And>a. s \<le> a \<Longrightarrow> a < e \<Longrightarrow> view m a = None) \<Longrightarrow>
      \<exists>m'. enter m s e f b = Ok m' \<and> ok m' \<and>
        view m' = (\<lambda>a. if s \<le> a \<and> a < e then Some (entry f b (a - s)) else view m a)"
    and discard_ok: "ok m \<Longrightarrow> s \<le> e \<Longrightarrow> page_aligned s \<Longrightarrow> page_aligned e \<Longrightarrow> ok (discard m s e)"
    and discard_view: "ok m \<Longrightarrow> s \<le> e \<Longrightarrow> page_aligned s \<Longrightarrow> page_aligned e \<Longrightarrow>
      view (discard m s e) = abs_unmap s e (view m)"
begin

text \<open>Discarding a range and entering a region there (\<open>MAP_FIXED\<close>) always succeeds and
  overwrites exactly that range.\<close>

lemma discard_enter:
  assumes "ok m" "s < e" "page_aligned s" "page_aligned e"
  shows "\<exists>m'. enter (discard m s e) s e f b = Ok m' \<and> ok m' \<and>
    view m' = (\<lambda>a. if s \<le> a \<and> a < e then Some (entry f b (a - s)) else view m a)"
proof -
  have "\<exists>m'. enter (discard m s e) s e f b = Ok m' \<and> ok m' \<and>
      view m' = (\<lambda>a. if s \<le> a \<and> a < e then Some (entry f b (a - s)) else view (discard m s e) a)"
    using assms by (intro enter_free discard_ok) (auto simp: discard_view abs_unmap_def)
  moreover have "view (discard m s e) a = view m a" if "\<not> (s \<le> a \<and> a < e)" for a
    using assms that by (auto simp: discard_view abs_unmap_def)
  then have "(\<lambda>a. if s \<le> a \<and> a < e then Some (entry f b (a - s)) else view (discard m s e) a) =
      (\<lambda>a. if s \<le> a \<and> a < e then Some (entry f b (a - s)) else view m a)"
    by auto
  ultimately show ?thesis by simp
qed

end

interpretation vm: address_map vm_inv vm_view insert_vma "\<lambda>m s e. fst (remove_vma_range m s e)"
  "\<lambda>f b d. (f, backing_after b d)"
proof
  fix m s e f b
  assume a: "vm_inv m" "s < e" "page_aligned s" "page_aligned e"
    and none: "\<And>a. s \<le> a \<Longrightarrow> a < e \<Longrightarrow> vm_view m a = None"
  then have "\<not> clash_below (vmas m) s e" by (auto simp: clash_view)
  with a show "\<exists>m'. insert_vma m s e f b = Ok m' \<and> vm_inv m' \<and>
      vm_view m' = (\<lambda>a. if s \<le> a \<and> a < e then Some (f, backing_after b (a - s)) else vm_view m a)"
    using insert_Ok [of m "Vma_new s e f b"] by (simp add: insert_vma_eq region_ok_def abs_map_def)
next
  fix m s e
  assume "vm_inv m" "s \<le> e" "page_aligned s" "page_aligned e"
  then show "vm_inv (fst (remove_vma_range m s e))"
    "vm_view (fst (remove_vma_range m s e)) = abs_unmap s e (vm_view m)"
    using remove_vma_range_regions remove_view by blast+
qed

section \<open>Stack growth\<close>

lemma find_vma_replace:
  assumes ok: "vm_inv m" and ok': "vm_inv m'" and v: "v \<in> snd ` set (vmas m)"
    and set': "snd ` set (vmas m') = insert v' (snd ` set (vmas m) - {v})"
    and sub: "vma_contains v a \<Longrightarrow> vma_contains v' a"
  shows "find_vma m' a = (if vma_contains v' a then Some v' else find_vma m a)"
proof (cases "vma_contains v' a")
  case True
  then have "find_vma m' a = Some v'" by (simp add: find_vma_region [OF ok'] set')
  with True show ?thesis by simp
next
  case False
  then have "find_vma m' a = Some w \<longleftrightarrow> find_vma m a = Some w" for w
    using sub by (auto simp: find_vma_region [OF ok'] find_vma_region [OF ok] set')
  with False show ?thesis by (metis not_None_eq)
qed

lemma regions_ok_remove: "regions_ok m \<Longrightarrow> regions_ok (bt_remove k m)"
  by (auto simp: regions_ok_def bt_inv_remove set_bt_remove)

lemma find_stack_entry:
  assumes "regions_ok (vmas m)"
  shows "find (\<lambda>x. flags_contains (vma_flags (snd x)) VMA_STACK) (vmas m) =
    map_option (\<lambda>v. (vma_start v, v)) (find_stack_vma m)"
proof -
  have "find (\<lambda>x. P (snd x)) xs = map_option (\<lambda>v. (vma_start v, v)) (find P (map snd xs))"
    if "\<forall>x\<in>set xs. fst x = vma_start (snd x)" for P and xs :: "(u64 \<times> vma) list"
    using that by (induction xs) (auto simp: prod_eq_iff)
  from this [of "vmas m" "\<lambda>v. flags_contains (vma_flags v) VMA_STACK"] regions_okD(2) [OF assms]
  show ?thesis unfolding find_stack_vma_def bt_values_def by blast
qed

lemma find_stack_vma_in: "find_stack_vma m = Some v \<Longrightarrow> v \<in> snd ` set (vmas m)"
  by (auto simp: find_stack_vma_def bt_values_def find_Some_iff)

lemma region_key: "regions_ok m \<Longrightarrow> v \<in> snd ` set m \<Longrightarrow> (vma_start v, v) \<in> set m"
  using regions_okD(2) [of m] by (force simp: prod_eq_iff)

text \<open>The map with the stack region's start lowered.\<close>

lemma lower_region:
  assumes ok: "vm_inv m" and v: "v \<in> snd ` set (vmas m)" and n: "page_aligned n" "n < vma_start v"
    and free: "\<not> clash_below (bt_remove (vma_start v) (vmas m)) n (vma_start v)"
  defines "v' \<equiv> v\<lparr>vma_start := n\<rparr>"
  defines "m' \<equiv> m\<lparr>vmas := bt_insert n v' (bt_remove (vma_start v) (vmas m))\<rparr>"
  shows "vm_inv m' \<and> snd ` set (vmas m') = insert v' (snd ` set (vmas m) - {v}) \<and>
    (\<forall>w\<in>snd ` set (vmas m). w \<noteq> v \<longrightarrow> apart w v')"
proof -
  let ?rest = "bt_remove (vma_start v) (vmas m)"
  have ok1: "regions_ok (vmas m)" using ok by (simp add: vm_inv_def)
  note ok2 = regions_ok_remove [OF ok1, of "vma_start v"]
  have vin: "(vma_start v, v) \<in> set (vmas m)" by (rule region_key [OF ok1 v])
  have rest: "set ?rest = set (vmas m) - {(vma_start v, v)}"
    by (rule set_bt_remove_entry [OF regions_okD(1) [OF ok1] vin])
  have ap: "apart (snd x) v" if "x \<in> set ?rest" for x
    using regions_okD(4) [OF ok1 _ vin] that by (auto simp: rest)
  have rok: "region_ok v'" using n regions_okD(3) [OF ok1 vin] by (auto simp: region_ok_def v'_def)
  have nc: "\<not> (vma_start (snd x) < vma_end v \<and> n < vma_end (snd x))" if "x \<in> set ?rest" for x
  proof -
    have "\<not> (vma_start (snd x) < vma_start v \<and> n < vma_end (snd x))"
      using free that unfolding clash_below_iff [OF ok2] by blast
    then show ?thesis using ap [OF that] n regions_okD(3) [OF ok2 that] by (auto simp: apart_def region_ok_def)
  qed
  then have "\<not> clash_below ?rest n (vma_end v)" unfolding clash_below_iff [OF ok2] by blast
  with insert_region [OF ok2 rok] have ins: "regions_ok (bt_insert n v' ?rest)"
    "set (bt_insert n v' ?rest) = insert (n, v') (set ?rest)" by (simp_all add: v'_def)
  have "snd x = v \<longleftrightarrow> x = (vma_start v, v)" if "x \<in> set (vmas m)" for x
    using regions_okD(2) [OF ok1 that] by (auto simp: prod_eq_iff)
  then have "snd ` set ?rest = snd ` set (vmas m) - {v}" unfolding rest by blast
  moreover have "apart w v'" if "w \<in> snd ` set ?rest" for w
    using that nc by (auto simp: apart_def v'_def not_less)
  ultimately show ?thesis using ins by (simp add: vm_inv_def m'_def)
qed

section \<open>The search for a free region\<close>

lemma align_up_aligned:
  assumes "page_aligned e"
  shows "(e + (PAGE_SIZE - 1)) AND NOT (PAGE_SIZE - 1) = e"
proof -
  have m: "unat e mod 4096 = 0" using assms by (simp add: page_simps)
  have "unat e < 2 ^ 64" using unsigned_less [of e] by simp
  moreover obtain k where k: "unat e = 4096 * k" using m by auto
  ultimately have "unat e + 4095 < 2 ^ 64" by simp
  then have "unat (e + 4095) = unat e + 4095"
    by (subst unat_add_no_overflow) simp_all
  with k have "unat (page_down (e + 4095)) = unat e"
    by (simp add: unat_page_down)
  then show ?thesis by (simp add: page_down_def PAGE_SIZE_def word_unat_eq_iff)
qed

definition fits :: "vma list \<Rightarrow> u64 \<Rightarrow> u64 \<Rightarrow> u64 \<Rightarrow> bool" where
  "fits vs bottom len c \<longleftrightarrow> unat c + unat len < 2 ^ 64 \<and> c + len < bottom \<and>
     (\<forall>v\<in>set vs. \<not> (c < vma_end v \<and> vma_start v < c + len))"

lemma first_conflict_None: "first_conflict vs c e = None \<longleftrightarrow> (\<forall>v\<in>set vs. \<not> (c < vma_end v \<and> vma_start v < e))"
  by (auto simp: first_conflict_def find_None_iff)

lemma first_conflict_Some:
  "first_conflict vs c e = Some v \<Longrightarrow> v \<in> set vs \<and> c < vma_end v \<and> vma_start v < e"
  by (auto simp: first_conflict_def find_Some_iff)

text \<open>Moving past a conflicting region skips no place where the request fits.\<close>

lemma conflict_skips:
  assumes "v \<in> set vs" "c < vma_end v" "vma_start v < c + len" "unat c + unat len < 2 ^ 64"
    and "fits vs bottom len d" "c \<le> d"
  shows "vma_end v \<le> d"
proof (rule ccontr)
  assume "\<not> vma_end v \<le> d"
  moreover have "c + len \<le> d + len"
    using assms(4-6) by (simp add: fits_def word_le_nat_alt unat_add_no_overflow)
  ultimately show False using assms by (auto simp: fits_def)
qed

lemma fewer_beyond:
  assumes "v \<in> set vs" "c < vma_end v"
  shows "length (filter (\<lambda>w. vma_end v < vma_end w) vs) < length (filter (\<lambda>w. c < vma_end w) vs)"
proof -
  have "filter (\<lambda>w. vma_end v < vma_end w) (filter (\<lambda>w. c < vma_end w) vs) =
      filter (\<lambda>w. vma_end v < vma_end w) vs"
    using assms by (auto intro: filter_cong)
  moreover have "length (filter (\<lambda>w. vma_end v < vma_end w) (filter (\<lambda>w. c < vma_end w) vs)) <
      length (filter (\<lambda>w. c < vma_end w) vs)"
    using assms by (intro length_filter_less [of v]) auto
  ultimately show ?thesis by simp
qed

lemma no_fit_overflow: "checked_add c len = None \<Longrightarrow> c \<le> d \<Longrightarrow> \<not> fits vs bottom len d"
  by (auto simp: fits_def checked_add_def word_le_nat_alt split: if_splits)

lemma no_fit_above:
  "unat c + unat len < 2 ^ 64 \<Longrightarrow> \<not> c + len < bottom \<Longrightarrow> c \<le> d \<Longrightarrow> \<not> fits vs bottom len d"
  by (auto simp: fits_def word_le_nat_alt word_less_nat_alt unat_add_no_overflow)

lemma mmap_scan_spec:
  assumes "\<forall>v\<in>set vs. page_aligned (vma_end v)" "page_aligned c"
    and "length (filter (\<lambda>v. c < vma_end v) vs) < fuel"
  shows "case mmap_scan fuel vs bottom len c of
      None \<Rightarrow> False
    | Some (Ok (Some d)) \<Rightarrow> fits vs bottom len d \<and> page_aligned d \<and> c \<le> d
    | Some Panic \<Rightarrow> False
    | Some _ \<Rightarrow> \<forall>d\<ge>c. \<not> fits vs bottom len d"
  using assms
proof (induction fuel arbitrary: c)
  case (Suc fuel)
  show ?case
  proof (cases "checked_add c len")
    case None
    with no_fit_overflow [OF None] show ?thesis by simp
  next
    case (Some e)
    then have e: "e = c + len" "unat c + unat len < 2 ^ 64" by (auto simp: checked_add_def split: if_splits)
    show ?thesis
    proof (cases "e < bottom")
      case False
      with no_fit_above [OF e(2)] e(1) Some show ?thesis by simp
    next
      case True
      show ?thesis
      proof (cases "first_conflict vs c e")
        case None
        then have "\<forall>w\<in>set vs. \<not> (c < vma_end w \<and> vma_start w < e)" by (simp add: first_conflict_None)
        with None Some True e Suc.prems show ?thesis by (simp add: fits_def)
      next
        case conf: (Some v)
        note v = first_conflict_Some [OF conf]
        let ?c = "vma_end v"
        have up: "(?c + (PAGE_SIZE - 1)) AND NOT (PAGE_SIZE - 1) = ?c"
          using align_up_aligned Suc.prems(1) v by blast
        have "length (filter (\<lambda>w. ?c < vma_end w) vs) < length (filter (\<lambda>w. c < vma_end w) vs)"
          using v by (intro fewer_beyond) blast+
        then have "length (filter (\<lambda>w. ?c < vma_end w) vs) < fuel" using Suc.prems(3) by simp
        note IH = Suc.IH [OF Suc.prems(1) _ this]
        have skip: "?c \<le> d" if "fits vs bottom len d" "c \<le> d" for d
          using conflict_skips [OF _ _ _ e(2) that] v e by blast
        have "page_aligned ?c" using Suc.prems(1) v by blast
        from IH [OF this] show ?thesis
          using Some True conf up skip v
          by (auto split: option.splits outcome.splits)
      qed
    qed
  qed
qed simp

lemma page_aligned_add:
  "page_aligned a \<Longrightarrow> page_aligned b \<Longrightarrow> unat a + unat b < 2 ^ 64 \<Longrightarrow> page_aligned (a + b)"
  by (simp add: page_simps unat_add_no_overflow mod_add_eq [of _ 4096, symmetric])

lemma mmap_scan_map:
  assumes "vm_inv m" "page_aligned c"
  shows "case mmap_scan (Suc (length (bt_values (vmas m)))) (bt_values (vmas m)) bottom len c of
      None \<Rightarrow> False
    | Some (Ok (Some d)) \<Rightarrow> fits (bt_values (vmas m)) bottom len d \<and> page_aligned d \<and> c \<le> d
    | Some Panic \<Rightarrow> False
    | Some _ \<Rightarrow> \<forall>d\<ge>c. \<not> fits (bt_values (vmas m)) bottom len d"
proof (rule mmap_scan_spec)
  show "\<forall>v\<in>set (bt_values (vmas m)). page_aligned (vma_end v)"
    using assms(1) by (auto simp: vm_inv_def regions_ok_def region_ok_def bt_values_def)
qed (use assms in \<open>auto simp: less_Suc_eq_le\<close>)

text \<open>A region found free can be inserted, and keeps the hint aligned.\<close>

definition region_granted :: "process_memory_map \<Rightarrow> process_memory_map \<Rightarrow> u64 \<Rightarrow> u64 \<Rightarrow> bool" where
  "region_granted m m' len c \<longleftrightarrow>
     vmas m' = vmas m \<and> vm_inv m' \<and> page_aligned (mmap_hint m') \<and> page_aligned c \<and>
     c + len < stack_bottom m \<and>
     (len \<noteq> 0 \<longrightarrow> (\<forall>f b. is_ok (insert_vma m' c (c + len) f b)))"

lemma fits_granted:
  assumes ok: "vm_inv m" and f: "fits (bt_values (vmas m)) (stack_bottom m) len c"
    and al: "page_aligned c" "page_aligned len" and m': "vmas m' = vmas m" "page_aligned (mmap_hint m')"
  shows "region_granted m m' len c"
proof -
  have nov: "unat c + unat len < 2 ^ 64" using f by (simp add: fits_def)
  have ok': "regions_ok (vmas m)" using ok by (simp add: vm_inv_def)
  have "c < c + len" if "len \<noteq> 0"
    using that nov by (simp add: word_less_nat_alt unat_add_no_overflow unat_gt_0)
  moreover have "\<not> clash_below (vmas m) c (c + len)"
    using f by (auto simp: clash_below_iff [OF ok'] fits_def bt_values_def)
  ultimately show ?thesis
    using assms page_aligned_add [OF al nov]
    by (simp add: region_granted_def insert_vma_eq vm_inv_def fits_def)
qed

lemma page_aligned_round: "page_aligned (x AND NOT (PAGE_SIZE - 1))"
  using page_aligned_page_down [of x] by (simp only: page_down_def)

section \<open>Properties\<close>

definition demo_map :: process_memory_map where
  "demo_map = (ProcessMemoryMap_new 0x7fffff000 0x7ffff0000)
     \<lparr>vmas := [(0x10000000, Vma_new 0x10000000 0x10004000 (VMA_READ OR VMA_WRITE) (FileBacked 1 7 0x2000 0x9000 False)),
               (0x7ffffe000, Vma_new 0x7ffffe000 0x7fffff000 (VMA_READ OR VMA_WRITE OR VMA_STACK) Anonymous)]\<rparr>"

lemma demo_map_inv: "vm_inv demo_map"
  by (simp add: demo_map_def vm_inv_def regions_ok_def bt_inv_def region_ok_def apart_def
      page_aligned_def PAGE_SIZE_def)

text \<open>Insertion.  On a well-formed map \<open>insert_vma\<close> accepts a region exactly when it is
  nonempty, page-aligned and none of its addresses is mapped; the new map is well-formed and maps
  exactly the new addresses in addition.\<close>

theorem insert_vma_correct:
  assumes "vm_inv m"
  shows "case insert_vma m s e f b of
      Ok m' \<Rightarrow> s < e \<and> page_aligned s \<and> page_aligned e \<and> (\<forall>a. s \<le> a \<and> a < e \<longrightarrow> vm_view m a = None) \<and>
        vm_inv m' \<and> vm_view m' = abs_map s e f b (vm_view m)
    | Err _ \<Rightarrow> \<not> (s < e \<and> page_aligned s \<and> page_aligned e \<and> (\<forall>a. s \<le> a \<and> a < e \<longrightarrow> vm_view m a = None))
    | Panic \<Rightarrow> False"
proof (cases "s < e \<and> page_aligned s \<and> page_aligned e")
  case True
  have free: "\<not> clash_below (vmas m) s e \<longleftrightarrow> (\<forall>a. s \<le> a \<and> a < e \<longrightarrow> vm_view m a = None)"
    unfolding clash_view [OF assms conjunct1 [OF True]] by (auto simp del: not_None_eq)
  show ?thesis
  proof (cases "clash_below (vmas m) s e")
    case clash: True
    then have "insert_vma m s e f b = Err ()" by (simp add: insert_vma_eq)
    with free clash show ?thesis by (simp only: outcome.case) blast
  next
    case False
    let ?m' = "m\<lparr>vmas := bt_insert s (Vma_new s e f b) (vmas m)\<rparr>"
    have "insert_vma m s e f b = Ok ?m'" using True False by (simp add: insert_vma_eq)
    moreover have "vm_inv ?m' \<and> vm_view ?m' = abs_map s e f b (vm_view m)"
      using insert_Ok [OF assms, of "Vma_new s e f b"] True False by (simp add: region_ok_def)
    ultimately show ?thesis using free False True by (simp only: outcome.case) blast
  qed
qed (auto simp: insert_vma_eq)

theorem insert_vma_correct_witness:
  "vm_inv demo_map \<and> \<not> is_ok (insert_vma demo_map 0x10003000 0x10005000 VMA_READ Anonymous) \<and>
   (\<exists>a. 0x10003000 \<le> a \<and> a < 0x10005000 \<and> vm_view demo_map a \<noteq> None)"
proof -
  have "insert_vma demo_map 0x10003000 0x10005000 VMA_READ Anonymous = Err ()"
    by (simp add: insert_vma_def demo_map_def bt_range_lt_def next_back_def PAGE_SIZE_def)
  moreover have "page_aligned 0x10003000" "page_aligned 0x10005000"
    by (simp_all add: page_aligned_def PAGE_SIZE_def)
  ultimately show ?thesis
    using demo_map_inv insert_vma_correct [OF demo_map_inv, of "0x10003000" "0x10005000" VMA_READ Anonymous]
    by auto
qed

text \<open>C12. Removal.  Removing a page-aligned range keeps the map well-formed, returns exactly the regions
  that met the range, unmaps exactly the addresses of the range, and leaves flags and backing position
  of every other address as they were, also where a region is split in two.\<close>

theorem remove_vma_range_correct:
  assumes "vm_inv m" "s \<le> e" "page_aligned s" "page_aligned e"
  shows "vm_inv (fst (remove_vma_range m s e)) \<and>
    vm_view (fst (remove_vma_range m s e)) = abs_unmap s e (vm_view m) \<and>
    snd (remove_vma_range m s e) =
      filter (\<lambda>v. vma_start v < e \<and> s < vma_end v) (bt_values (vmas m))"
  using remove_vma_range_regions [OF assms] remove_view [OF assms]
  by (simp add: hit_regions_def bt_values_def filter_map comp_def hits_def)

theorem remove_vma_range_correct_witness:
  "vm_inv demo_map \<and> vm_view (fst (remove_vma_range demo_map 0x10001000 0x10002000)) 0x10002008 =
     Some (VMA_READ OR VMA_WRITE, FileBacked 1 7 0x4008 0x9000 False)"
proof -
  have "vm_view (fst (remove_vma_range demo_map 0x10001000 0x10002000)) = abs_unmap 0x10001000 0x10002000 (vm_view demo_map)"
    using remove_vma_range_correct [OF demo_map_inv, of "0x10001000" "0x10002000"]
    by (simp add: page_aligned_def PAGE_SIZE_def)
  then show ?thesis
    using demo_map_inv
    by (simp add: abs_unmap_def vm_view_def find_vma_def demo_map_def bt_range_le_def next_back_def
        vma_contains_def backing_after_def)
qed

text \<open>Stack growth in closed form.\<close>

lemma grow_stack_eq:
  assumes ok: "regions_ok (vmas m)" and st: "find_stack_vma m = Some v"
  shows "grow_stack_to m addr =
    (if page_down addr < stack_bottom m then (m, Err ())
     else if vma_start v \<le> page_down addr then (m, Ok (vma_start v))
     else if clash_below (bt_remove (vma_start v) (vmas m)) (page_down addr) (vma_start v) then (m, Err ())
     else (m\<lparr>vmas := bt_insert (page_down addr) (v\<lparr>vma_start := page_down addr\<rparr>)
             (bt_remove (vma_start v) (vmas m))\<rparr>, Ok (page_down addr)))"
proof -
  note inv = regions_okD(1) [OF ok]
  have get: "bt_get (vmas m) (vma_start v) = Some v"
    by (simp add: bt_get_iff [OF inv] region_key [OF ok find_stack_vma_in [OF st]])
  show ?thesis
    by (simp add: grow_stack_to_def page_down_def find_stack_entry [OF ok] st get
        bt_insert_remove_same [OF inv get] Let_def clash_below_def)
qed

lemma lowered_free:
  assumes ok: "vm_inv m" and v: "v \<in> snd ` set (vmas m)" and n: "page_aligned n" "n < vma_start v"
    and free: "\<not> clash_below (bt_remove (vma_start v) (vmas m)) n (vma_start v)"
    and a: "n \<le> a" "a < vma_start v"
  shows "find_vma m a = None"
  unfolding find_vma_unmapped [OF ok]
proof
  fix w assume w: "w \<in> snd ` set (vmas m)"
  have "region_ok v" using v ok regions_okD(3) [of "vmas m"] by (auto simp: vm_inv_def)
  moreover have "w \<noteq> v \<longrightarrow> apart w (v\<lparr>vma_start := n\<rparr>)"
    using lower_region [OF ok v n free] w by blast
  ultimately show "\<not> vma_contains w a"
    using a by (cases "w = v") (auto simp: apart_def vma_contains_def region_ok_def)
qed

text \<open>C13. Fixed mappings.  Removing a page-aligned range and inserting a region at the same place, as
  \<open>mmap\<close> with \<open>MAP_FIXED\<close> does, never fails, and afterwards the range maps to the new region and
  every other address to what it mapped to before.\<close>

theorem map_fixed_overwrites:
  assumes "vm_inv m" "s < e" "page_aligned s" "page_aligned e"
  shows "\<exists>m'. insert_vma (fst (remove_vma_range m s e)) s e f b = Ok m' \<and> vm_inv m' \<and>
    vm_view m' = abs_map s e f b (vm_view m)"
  unfolding abs_map_def by (rule vm.discard_enter [OF assms])

theorem map_fixed_overwrites_witness:
  "vm_inv demo_map \<and> (\<exists>m'. insert_vma (fst (remove_vma_range demo_map 0x10001000 0x10002000))
     0x10001000 0x10002000 VMA_EXEC Anonymous = Ok m' \<and> vm_view m' 0x10001004 = Some (VMA_EXEC, Anonymous))"
  using demo_map_inv map_fixed_overwrites [OF demo_map_inv, of "0x10001000" "0x10002000" VMA_EXEC Anonymous]
  by (auto simp: page_aligned_def PAGE_SIZE_def abs_map_def backing_after_def)

text \<open>Protection.  Changing the protection of a page-aligned range keeps the map well-formed and the
  set of mapped addresses, gives every mapped address of the range its old flags with the three
  permission bits replaced, and leaves the flags of all other addresses alone.\<close>

theorem protect_vma_range_flags:
  assumes "vm_inv m" "s \<le> e" "page_aligned s" "page_aligned e"
  shows "vm_inv (protect_vma_range m s e f) \<and>
    (\<forall>a. map_option fst (vm_view (protect_vma_range m s e f) a) =
      map_option (\<lambda>x. if s \<le> a \<and> a < e then protect_flags (fst x) f else fst x) (vm_view m a))"
proof (intro conjI allI)
  show "vm_inv (protect_vma_range m s e f)" using protect_vma_range_regions [OF assms] by blast
  fix a
  show "map_option fst (vm_view (protect_vma_range m s e f) a) =
      map_option (\<lambda>x. if s \<le> a \<and> a < e then protect_flags (fst x) f else fst x) (vm_view m a)"
    unfolding protect_view [OF assms] vm_view_def [of m] by (cases "find_vma m a") simp_all
qed

theorem protect_vma_range_flags_witness:
  "vm_inv demo_map \<and> map_option fst (vm_view (protect_vma_range demo_map 0x10001000 0x10002000 VMA_READ) 0x10001008) =
     Some VMA_READ"
proof -
  have "map_option fst (vm_view (protect_vma_range demo_map 0x10001000 0x10002000 VMA_READ) 0x10001008) =
      map_option (\<lambda>x. protect_flags (fst x) VMA_READ) (vm_view demo_map 0x10001008)"
    using protect_vma_range_flags [OF demo_map_inv, of "0x10001000" "0x10002000" VMA_READ]
    by (simp add: page_aligned_def PAGE_SIZE_def)
  then show ?thesis
    using demo_map_inv
    by (simp add: vm_view_def find_vma_def demo_map_def bt_range_le_def next_back_def vma_contains_def
        protect_flags_def VMA_READ_def VMA_WRITE_def VMA_EXEC_def)
qed

text \<open>C31. Protection and file positions.  Where the protected range begins inside a file mapping, the
  middle piece keeps the offset of the whole mapping: an address of the range is afterwards backed by
  the byte at \<open>offset + (a - s)\<close>, not by its own byte at \<open>offset + (a - start)\<close>.\<close>

theorem protect_moves_file_offset:
  assumes "vm_inv m" "s \<le> e" "page_aligned s" "page_aligned e"
    and "find_vma m a = Some v" "vma_backing v = FileBacked mid ino off fsize sh"
    and "vma_start v < s" "s \<le> a" "a < e"
  shows "map_option snd (vm_view m a) = Some (FileBacked mid ino (off + (a - vma_start v)) fsize sh) \<and>
    map_option snd (vm_view (protect_vma_range m s e f) a) = Some (FileBacked mid ino (off + (a - s)) fsize sh) \<and>
    off + (a - s) \<noteq> off + (a - vma_start v)"
proof -
  have "piece_start s e v a = s" using assms(7-9) by (auto simp: piece_start_def max_def)
  then show ?thesis
    using assms(5-9) unfolding protect_view [OF assms(1-4)] vm_view_def [of m]
    by (auto simp: backing_after_def)
qed

theorem protect_moves_file_offset_witness:
  "map_option snd (vm_view demo_map 0x10001008) = Some (FileBacked 1 7 0x3008 0x9000 False) \<and>
   map_option snd (vm_view (protect_vma_range demo_map 0x10001000 0x10002000 VMA_READ) 0x10001008) =
     Some (FileBacked 1 7 0x2008 0x9000 False)"
proof -
  have "find_vma demo_map 0x10001008 =
      Some (Vma_new 0x10000000 0x10004000 (VMA_READ OR VMA_WRITE) (FileBacked 1 7 0x2000 0x9000 False))"
    by (simp add: find_vma_def demo_map_def bt_range_le_def next_back_def vma_contains_def)
  from protect_moves_file_offset [OF demo_map_inv _ _ _ this, of "0x10001000" "0x10002000" 1 7 "0x2000" "0x9000" False VMA_READ]
  show ?thesis by (simp add: page_aligned_def PAGE_SIZE_def)
qed

text \<open>Stack growth.  Growing the stack keeps the map well-formed.  On success the stack region starts
  at the lower of its old start and the page of the address, the addresses it gained were unmapped, and
  every other address keeps its region; on failure the map is unchanged.\<close>

theorem grow_stack_to_correct:
  assumes "vm_inv m"
  shows "vm_inv (fst (grow_stack_to m addr)) \<and>
    (case snd (grow_stack_to m addr) of
      Ok k \<Rightarrow> (case find_stack_vma m of None \<Rightarrow> False | Some v \<Rightarrow>
        k = min (page_down addr) (vma_start v) \<and>
        (\<forall>a. k \<le> a \<and> a < vma_start v \<longrightarrow> find_vma m a = None) \<and>
        (\<forall>a. find_vma (fst (grow_stack_to m addr)) a =
          (if vma_contains (v\<lparr>vma_start := k\<rparr>) a then Some (v\<lparr>vma_start := k\<rparr>) else find_vma m a)))
    | Err _ \<Rightarrow> fst (grow_stack_to m addr) = m
    | Panic \<Rightarrow> False)"
proof -
  have ok: "regions_ok (vmas m)" using assms by (simp add: vm_inv_def)
  let ?n = "page_down addr"
  show ?thesis
  proof (cases "find_stack_vma m")
    case None
    then show ?thesis
      using assms by (simp add: grow_stack_to_def find_stack_entry [OF ok] Let_def)
  next
    case (Some v)
    note v = find_stack_vma_in [OF Some]
    let ?v' = "v\<lparr>vma_start := ?n\<rparr>"
    let ?m' = "m\<lparr>vmas := bt_insert ?n ?v' (bt_remove (vma_start v) (vmas m))\<rparr>"
    consider "grow_stack_to m addr = (m, Err ())"
      | "grow_stack_to m addr = (m, Ok (vma_start v))" "vma_start v \<le> ?n"
      | "grow_stack_to m addr = (?m', Ok ?n)" "?n < vma_start v"
        "\<not> clash_below (bt_remove (vma_start v) (vmas m)) ?n (vma_start v)"
      unfolding grow_stack_eq [OF ok Some] by (meson not_le)
    then show ?thesis
    proof cases
      case 2
      have "find_vma m a = Some v" if "vma_contains v a" for a
        using that v by (simp add: find_vma_region [OF assms])
      with 2 Some assms show ?thesis by (auto simp: min_def)
    next
      case 3
      note low = lower_region [OF assms v page_aligned_page_down 3(2,3)]
      have "find_vma m a = None" if "?n \<le> a" "a < vma_start v" for a
        by (rule lowered_free [OF assms v page_aligned_page_down 3(2,3) that])
      moreover have "find_vma ?m' a = (if vma_contains ?v' a then Some ?v' else find_vma m a)" for a
        using low 3(2) by (intro find_vma_replace [OF assms _ v]) (auto simp: vma_contains_def)
      ultimately show ?thesis using low 3 Some by (simp add: min_def less_imp_le)
    qed (use assms in simp)
  qed
qed

theorem grow_stack_to_correct_witness:
  "vm_inv demo_map \<and> snd (grow_stack_to demo_map 0x7ffffc123) = Ok 0x7ffffc000 \<and>
   find_vma demo_map 0x7ffffd000 = None \<and>
   map_option vma_start (find_vma (fst (grow_stack_to demo_map 0x7ffffc123)) 0x7ffffd000) = Some 0x7ffffc000"
proof -
  have r: "snd (grow_stack_to demo_map 0x7ffffc123) = Ok 0x7ffffc000"
    by (simp add: grow_stack_to_def demo_map_def ProcessMemoryMap_new_def PAGE_SIZE_def flags_contains_def
        VMA_READ_def VMA_WRITE_def VMA_STACK_def bt_get_def bt_remove_def bt_range_lt_def next_back_def Let_def)
  have "find_stack_vma demo_map =
      Some (Vma_new 0x7ffffe000 0x7fffff000 (VMA_READ OR VMA_WRITE OR VMA_STACK) Anonymous)"
    by (simp add: find_stack_vma_def demo_map_def bt_values_def flags_contains_def
        VMA_READ_def VMA_WRITE_def VMA_STACK_def)
  with grow_stack_to_correct [OF demo_map_inv, of "0x7ffffc123"] r demo_map_inv
  show ?thesis by (simp add: vma_contains_def)
qed

text \<open>C27. Free regions for \<open>mmap\<close>.  The search always returns (the rounds of both loops are bounded by the
  number of regions) and never panics.  A region it grants is page-aligned, lies below the stack limit and
  can be inserted; it refuses only when the rounded length overflows or the request fits nowhere at or
  above the hint.\<close>

theorem find_free_mmap_region_correct:
  assumes "vm_inv m" "page_aligned (mmap_hint m)"
  shows "case find_free_mmap_region m n of
      None \<Rightarrow> False
    | Some (Ok (m', c)) \<Rightarrow> region_granted m m' (page_down (n + (PAGE_SIZE - 1))) c
    | Some (Err _) \<Rightarrow> unat n + 4095 \<ge> 2 ^ 64 \<or>
        (\<forall>c\<ge>mmap_hint m. \<not> fits (bt_values (vmas m)) (stack_bottom m) (page_down (n + (PAGE_SIZE - 1))) c)
    | Some Panic \<Rightarrow> False"
proof (cases "checked_add n (PAGE_SIZE - 1)")
  case None
  then show ?thesis by (auto simp: find_free_mmap_region_def Let_def checked_add_def PAGE_SIZE_def split: if_splits)
next
  case (Some x)
  let ?len = "page_down (n + (PAGE_SIZE - 1))"
  let ?vs = "bt_values (vmas m)"
  let ?scan = "mmap_scan (Suc (length ?vs)) ?vs (stack_bottom m) ?len"
  have x: "x AND NOT (PAGE_SIZE - 1) = ?len"
    using Some by (auto simp: checked_add_def page_down_def split: if_splits)
  have grant: "region_granted m m' ?len c"
    if "fits ?vs (stack_bottom m) ?len c" "page_aligned c" "m' = m \<or> m' = m\<lparr>mmap_hint := c + ?len\<rparr>" for c m'
  proof -
    have "page_aligned (c + ?len)" using that(1,2) by (intro page_aligned_add) (simp_all add: fits_def)
    with that assms show ?thesis by (intro fits_granted) auto
  qed
  note first = mmap_scan_map [OF assms, of "stack_bottom m" ?len]
  have "page_aligned 0x10000000" by (simp add: page_aligned_def PAGE_SIZE_def)
  note second = mmap_scan_map [OF assms(1) this, of "stack_bottom m" ?len]
  have "case find_free_mmap_region m n of
      None \<Rightarrow> False
    | Some (Ok (m', c)) \<Rightarrow> fits ?vs (stack_bottom m) ?len c \<and> page_aligned c \<and> (m' = m \<or> m' = m\<lparr>mmap_hint := c + ?len\<rparr>)
    | Some (Err _) \<Rightarrow> \<forall>c\<ge>mmap_hint m. \<not> fits ?vs (stack_bottom m) ?len c
    | Some Panic \<Rightarrow> False"
    using first second Some
    by (auto simp: find_free_mmap_region_def Let_def x simp del: mmap_scan.simps
        split: option.splits outcome.splits)
  then show ?thesis using grant by (auto split: option.splits outcome.splits prod.splits)
qed

theorem find_free_mmap_region_correct_witness:
  "vm_inv demo_map \<and> page_aligned (mmap_hint demo_map) \<and>
   (case find_free_mmap_region demo_map 5000 of
      Some (Ok (m', c)) \<Rightarrow> c = 0x10004000 \<and> region_granted demo_map m' 0x2000 c | _ \<Rightarrow> False)"
proof -
  have h: "page_aligned (mmap_hint demo_map)"
    by (simp add: demo_map_def ProcessMemoryMap_new_def page_aligned_def PAGE_SIZE_def)
  have "find_free_mmap_region demo_map 5000 = Some (Ok (demo_map, 0x10004000))"
    by (simp add: find_free_mmap_region_def demo_map_def ProcessMemoryMap_new_def checked_add_def
        PAGE_SIZE_def first_conflict_def bt_values_def Let_def)
  with find_free_mmap_region_correct [OF demo_map_inv h, of 5000] demo_map_inv h
  show ?thesis by (simp add: page_down_def PAGE_SIZE_def)
qed

end
