(* ===== verification/Gpt.thy ===== *)
theory Gpt
  imports Prelude
begin

text \<open>
  The GPT reader (\<open>rust/gpt/src/lib.rs\<close>): CRC-32, the header and partition-array checks,
  the search of a partition by its type GUID and the two entry points that read the table
  sector by sector.  The disk is the parameter \<open>read_sector\<close>, the closure the caller passes:
  \<open>Some\<close> of the 512 bytes it stores in the buffer, or \<open>None\<close> where it returns \<open>Err\<close>.
\<close>

section \<open>Constants and types\<close>

definition GPT_SIGNATURE :: bytes where
  "GPT_SIGNATURE = [0x45, 0x46, 0x49, 0x20, 0x50, 0x41, 0x52, 0x54]"

definition MIN_HEADER_SIZE :: nat where "MIN_HEADER_SIZE = 92"
definition SECTOR_SIZE :: nat where "SECTOR_SIZE = 512"
definition TYPE_GUID_SIZE :: nat where "TYPE_GUID_SIZE = 16"
definition PARTITION_START_OFFSET :: nat where "PARTITION_START_OFFSET = 32"
definition PARTITION_END_OFFSET :: nat where "PARTITION_END_OFFSET = 40"

definition VANTA_ROOT_TYPE_GUID :: bytes where
  "VANTA_ROOT_TYPE_GUID =
     [0x4e, 0x0d, 0x2f, 0x5d, 0xff, 0x9c, 0x2f, 0x4b, 0xa9, 0xb6, 0x6b, 0xf9, 0xea, 0xa4, 0xd2, 0x01]"

definition VANTA_SWAP_TYPE_GUID :: bytes where
  "VANTA_SWAP_TYPE_GUID =
     [0x6d, 0xfd, 0x57, 0x06, 0xab, 0xa4, 0xc4, 0x43, 0x84, 0xe5, 0x09, 0x33, 0xc8, 0x4b, 0x4f, 0x4f]"

text \<open>\<open>Vec\<close> refuses (panics on) a capacity above \<open>isize::MAX\<close> bytes.\<close>

definition ISIZE_MAX :: nat where "ISIZE_MAX = 2 ^ 63 - 1"

record root_partition =
  start_lba :: u64
  end_lba :: u64

definition sector_count :: "root_partition \<Rightarrow> u64" where
  "sector_count self = end_lba self - start_lba self + 1"

definition absolute_lba :: "root_partition \<Rightarrow> u64 \<Rightarrow> u64 option" where
  "absolute_lba self relative_lba =
     (if relative_lba \<ge> sector_count self then None else Some (start_lba self + relative_lba))"

datatype gpt_error =
    InvalidSignature
  | InvalidHeader
  | InvalidHeaderCrc
  | InvalidPartitionArrayCrc
  | InvalidPartitionLayout
  | MissingRoot

record header_layout =
  first_usable_lba :: u64
  last_usable_lba :: u64
  entry_lba :: u64
  entry_count :: nat
  entry_size :: nat
  entry_bytes :: nat
  entries_crc :: u32

section \<open>CRC-32\<close>

definition crc_shift :: "u32 \<Rightarrow> u32" where
  "crc_shift crc = (if crc AND 1 = 0 then drop_bit 1 crc else drop_bit 1 crc XOR 0xedb88320)"

definition crc32_step :: "u32 \<Rightarrow> u8 \<Rightarrow> u32" where
  "crc32_step crc value = (crc_shift ^^ 8) (crc XOR ucast value)"

definition crc32 :: "bytes \<Rightarrow> u32" where
  "crc32 bs = NOT (foldl crc32_step (NOT 0) bs)"

primrec crc_zeroed :: "nat \<Rightarrow> nat \<Rightarrow> nat \<Rightarrow> bytes \<Rightarrow> u32 \<Rightarrow> u32" where
  "crc_zeroed start len index [] crc = crc"
| "crc_zeroed start len index (v # vs) crc =
     crc_zeroed start len (Suc index) vs
       (crc32_step crc (if start \<le> index \<and> index < start + len then 0 else v))"

definition crc32_with_zeroed_range :: "bytes \<Rightarrow> nat \<Rightarrow> nat \<Rightarrow> u32" where
  "crc32_with_zeroed_range bs start len = NOT (crc_zeroed start len 0 bs (NOT 0))"

section \<open>Header and partition array\<close>

definition read_u32 :: "bytes \<Rightarrow> nat \<Rightarrow> (gpt_error, u32) outcome" where
  "read_u32 bs offset = and_then (ok_or (get_range bs offset (offset + 4)) InvalidHeader) (\<lambda>v. Ok (from_le v))"

definition read_u64 :: "bytes \<Rightarrow> nat \<Rightarrow> (gpt_error, u64) outcome" where
  "read_u64 bs offset = and_then (ok_or (get_range bs offset (offset + 8)) InvalidHeader) (\<lambda>v. Ok (from_le v))"

definition usize_checked_mul :: "nat \<Rightarrow> nat \<Rightarrow> nat option" where
  "usize_checked_mul a b = (if a * b < 2 ^ 64 then Some (a * b) else None)"

definition parse_header :: "bytes \<Rightarrow> (gpt_error, header_layout) outcome" where
  "parse_header header =
     (if get_range header 0 (length GPT_SIGNATURE) \<noteq> Some GPT_SIGNATURE then Err InvalidSignature
      else and_then (read_u32 header 12) (\<lambda>hs. let header_size = unat hs in
        if \<not> (MIN_HEADER_SIZE \<le> header_size \<and> header_size \<le> length header) then Err InvalidHeader
        else and_then (read_u32 header 16) (\<lambda>expected_header_crc.
        if crc32_with_zeroed_range (take header_size header) 16 4 \<noteq> expected_header_crc then Err InvalidHeaderCrc
        else
          and_then (read_u64 header 24) (\<lambda>current_lba.
          and_then (read_u64 header 32) (\<lambda>backup_lba.
          and_then (read_u64 header 40) (\<lambda>first_usable.
          and_then (read_u64 header 48) (\<lambda>last_usable.
          and_then (read_u32 header 80) (\<lambda>count.
          and_then (read_u32 header 84) (\<lambda>size'.
          and_then (read_u32 header 88) (\<lambda>expected_entries_crc.
          and_then (ok_or (usize_checked_mul (unat count) (unat size')) InvalidHeader) (\<lambda>nbytes.
          if current_lba \<noteq> 1 \<or> backup_lba \<le> current_lba \<or> first_usable > last_usable \<or>
             unat size' < PARTITION_END_OFFSET + 8
          then Err InvalidHeader
          else and_then (read_u64 header 72) (\<lambda>entries_at.
            Ok \<lparr>first_usable_lba = first_usable, last_usable_lba = last_usable, entry_lba = entries_at,
                entry_count = unat count, entry_size = unat size', entry_bytes = nbytes,
                entries_crc = expected_entries_crc\<rparr>))))))))))))"

text \<open>The loop over the entries \<open>index, index + 1, \<dots>\<close> (\<open>n\<close> of them); a slice out of range panics.\<close>

primrec scan_entries :: "nat \<Rightarrow> nat \<Rightarrow> header_layout \<Rightarrow> bytes \<Rightarrow> bytes \<Rightarrow> (gpt_error, root_partition) outcome" where
  "scan_entries 0 index layout entries target = Err MissingRoot"
| "scan_entries (Suc n) index layout entries target =
     (let offset = index * entry_size layout in
      case get_range entries offset (offset + entry_size layout) of
        None \<Rightarrow> Panic
      | Some entry \<Rightarrow>
          (case get_range entry 0 TYPE_GUID_SIZE of
             None \<Rightarrow> Panic
           | Some guid \<Rightarrow>
               if guid \<noteq> target then scan_entries n (Suc index) layout entries target
               else and_then (read_u64 entry PARTITION_START_OFFSET) (\<lambda>s.
                 and_then (read_u64 entry PARTITION_END_OFFSET) (\<lambda>e.
                 if s < first_usable_lba layout \<or> e > last_usable_lba layout \<or> s > e
                 then Err InvalidPartitionLayout
                 else Ok \<lparr>start_lba = s, end_lba = e\<rparr>))))"

definition find_vanta_partition :: "bytes \<Rightarrow> bytes \<Rightarrow> bytes \<Rightarrow> (gpt_error, root_partition) outcome" where
  "find_vanta_partition header entries target_guid =
     and_then (parse_header header) (\<lambda>layout.
       if length entries < entry_bytes layout then Err InvalidHeader
       else if crc32 (take (entry_bytes layout) entries) \<noteq> entries_crc layout then Err InvalidPartitionArrayCrc
       else scan_entries (entry_count layout) 0 layout entries target_guid)"

definition find_vanta_root :: "bytes \<Rightarrow> bytes \<Rightarrow> (gpt_error, root_partition) outcome" where
  "find_vanta_root header entries = find_vanta_partition header entries VANTA_ROOT_TYPE_GUID"

definition find_vanta_swap :: "bytes \<Rightarrow> bytes \<Rightarrow> (gpt_error, root_partition) outcome" where
  "find_vanta_swap header entries = find_vanta_partition header entries VANTA_SWAP_TYPE_GUID"

section \<open>Reading the table from a disk\<close>

type_synonym sector_reader = "u64 \<Rightarrow> bytes option"

definition div_ceil :: "nat \<Rightarrow> nat \<Rightarrow> nat" where
  "div_ceil a b = (a + b - 1) div b"

primrec read_entries :: "sector_reader \<Rightarrow> nat \<Rightarrow> nat \<Rightarrow> header_layout \<Rightarrow> bytes \<Rightarrow> (gpt_error, bytes) outcome" where
  "read_entries read_sector 0 index layout entries = Ok entries"
| "read_entries read_sector (Suc n) index layout entries =
     (case read_sector (entry_lba layout + of_nat index) of
        None \<Rightarrow> Err InvalidHeader
      | Some sector \<Rightarrow>
          let start = index * SECTOR_SIZE; len = min (entry_bytes layout - start) SECTOR_SIZE in
          read_entries read_sector n (Suc index) layout (splice entries start (take len sector)))"

definition discover_vanta_root :: "sector_reader \<Rightarrow> (gpt_error, root_partition) outcome" where
  "discover_vanta_root read_sector =
     and_then (ok_or (read_sector 1) InvalidHeader) (\<lambda>header.
     and_then (parse_header header) (\<lambda>layout.
       if entry_bytes layout > ISIZE_MAX then Panic
       else and_then (read_entries read_sector (div_ceil (entry_bytes layout) SECTOR_SIZE) 0 layout
                        (replicate (entry_bytes layout) 0)) (\<lambda>entries.
         find_vanta_root header entries)))"

definition discover_vanta_swap :: "sector_reader \<Rightarrow> (gpt_error, root_partition) outcome" where
  "discover_vanta_swap read_sector =
     and_then (ok_or (read_sector 1) InvalidHeader) (\<lambda>header.
     and_then (parse_header header) (\<lambda>layout.
       if entry_bytes layout > ISIZE_MAX then Panic
       else and_then (read_entries read_sector (div_ceil (entry_bytes layout) SECTOR_SIZE) 0 layout
                        (replicate (entry_bytes layout) 0)) (\<lambda>entries.
         find_vanta_swap header entries)))"

section \<open>CRC-32 detects short bursts\<close>

text \<open>One shift is linear over \<open>XOR\<close> and injective; shifting out eight zero bits undoes a shift left.\<close>

lemma bit_crc_shift:
  "bit (crc_shift c) n \<longleftrightarrow> n < 32 \<and> (bit c (Suc n) \<noteq> (bit c 0 \<and> bit (0xedb88320 :: u32) n))"
proof -
  have "c AND 1 = 0 \<longleftrightarrow> \<not> bit c 0"
    by (simp add: and_one_eq bit_0 even_iff_mod_2_eq_zero)
  then show ?thesis
    by (auto simp: crc_shift_def bit_simps dest: bit_imp_le_length)
qed

lemma crc_shift_xor: "crc_shift (a XOR b) = crc_shift a XOR crc_shift b"
  by (rule bit_word_eqI) (auto simp: bit_crc_shift bit_simps dest: bit_imp_le_length)

lemma crc_shift_eq_0: "crc_shift c = 0 \<longleftrightarrow> c = 0"
proof
  assume z: "crc_shift c = 0"
  have top: "bit (0xedb88320 :: u32) 31" by (simp add: bit_numeral_rec)
  have "\<not> bit (crc_shift c) 31" by (simp add: z)
  then have c0: "\<not> bit c 0" using top by (auto simp: bit_crc_shift dest: bit_imp_le_length)
  have "\<not> bit c n" for n
  proof (cases n)
    case (Suc k)
    have "\<not> bit (crc_shift c) k" by (simp add: z)
    then show ?thesis using c0 Suc bit_imp_le_length [of c n] by (auto simp: bit_crc_shift)
  qed (use c0 in simp)
  then show "c = 0" by (simp add: bit_eq_iff)
qed (simp add: crc_shift_def)

lemma xor_eq_zero: "a XOR b = 0 \<longleftrightarrow> a = (b :: u32)"
proof
  assume "a XOR b = 0"
  then have "(a XOR b) XOR b = 0 XOR b" by simp
  then show "a = b" by (simp add: xor.assoc)
qed simp

lemma xor_cancel:
  fixes a b x :: u32
  shows "a XOR x = b XOR x \<longleftrightarrow> a = b" and "x XOR a = x XOR b \<longleftrightarrow> a = b"
proof -
  show *: "a XOR x = b XOR x \<longleftrightarrow> a = b"
  proof
    assume "a XOR x = b XOR x"
    then have "(a XOR x) XOR x = (b XOR x) XOR x" by simp
    then show "a = b" by (simp add: xor.assoc)
  qed simp
  then show "x XOR a = x XOR b \<longleftrightarrow> a = b" by (simp add: xor.commute [of x])
qed

lemma crc_shifts_xor: "(crc_shift ^^ n) (a XOR b) = (crc_shift ^^ n) a XOR (crc_shift ^^ n) b"
  by (induction n) (simp_all add: crc_shift_xor)

lemma crc_shifts_inj: "(crc_shift ^^ n) a = (crc_shift ^^ n) b \<longleftrightarrow> a = b"
proof -
  have z: "(crc_shift ^^ n) c = 0 \<longleftrightarrow> c = 0" for c
    by (induction n) (simp_all add: crc_shift_eq_0)
  have "(crc_shift ^^ n) a = (crc_shift ^^ n) b \<longleftrightarrow> (crc_shift ^^ n) (a XOR b) = 0"
    by (simp add: crc_shifts_xor xor_eq_zero)
  then show ?thesis by (simp add: z xor_eq_zero)
qed

text \<open>Feeding \<open>k\<close> bytes is \<open>8 * k\<close> shifts of the register with the little-endian word of those bytes
  added in: a byte added later is the same byte added \<open>8\<close> places higher up earlier.\<close>

lemma crc_shift_push: "(\<And>i. bit x i \<Longrightarrow> i < 31) \<Longrightarrow> crc_shift (push_bit 1 x) = x"
  by (rule bit_word_eqI) (auto simp: bit_crc_shift bit_simps simp del: push_bit_Suc)

lemma crc_shifts_push: "(\<And>i. bit x i \<Longrightarrow> i + n < 32) \<Longrightarrow> (crc_shift ^^ n) (push_bit n x) = x"
proof (induction n)
  case (Suc n)
  have "crc_shift (push_bit 1 (push_bit n x)) = push_bit n x"
    by (rule crc_shift_push) (use Suc.prems in \<open>force simp: bit_simps\<close>)
  moreover have "(crc_shift ^^ n) (push_bit n x) = x"
    by (rule Suc.IH) (use Suc.prems in force)
  ultimately show ?case by (simp add: funpow_swap1 push_bit_push_bit del: push_bit_Suc)
qed simp

text \<open>The word that \<open>k\<close> bytes add to the register.\<close>

primrec crc_word :: "bytes \<Rightarrow> u32" where
  "crc_word [] = 0"
| "crc_word (b # bs) = ucast b XOR push_bit 8 (crc_word bs)"

lemma bit_crc_word: "bit (crc_word bs) i \<Longrightarrow> i < 8 * length bs"
proof (induction bs arbitrary: i)
  case (Cons b bs)
  then consider "bit b i" | "8 \<le> i" "bit (crc_word bs) (i - 8)"
    by (auto simp: bit_simps)
  then show ?case
    using Cons.IH [of "i - 8"] by cases (auto dest: bit_imp_le_length)
qed simp

lemma crc32_burst_register:
  "length bs \<le> 4 \<Longrightarrow> foldl crc32_step c bs = (crc_shift ^^ (8 * length bs)) (c XOR crc_word bs)"
proof (induction bs arbitrary: c)
  case (Cons b bs)
  let ?w = "crc_word bs"
  have w: "(crc_shift ^^ 8) (push_bit 8 ?w) = ?w"
    by (rule crc_shifts_push) (use bit_crc_word [of bs] Cons.prems in fastforce)
  have "foldl crc32_step c (b # bs) = (crc_shift ^^ (8 * length bs)) (crc32_step c b XOR ?w)"
    using Cons by simp
  also have "crc32_step c b XOR ?w = (crc_shift ^^ 8) ((c XOR ucast b) XOR push_bit 8 ?w)"
    by (simp add: crc32_step_def crc_shifts_xor w)
  finally show ?case
    by (simp only: crc_word.simps xor.assoc length_Cons mult_Suc_right funpow_add comp_apply
        add.commute [of 8])
qed simp

lemma crc_word_inj: "length as = length bs \<Longrightarrow> length as \<le> 4 \<Longrightarrow> crc_word as = crc_word bs \<Longrightarrow> as = bs"
proof (induction as bs rule: list_induct2)
  case (Cons a as b bs)
  have low: "bit (crc_word (x # xs)) i \<longleftrightarrow> bit x i" if "i < 8" for x xs i
    using that by (auto simp: bit_simps)
  have "a = b"
  proof (rule bit_word_eqI)
    fix i assume "i < LENGTH(8)"
    then show "bit a i = bit b i" using low [of i a as] low [of i b bs] Cons.prems(2) by simp
  qed
  moreover have "crc_word as = crc_word bs"
  proof (rule bit_word_eqI)
    fix i assume "i < LENGTH(32)"
    show "bit (crc_word as) i = bit (crc_word bs) i"
    proof (cases "i + 8 < 32")
      case True
      have "bit (crc_word (a # as)) (i + 8) = bit (crc_word (b # bs)) (i + 8)" by (simp only: Cons.prems(2))
      then show ?thesis using True by (auto simp: bit_simps dest: bit_imp_le_length)
    next
      case False
      then show ?thesis using bit_crc_word [of as i] bit_crc_word [of bs i] Cons by force
    qed
  qed
  ultimately show ?case using Cons by simp
qed simp

lemma foldl_crc32_inj: "foldl crc32_step c xs = foldl crc32_step d xs \<longleftrightarrow> c = d"
proof (induction xs arbitrary: c d)
  case (Cons x xs)
  have "crc32_step c x = crc32_step d x \<longleftrightarrow> c = d"
    by (simp only: crc32_step_def crc_shifts_inj xor_cancel)
  then show ?case by (simp add: Cons)
qed simp

lemma crc32_burst:
  assumes "length as = length bs" "length as \<le> 4"
  shows "crc32 (xs @ as @ ys) = crc32 (xs @ bs @ ys) \<longleftrightarrow> as = bs"
proof -
  have "NOT c = NOT d \<longleftrightarrow> c = d" for c d :: u32 by (metis bit.double_compl)
  then have "crc32 (xs @ as @ ys) = crc32 (xs @ bs @ ys) \<longleftrightarrow>
      foldl crc32_step (foldl crc32_step (NOT 0) xs) as = foldl crc32_step (foldl crc32_step (NOT 0) xs) bs"
    by (simp add: crc32_def foldl_crc32_inj)
  also have "\<dots> \<longleftrightarrow> crc_word as = crc_word bs"
    unfolding crc32_burst_register [OF assms(2)] crc32_burst_register [OF assms(2) [unfolded assms(1)]]
    by (simp only: assms(1) crc_shifts_inj xor_cancel)
  also have "\<dots> \<longleftrightarrow> as = bs" using crc_word_inj [OF assms] by blast
  finally show ?thesis .
qed

section \<open>The zeroed range\<close>

lemma crc_zeroed_eq:
  "crc_zeroed start len i bs c =
    foldl crc32_step c (map (\<lambda>(j, v). if start \<le> j \<and> j < start + len then 0 else v) (enumerate i bs))"
  by (induction bs arbitrary: i c) simp_all

lemma crc32_zeroed_splice:
  assumes "start + len \<le> length bs"
  shows "crc32_with_zeroed_range bs start len = crc32 (splice bs start (replicate len 0))"
proof -
  have "map (\<lambda>(j, v). if start \<le> j \<and> j < start + len then 0 else v) (enumerate 0 bs) =
      splice bs start (replicate len 0)"
    using assms by (intro nth_equalityI) (auto simp: nth_splice nth_enumerate_eq)
  then show ?thesis by (simp add: crc32_with_zeroed_range_def crc_zeroed_eq crc32_def)
qed

section \<open>The header\<close>

lemma read_u32_eq: "read_u32 bs off = (if off + 4 \<le> length bs then Ok (from_le (take 4 (drop off bs))) else Err InvalidHeader)"
  by (simp add: read_u32_def get_range_def)

lemma read_u64_eq: "read_u64 bs off = (if off + 8 \<le> length bs then Ok (from_le (take 8 (drop off bs))) else Err InvalidHeader)"
  by (simp add: read_u64_def get_range_def)

definition layout_of :: "bytes \<Rightarrow> header_layout" where
  "layout_of h = \<lparr>first_usable_lba = u64_at h 40, last_usable_lba = u64_at h 48, entry_lba = u64_at h 72,
     entry_count = unat (u32_at h 80), entry_size = unat (u32_at h 84),
     entry_bytes = unat (u32_at h 80) * unat (u32_at h 84), entries_crc = u32_at h 88\<rparr>"

text \<open>What a valid header is, field by field.\<close>

definition header_ok :: "bytes \<Rightarrow> bool" where
  "header_ok h \<longleftrightarrow> take 8 h = GPT_SIGNATURE \<and>
     92 \<le> unat (u32_at h 12) \<and> unat (u32_at h 12) \<le> length h \<and>
     crc32 (splice (take (unat (u32_at h 12)) h) 16 [0, 0, 0, 0]) = u32_at h 16 \<and>
     u64_at h 24 = 1 \<and> 1 < u64_at h 32 \<and> u64_at h 40 \<le> u64_at h 48 \<and> 48 \<le> unat (u32_at h 84)"

lemma count_bytes_bound: "unat (a :: u32) * unat (b :: u32) < 2 ^ 64"
proof -
  have "unat a < 2 ^ 32" "unat b < 2 ^ 32" using unsigned_less [of a] unsigned_less [of b] by simp_all
  then have "unat a * unat b < 2 ^ 32 * 2 ^ 32" by (intro mult_strict_mono) simp_all
  then show ?thesis by simp
qed

lemma length_GPT_SIGNATURE: "length GPT_SIGNATURE = 8"
  by (simp add: GPT_SIGNATURE_def)

lemma parse_header_eq:
  "parse_header h = (if header_ok h then Ok (layout_of h)
     else if take 8 h \<noteq> GPT_SIGNATURE \<or> length h < 8 then Err InvalidSignature
     else if length h < 16 \<or> \<not> (92 \<le> unat (u32_at h 12) \<and> unat (u32_at h 12) \<le> length h) then Err InvalidHeader
     else if crc32 (splice (take (unat (u32_at h 12)) h) 16 [0, 0, 0, 0]) \<noteq> u32_at h 16 then Err InvalidHeaderCrc
     else Err InvalidHeader)"
proof -
  have sig: "get_range h 0 (length GPT_SIGNATURE) \<noteq> Some GPT_SIGNATURE \<longleftrightarrow> take 8 h \<noteq> GPT_SIGNATURE \<or> length h < 8"
    unfolding length_GPT_SIGNATURE by (auto simp: get_range_def)
  have len: "8 \<le> length h" if "take 8 h = GPT_SIGNATURE"
    using arg_cong [OF that, of length] by (simp add: length_GPT_SIGNATURE min_def split: if_splits)
  have zero: "crc32_with_zeroed_range (take hs h) 16 4 = crc32 (splice (take hs h) 16 [0, 0, 0, 0])"
    if "92 \<le> hs" "hs \<le> length h" for hs
    using crc32_zeroed_splice [of 16 4 "take hs h"] that by (simp add: eval_nat_numeral)
  show ?thesis
  proof (cases "take 8 h = GPT_SIGNATURE \<and> 16 \<le> length h \<and> 92 \<le> unat (u32_at h 12) \<and> unat (u32_at h 12) \<le> length h")
    case True
    then have "92 \<le> length h" by linarith
    with True zero [of "unat (u32_at h 12)"] show ?thesis
      by (auto simp: parse_header_def sig read_u32_eq read_u64_eq header_ok_def layout_of_def Let_def
          usize_checked_mul_def count_bytes_bound MIN_HEADER_SIZE_def PARTITION_END_OFFSET_def simp del: power_numeral)
  next
    case False
    then have "\<not> header_ok h" by (auto simp: header_ok_def)
    with False len show ?thesis
      by (auto simp: parse_header_def sig read_u32_eq Let_def MIN_HEADER_SIZE_def)
  qed
qed

section \<open>The partition array\<close>

definition entry_at :: "header_layout \<Rightarrow> bytes \<Rightarrow> nat \<Rightarrow> bytes" where
  "entry_at layout es i = take (entry_size layout) (drop (i * entry_size layout) es)"

definition first_entry :: "header_layout \<Rightarrow> bytes \<Rightarrow> bytes \<Rightarrow> nat \<Rightarrow> nat \<Rightarrow> bytes option" where
  "first_entry layout es g i n = find (\<lambda>e. take 16 e = g) (map (entry_at layout es) [i..<i + n])"

definition usable :: "header_layout \<Rightarrow> root_partition \<Rightarrow> bool" where
  "usable layout p \<longleftrightarrow> first_usable_lba layout \<le> start_lba p \<and> start_lba p \<le> end_lba p \<and> end_lba p \<le> last_usable_lba layout"

definition partition_of :: "bytes \<Rightarrow> root_partition" where
  "partition_of e = \<lparr>start_lba = u64_at e 32, end_lba = u64_at e 40\<rparr>"

definition select_partition :: "header_layout \<Rightarrow> bytes option \<Rightarrow> (gpt_error, root_partition) outcome" where
  "select_partition layout e = (case e of
     None \<Rightarrow> Err MissingRoot
   | Some e \<Rightarrow> if usable layout (partition_of e) then Ok (partition_of e) else Err InvalidPartitionLayout)"

lemma scan_entries_eq:
  assumes "48 \<le> entry_size layout" "(i + n) * entry_size layout \<le> length es"
  shows "scan_entries n i layout es g = select_partition layout (first_entry layout es g i n)"
  using assms(2)
proof (induction n arbitrary: i)
  case 0
  then show ?case by (simp add: select_partition_def first_entry_def)
next
  case (Suc n)
  let ?e = "entry_at layout es i"
  have "i * entry_size layout + entry_size layout \<le> (i + Suc n) * entry_size layout" by (simp add: add_mult_distrib)
  also note Suc.prems
  finally have le: "i * entry_size layout + entry_size layout \<le> length es" .
  then have len: "length ?e = entry_size layout" by (simp add: entry_at_def)
  have slice: "get_range es (i * entry_size layout) (i * entry_size layout + entry_size layout) = Some ?e"
    using le by (simp add: get_range_def entry_at_def)
  have guid: "get_range ?e 0 TYPE_GUID_SIZE = Some (take 16 ?e)"
    using assms(1) len by (simp add: get_range_def TYPE_GUID_SIZE_def)
  have upt: "[i..<i + Suc n] = i # [Suc i..<Suc i + n]" by (simp add: upt_rec)
  show ?case
  proof (cases "take 16 ?e = g")
    case True
    with slice guid len assms(1) show ?thesis
      unfolding first_entry_def upt
      by (auto simp: read_u64_eq PARTITION_START_OFFSET_def PARTITION_END_OFFSET_def select_partition_def
          usable_def partition_of_def)
  next
    case False
    have "scan_entries n (Suc i) layout es g = select_partition layout (first_entry layout es g (Suc i) n)"
      using Suc.prems by (intro Suc.IH) simp
    with False slice guid show ?thesis unfolding first_entry_def upt by simp
  qed
qed

lemma header_ok_layout:
  "header_ok h \<Longrightarrow> 48 \<le> entry_size (layout_of h) \<and> entry_bytes (layout_of h) = entry_count (layout_of h) * entry_size (layout_of h)"
  by (simp add: header_ok_def layout_of_def)

lemma find_vanta_partition_ok:
  assumes "header_ok h"
  shows "find_vanta_partition h es g =
    (if length es < entry_bytes (layout_of h) then Err InvalidHeader
     else if crc32 (take (entry_bytes (layout_of h)) es) \<noteq> entries_crc (layout_of h) then Err InvalidPartitionArrayCrc
     else select_partition (layout_of h) (first_entry (layout_of h) es g 0 (entry_count (layout_of h))))"
proof -
  have "parse_header h = Ok (layout_of h)" using assms by (simp add: parse_header_eq)
  moreover have "scan_entries (entry_count (layout_of h)) 0 (layout_of h) es g =
      select_partition (layout_of h) (first_entry (layout_of h) es g 0 (entry_count (layout_of h)))"
    if "\<not> length es < entry_bytes (layout_of h)"
    using that header_ok_layout [OF assms] by (intro scan_entries_eq) simp_all
  ultimately show ?thesis by (simp add: find_vanta_partition_def)
qed

lemma find_vanta_partition_bad:
  assumes "\<not> header_ok h"
  shows "\<exists>e. parse_header h = Err e \<and> find_vanta_partition h es g = Err e"
  using assms by (simp add: find_vanta_partition_def parse_header_eq)

section \<open>Properties\<close>

text \<open>Partition search.  \<open>find_vanta_partition\<close> never panics, and it returns a partition exactly when the
  header is valid (signature, size, checksum, position, usable range, entry size), the entry array is
  complete and matches its checksum, and the first entry with the wanted type GUID names a range inside
  the usable area; the partition is that range.\<close>

theorem find_vanta_partition_correct:
  "find_vanta_partition h es g \<noteq> Panic \<and>
   (\<forall>p. find_vanta_partition h es g = Ok p \<longleftrightarrow>
      header_ok h \<and> entry_bytes (layout_of h) \<le> length es \<and>
      crc32 (take (entry_bytes (layout_of h)) es) = entries_crc (layout_of h) \<and>
      (\<exists>e. first_entry (layout_of h) es g 0 (entry_count (layout_of h)) = Some e \<and>
        p = partition_of e \<and> usable (layout_of h) p))"
proof (cases "header_ok h")
  case True
  then show ?thesis
    by (auto simp: find_vanta_partition_ok select_partition_def split: option.splits)
next
  case False
  then show ?thesis using find_vanta_partition_bad [OF False, of es g] by auto
qed

text \<open>A valid table for examples; the checksums are the ones \<open>crc32\<close> gives.\<close>

definition demo_entries :: bytes where
  "demo_entries = VANTA_ROOT_TYPE_GUID @ replicate 16 0 @ to_le 8 (40 :: u64) @ to_le 8 (50 :: u64)"

definition demo_header0 :: bytes where
  "demo_header0 = GPT_SIGNATURE @ to_le 4 (0x10000 :: u32) @ to_le 4 (92 :: u32) @ replicate 8 0 @
     to_le 8 (1 :: u64) @ to_le 8 (99 :: u64) @ to_le 8 (34 :: u64) @ to_le 8 (90 :: u64) @ replicate 16 0 @
     to_le 8 (2 :: u64) @ to_le 4 (1 :: u32) @ to_le 4 (48 :: u32) @ to_le 4 (crc32 demo_entries)"

definition demo_header :: bytes where
  "demo_header = splice demo_header0 16 (to_le 4 (crc32 demo_header0))"

lemma demo_fields:
  "take 8 demo_header = GPT_SIGNATURE" "u32_at demo_header 12 = 92" "u32_at demo_header 16 = crc32 demo_header0"
  "u64_at demo_header 24 = 1" "u64_at demo_header 32 = 99" "u64_at demo_header 40 = 34" "u64_at demo_header 48 = 90"
  "u32_at demo_header 80 = 1" "u32_at demo_header 84 = 48" "u32_at demo_header 88 = crc32 demo_entries"
  "length demo_header = 92" "drop 88 demo_header = to_le 4 (crc32 demo_entries)"
  by (simp_all add: demo_header_def demo_header0_def splice_def from_le_to_le length_GPT_SIGNATURE)

lemma demo_header_zeroed: "splice demo_header 16 [0, 0, 0, 0] = demo_header0"
  by (simp add: demo_header_def demo_header0_def splice_def length_GPT_SIGNATURE eval_nat_numeral)

lemma demo_header_ok: "header_ok demo_header"
  by (simp add: header_ok_def demo_fields demo_header_zeroed)

lemma demo_layout:
  "entry_bytes (layout_of demo_header) = 48" "entry_size (layout_of demo_header) = 48"
  "entry_count (layout_of demo_header) = 1" "entries_crc (layout_of demo_header) = crc32 demo_entries"
  "first_usable_lba (layout_of demo_header) = 34" "last_usable_lba (layout_of demo_header) = 90"
  by (simp_all add: layout_of_def demo_fields from_le_to_le)

lemma demo_find: "find_vanta_partition demo_header demo_entries VANTA_ROOT_TYPE_GUID = Ok \<lparr>start_lba = 40, end_lba = 50\<rparr>"
proof -
  have len: "length demo_entries = 48" by (simp add: demo_entries_def VANTA_ROOT_TYPE_GUID_def)
  have g: "length VANTA_ROOT_TYPE_GUID = 16" by (simp add: VANTA_ROOT_TYPE_GUID_def)
  have "first_entry (layout_of demo_header) demo_entries VANTA_ROOT_TYPE_GUID 0 1 = Some demo_entries"
    by (simp add: first_entry_def entry_at_def demo_layout len) (simp add: demo_entries_def g)
  moreover have "partition_of demo_entries = \<lparr>start_lba = 40, end_lba = 50\<rparr>"
    by (simp add: partition_of_def demo_entries_def g from_le_to_le)
  ultimately show ?thesis
    by (simp add: find_vanta_partition_ok [OF demo_header_ok] demo_layout len select_partition_def usable_def)
qed

text \<open>C14. Corruption.  Where a table was accepted, replacing any run of up to four consecutive bytes of the
  entry array by other bytes makes every search fail with \<open>InvalidPartitionArrayCrc\<close>.\<close>

theorem find_rejects_bursts:
  assumes "find_vanta_partition h (xs @ as @ ys) g = Ok p"
    and "length xs + length as \<le> entry_bytes (layout_of h)"
    and "length bs = length as" "length as \<le> 4" "bs \<noteq> as"
  shows "find_vanta_partition h (xs @ bs @ ys) g' = Err InvalidPartitionArrayCrc"
proof -
  let ?n = "entry_bytes (layout_of h)"
  have ok: "header_ok h" using find_vanta_partition_bad [of h "xs @ as @ ys" g] assms(1) by auto
  from assms(1) have len: "?n \<le> length (xs @ as @ ys)"
    and crc: "crc32 (take ?n (xs @ as @ ys)) = entries_crc (layout_of h)"
    unfolding find_vanta_partition_ok [OF ok] by (auto split: if_splits)
  have cut: "take ?n (xs @ cs @ ys) = xs @ cs @ take (?n - length xs - length as) ys"
    if "length cs = length as" for cs
    using assms(2) that by simp
  have "crc32 (take ?n (xs @ bs @ ys)) \<noteq> entries_crc (layout_of h)"
    using crc32_burst [of as bs xs "take (?n - length xs - length as) ys"] assms(3-5) crc
    unfolding cut [OF refl] cut [OF assms(3)] by metis
  with len assms(3) show ?thesis by (simp add: find_vanta_partition_ok [OF ok])
qed

theorem find_rejects_bursts_witness:
  "find_vanta_partition demo_header demo_entries VANTA_ROOT_TYPE_GUID = Ok \<lparr>start_lba = 40, end_lba = 50\<rparr> \<and>
   find_vanta_partition demo_header (take 32 demo_entries @ [41, 1] @ drop 34 demo_entries) VANTA_ROOT_TYPE_GUID =
     Err InvalidPartitionArrayCrc"
proof -
  have split: "demo_entries = take 32 demo_entries @ take 2 (drop 32 demo_entries) @ drop 34 demo_entries"
    using append_take_drop_id [of 32 demo_entries] append_take_drop_id [of 2 "drop 32 demo_entries"] by simp
  have two: "take 2 (drop 32 demo_entries) = [40, 0]"
  proof -
    have "take 2 (drop 32 demo_entries) = take 2 (to_le 8 (40 :: u64))"
      by (simp add: demo_entries_def VANTA_ROOT_TYPE_GUID_def)
    also have "\<dots> = [40, 0]" by code_simp
    finally show ?thesis .
  qed
  have len: "length demo_entries = 48" by (simp add: demo_entries_def VANTA_ROOT_TYPE_GUID_def)
  show ?thesis
    using demo_find find_rejects_bursts [of demo_header "take 32 demo_entries" "[40, 0]" "drop 34 demo_entries"
        VANTA_ROOT_TYPE_GUID _ "[41, 1]" VANTA_ROOT_TYPE_GUID] split two
    by (simp add: demo_layout len)
qed

text \<open>Confinement.  Every sector that \<open>absolute_lba\<close> yields for a partition found in a table lies inside
  that partition and inside the usable area of the disk, for any relative address, and consecutive
  relative addresses give consecutive sectors from its start.\<close>

theorem partition_confined:
  assumes "find_vanta_partition h es g = Ok p"
  shows "case absolute_lba p r of
      Some l \<Rightarrow> start_lba p \<le> l \<and> l \<le> end_lba p \<and> first_usable_lba (layout_of h) \<le> l \<and>
        l \<le> last_usable_lba (layout_of h) \<and> unat l = unat (start_lba p) + unat r
    | None \<Rightarrow> unat (end_lba p) < unat (start_lba p) + unat r \<or> (start_lba p = 0 \<and> end_lba p = - 1)"
proof -
  have ok: "header_ok h" using find_vanta_partition_bad [of h es g] assms by auto
  from assms have us: "usable (layout_of h) p"
    unfolding find_vanta_partition_ok [OF ok] by (auto simp: select_partition_def split: if_splits option.splits)
  then have le: "unat (start_lba p) \<le> unat (end_lba p)" by (simp add: usable_def word_le_nat_alt)
  have top: "unat (end_lba p) < 2 ^ 64" using unsigned_less [of "end_lba p"] by simp
  let ?d = "end_lba p - start_lba p"
  have d: "unat ?d = unat (end_lba p) - unat (start_lba p)" using le by (simp add: unat_sub word_le_nat_alt)
  show ?thesis
  proof (cases "?d = - 1")
    case True
    then have "unat (end_lba p) - unat (start_lba p) = 2 ^ 64 - 1"
      using d by (simp add: unsigned_minus_1_eq_mask mask_eq_exp_minus_1)
    with top have "unat (start_lba p) = 0" by simp
    then have "start_lba p = 0" by (simp add: unat_eq_0)
    with True show ?thesis by (simp add: absolute_lba_def sector_count_def)
  next
    case False
    then have "unat ?d \<noteq> unat (- 1 :: u64)" by (metis word_unat_eq_iff)
    then have "unat ?d \<noteq> 2 ^ 64 - 1" by (simp add: unsigned_minus_1_eq_mask mask_eq_exp_minus_1)
    moreover have "unat ?d < 2 ^ 64" using unsigned_less [of ?d] by simp
    ultimately have c: "unat (sector_count p) = unat ?d + 1"
      unfolding sector_count_def by (subst unat_add_no_overflow) simp_all
    show ?thesis
    proof (cases "r < sector_count p")
      case True
      then have "unat (start_lba p) + unat r \<le> unat (end_lba p)"
        using c d le by (simp add: word_less_nat_alt)
      moreover from this have "unat (start_lba p + r) = unat (start_lba p) + unat r"
        using top by (intro unat_add_no_overflow) simp
      ultimately show ?thesis
        using True us by (simp add: absolute_lba_def usable_def word_le_nat_alt word_less_nat_alt)
    next
      case False
      then have "unat (end_lba p) < unat (start_lba p) + unat r"
        using c d le by (simp add: word_less_nat_alt not_less)
      with False show ?thesis by (simp add: absolute_lba_def not_less)
    qed
  qed
qed

theorem partition_confined_witness:
  "find_vanta_partition demo_header demo_entries VANTA_ROOT_TYPE_GUID = Ok \<lparr>start_lba = 40, end_lba = 50\<rparr> \<and>
   absolute_lba \<lparr>start_lba = 40, end_lba = 50\<rparr> 10 = Some 50 \<and> absolute_lba \<lparr>start_lba = 40, end_lba = 50\<rparr> 11 = None"
  using demo_find partition_confined [OF demo_find, of 10] partition_confined [OF demo_find, of 11]
  by (simp add: absolute_lba_def sector_count_def)

section \<open>Reading whole sectors\<close>

lemma read_entries_from:
  assumes "\<And>i. i < k + n \<Longrightarrow> rd (entry_lba L + of_nat i) = Some (take 512 (drop (i * 512) D))"
    and "length D = (k + n) * 512" "entry_bytes L = (k + n) * 512"
  shows "read_entries rd n k L (take (k * 512) D @ replicate (n * 512) 0) = Ok D"
  using assms
proof (induction n arbitrary: k)
  case 0
  then show ?case by simp
next
  case (Suc n)
  let ?s = "take 512 (drop (k * 512) D)"
  have s: "length ?s = 512" using Suc.prems(2) by simp
  have m: "min (entry_bytes L - k * 512) 512 = 512" using Suc.prems(3) by simp
  have "splice (take (k * 512) D @ replicate (Suc n * 512) 0) (k * 512) ?s =
      (take (k * 512) D @ ?s) @ replicate (Suc n * 512 - length ?s) 0"
    by (rule splice_fill) (use Suc.prems(2) s in simp_all)
  also have "take (k * 512) D @ ?s = take (Suc k * 512) D"
    by (metis add.commute mult_Suc take_add)
  finally have "splice (take (k * 512) D @ replicate (Suc n * 512) 0) (k * 512) ?s =
      take (Suc k * 512) D @ replicate (n * 512) 0"
    using s by simp
  moreover have "read_entries rd n (Suc k) L (take (Suc k * 512) D @ replicate (n * 512) 0) = Ok D"
    by (rule Suc.IH) (use Suc.prems in simp_all)
  ultimately show ?case
    using Suc.prems(1) [of k] s m by (simp add: SECTOR_SIZE_def del: replicate.simps mult_Suc)
qed

lemma read_entries_all:
  assumes "\<And>i. i < n \<Longrightarrow> rd (entry_lba L + of_nat i) = Some (take 512 (drop (i * 512) D))"
    and "length D = n * 512" "entry_bytes L = n * 512"
  shows "read_entries rd (div_ceil (entry_bytes L) SECTOR_SIZE) 0 L (replicate (entry_bytes L) 0) = Ok D"
proof -
  have "div_ceil (entry_bytes L) SECTOR_SIZE = n" using assms(3) by (simp add: div_ceil_def SECTOR_SIZE_def)
  then show ?thesis using read_entries_from [of 0 n rd L D] assms by simp
qed

end
