(* ===== verification/Image.thy ===== *)
theory Image
  imports Gpt
begin

text \<open>
  The host-side image builder (\<open>rust/image/src/lib.rs\<close>): the partition layout, the copies of the
  two file-system images, the primary and backup GPT and the protective MBR, and the in-memory
  disks the file-system libraries write to.  The file-system images themselves come from the
  FAT and RedoxFS libraries: \<open>build_image\<close> takes their results as the parameters \<open>build_esp\<close> and
  \<open>build_redoxfs\<close>.  The main property is the round trip with the reader of theory \<open>Gpt\<close>.
\<close>

section \<open>Types and constants\<close>

definition GPT_ENTRY_SIZE :: nat where "GPT_ENTRY_SIZE = 128"
definition GPT_ENTRY_COUNT :: nat where "GPT_ENTRY_COUNT = 128"
definition GPT_ENTRIES_LBA :: u64 where "GPT_ENTRIES_LBA = 2"
definition GPT_FIRST_USABLE_LBA :: u64 where "GPT_FIRST_USABLE_LBA = 34"
definition ESP_START_LBA :: u64 where "ESP_START_LBA = 2048"
definition BLOCK_SIZE :: u64 where "BLOCK_SIZE = 4096"

definition ESP_TYPE_GUID :: bytes where
  "ESP_TYPE_GUID =
     [0x28, 0x73, 0x2a, 0xc1, 0x1f, 0xf8, 0xd2, 0x11, 0xba, 0x4b, 0x00, 0xa0, 0xc9, 0x3e, 0xc9, 0x3b]"

record image_options =
  esp_sectors :: u64
  root_sectors :: u64
  swap_sectors :: u64

datatype ('io, 'fs) image_error = InvalidLayout | Io 'io | RedoxFs 'fs

record built_image =
  img_bytes :: bytes
  img_esp :: root_partition
  img_root :: root_partition
  img_swap :: "root_partition option"

section \<open>Writing into the image\<close>

text \<open>\<open>image[start..end]\<close> of a partition; \<open>None\<close> is the panic of a slice out of range.\<close>

definition partition_bounds :: "root_partition \<Rightarrow> nat \<times> nat" where
  "partition_bounds p = (unat (start_lba p * 512), unat ((end_lba p + 1) * 512))"

definition partition_bytes :: "bytes \<Rightarrow> root_partition \<Rightarrow> bytes option" where
  "partition_bytes img p = (case partition_bounds p of (s, e) \<Rightarrow> get_range img s e)"

definition copy_partition :: "bytes \<Rightarrow> root_partition \<Rightarrow> bytes \<Rightarrow> (('io, 'fs) image_error, bytes) outcome" where
  "copy_partition img p contents =
     (case partition_bytes img p of
        None \<Rightarrow> Panic
      | Some destination \<Rightarrow>
          if length destination \<noteq> length contents then Err InvalidLayout
          else Ok (splice img (fst (partition_bounds p)) contents))"

definition write_entry :: "bytes \<Rightarrow> bytes \<Rightarrow> root_partition \<Rightarrow> u8 \<Rightarrow> bytes" where
  "write_entry entry type_guid p i =
     (let e1 = splice entry 0 type_guid;
          e2 = e1[16 := i];
          e3 = splice e2 32 (to_le 8 (start_lba p))
      in splice e3 40 (to_le 8 (end_lba p)))"

definition write_at_lba :: "bytes \<Rightarrow> u64 \<Rightarrow> bytes \<Rightarrow> (('io, 'fs) image_error, bytes) outcome" where
  "write_at_lba img lba contents =
     and_then (ok_or (checked_mul lba 512) InvalidLayout) (\<lambda>start.
     and_then (ok_or (if unat start + length contents < 2 ^ 64 then Some (unat start + length contents) else None)
                InvalidLayout) (\<lambda>e.
     and_then (ok_or (get_range img (unat start) e) InvalidLayout) (\<lambda>destination.
     Ok (splice img (unat start) contents))))"

text \<open>The header sector before its checksum is stored, and with it.\<close>

definition header_fields :: "u64 \<Rightarrow> u64 \<Rightarrow> u64 \<Rightarrow> u64 \<Rightarrow> u32 \<Rightarrow> bytes" where
  "header_fields current_lba backup_lba entries_lba last_usable ecrc =
     (let h1 = splice (replicate 512 0) 0 GPT_SIGNATURE;
          h2 = splice h1 8 (to_le 4 (0x00010000 :: u32));
          h3 = splice h2 12 (to_le 4 (92 :: u32));
          h4 = splice h3 24 (to_le 8 current_lba);
          h5 = splice h4 32 (to_le 8 backup_lba);
          h6 = splice h5 40 (to_le 8 GPT_FIRST_USABLE_LBA);
          h7 = splice h6 48 (to_le 8 last_usable);
          h8 = h7[56 := 0x56];
          h9 = splice h8 72 (to_le 8 entries_lba);
          h10 = splice h9 80 (to_le 4 (of_nat GPT_ENTRY_COUNT :: u32));
          h11 = splice h10 84 (to_le 4 (of_nat GPT_ENTRY_SIZE :: u32))
      in splice h11 88 (to_le 4 ecrc))"

definition header_sector :: "u64 \<Rightarrow> u64 \<Rightarrow> u64 \<Rightarrow> u64 \<Rightarrow> u32 \<Rightarrow> bytes" where
  "header_sector current_lba backup_lba entries_lba last_usable ecrc =
     (let header = header_fields current_lba backup_lba entries_lba last_usable ecrc;
          checksum = crc32 (take 92 header)
      in splice header 16 (to_le 4 checksum))"

definition write_header :: "bytes \<Rightarrow> u64 \<Rightarrow> u64 \<Rightarrow> u64 \<Rightarrow> u64 \<Rightarrow> u32 \<Rightarrow> (('io, 'fs) image_error, bytes) outcome" where
  "write_header img current_lba backup_lba entries_lba last_usable ecrc =
     write_at_lba img current_lba (header_sector current_lba backup_lba entries_lba last_usable ecrc)"

definition write_protective_mbr :: "bytes \<Rightarrow> u64 \<Rightarrow> (('io, 'fs) image_error, bytes) outcome" where
  "write_protective_mbr img total_sectors =
     and_then (ok_or (get_range img 0 512) InvalidLayout) (\<lambda>mbr.
       let m1 = mbr[450 := 0xee];
           m2 = splice m1 454 (to_le 4 (1 :: u32));
           m3 = splice m2 458 (to_le 4 (ucast (min (saturating_sub total_sectors 1) 0xffffffff) :: u32));
           m4 = splice m3 510 [0x55, 0xaa]
       in Ok (splice img 0 m4))"

definition gpt_entries :: "root_partition \<Rightarrow> root_partition \<Rightarrow> root_partition option \<Rightarrow> bytes" where
  "gpt_entries esp root swap =
     (let es = replicate (GPT_ENTRY_SIZE * GPT_ENTRY_COUNT) 0;
          es1 = splice es 0 (write_entry (take 128 es) ESP_TYPE_GUID esp 1);
          es2 = splice es1 128 (write_entry (take 128 (drop 128 es1)) VANTA_ROOT_TYPE_GUID root 2)
      in case swap of
           None \<Rightarrow> es2
         | Some s \<Rightarrow> splice es2 256 (write_entry (take 128 (drop 256 es2)) VANTA_SWAP_TYPE_GUID s 3))"

definition write_gpt :: "bytes \<Rightarrow> root_partition \<Rightarrow> root_partition \<Rightarrow> root_partition option \<Rightarrow> u64 \<Rightarrow>
    (('io, 'fs) image_error, bytes) outcome" where
  "write_gpt img esp root swap total_sectors =
     (let entries = gpt_entries esp root swap;
          ecrc = crc32 entries;
          entries_sectors = of_nat (GPT_ENTRY_SIZE * GPT_ENTRY_COUNT div 512)
      in
      and_then (write_at_lba img GPT_ENTRIES_LBA entries) (\<lambda>i1.
      and_then (write_at_lba i1 (total_sectors - 1 - entries_sectors) entries) (\<lambda>i2.
      and_then (write_header i2 1 (total_sectors - 1) GPT_ENTRIES_LBA (total_sectors - 34) ecrc) (\<lambda>i3.
      and_then (write_header i3 (total_sectors - 1) 1 (total_sectors - 1 - entries_sectors)
                  (total_sectors - 34) ecrc) (\<lambda>i4.
      write_protective_mbr i4 total_sectors)))))"

section \<open>The image\<close>

definition checked_sum :: "u64 \<Rightarrow> u64 \<Rightarrow> (('io, 'fs) image_error, u64) outcome" where
  "checked_sum a b = ok_or (checked_add a b) InvalidLayout"

definition swap_layout :: "image_options \<Rightarrow> u64 \<Rightarrow> (('io, 'fs) image_error, root_partition option) outcome" where
  "swap_layout options root_end =
     (if swap_sectors options > 0
      then and_then (checked_sum root_end 1) (\<lambda>s.
           and_then (checked_sum root_end (swap_sectors options)) (\<lambda>e.
           Ok (Some \<lparr>start_lba = s, end_lba = e\<rparr>)))
      else Ok None)"

definition build_image :: "(u64 \<Rightarrow> (('io, 'fs) image_error, bytes) outcome) \<Rightarrow>
    (u64 \<Rightarrow> (('io, 'fs) image_error, bytes) outcome) \<Rightarrow> image_options \<Rightarrow>
    (('io, 'fs) image_error, built_image) outcome" where
  "build_image build_esp build_redoxfs options =
     (if esp_sectors options = 0 \<or> root_sectors options = 0 \<or> root_sectors options mod (BLOCK_SIZE div 512) \<noteq> 0
      then Err InvalidLayout
      else
        and_then (checked_sum ESP_START_LBA (esp_sectors options - 1)) (\<lambda>esp_end.
        and_then (checked_sum esp_end 1) (\<lambda>root_start.
        and_then (checked_sum esp_end (root_sectors options)) (\<lambda>root_end.
        and_then (swap_layout options root_end) (\<lambda>swap.
        let esp = \<lparr>start_lba = ESP_START_LBA, end_lba = esp_end\<rparr>;
            root = \<lparr>start_lba = root_start, end_lba = root_end\<rparr>;
            last_end = (case swap of Some s \<Rightarrow> end_lba s | None \<Rightarrow> root_end)
        in
        and_then (checked_sum last_end 34) (\<lambda>total_sectors.
        and_then (ok_or (checked_mul total_sectors 512) InvalidLayout) (\<lambda>image_len.
        if unat image_len > ISIZE_MAX then Panic
        else
          and_then (build_esp (esp_sectors options)) (\<lambda>esp_bytes.
          and_then (build_redoxfs (root_sectors options)) (\<lambda>root_bytes.
          and_then (copy_partition (replicate (unat image_len) 0) esp esp_bytes) (\<lambda>b1.
          and_then (copy_partition b1 root root_bytes) (\<lambda>b2.
          and_then (write_gpt b2 esp root swap total_sectors) (\<lambda>bs.
          Ok \<lparr>img_bytes = bs, img_esp = esp, img_root = root, img_swap = swap\<rparr>))))))))))))"

definition esp_bytes :: "built_image \<Rightarrow> bytes option" where
  "esp_bytes self = partition_bytes (img_bytes self) (img_esp self)"

definition root_bytes :: "built_image \<Rightarrow> bytes option" where
  "root_bytes self = partition_bytes (img_bytes self) (img_root self)"

section \<open>In-memory disks\<close>

text \<open>\<open>MemoryDisk\<close>, the block device RedoxFS formats: \<open>EIO\<close> outside the disk.\<close>

definition disk_range :: "bytes \<Rightarrow> u64 \<Rightarrow> nat \<Rightarrow> (nat \<times> nat) option" where
  "disk_range disk block len =
     (case checked_mul block BLOCK_SIZE of
        None \<Rightarrow> None
      | Some start \<Rightarrow>
          if unat start + len < 2 ^ 64 \<and> unat start + len \<le> length disk
          then Some (unat start, unat start + len) else None)"

definition disk_read_at :: "bytes \<Rightarrow> u64 \<Rightarrow> nat \<Rightarrow> (unit, bytes) outcome" where
  "disk_read_at disk block len =
     (case disk_range disk block len of
        None \<Rightarrow> Err ()
      | Some (s, e) \<Rightarrow> Ok (take (e - s) (drop s disk)))"

definition disk_write_at :: "bytes \<Rightarrow> u64 \<Rightarrow> bytes \<Rightarrow> (unit, bytes \<times> nat) outcome" where
  "disk_write_at disk block buffer =
     (case disk_range disk block (length buffer) of
        None \<Rightarrow> Err ()
      | Some (s, e) \<Rightarrow> Ok (splice disk s buffer, length buffer))"

text \<open>\<open>SharedCursor\<close>, the seekable buffer the FAT library formats.\<close>

record shared_cursor =
  cur_bytes :: bytes
  cur_position :: u64

datatype cursor_error = InvalidInput | WriteZero

datatype seek_from = SeekStart u64 | SeekCurrent "64 word" | SeekEnd "64 word"

definition SharedCursor_new :: "nat \<Rightarrow> shared_cursor" where
  "SharedCursor_new n = \<lparr>cur_bytes = replicate n 0, cur_position = 0\<rparr>"

definition cursor_read :: "shared_cursor \<Rightarrow> nat \<Rightarrow> shared_cursor \<times> (cursor_error, bytes) outcome" where
  "cursor_read self len =
     (let start = unat (cur_position self);
          count = min len (length (cur_bytes self) - start)
      in case get_range (cur_bytes self) start (start + count) of
           None \<Rightarrow> (self, Panic)
         | Some bs \<Rightarrow> (self\<lparr>cur_position := cur_position self + of_nat count\<rparr>, Ok bs))"

definition cursor_write :: "shared_cursor \<Rightarrow> bytes \<Rightarrow> shared_cursor \<times> (cursor_error, nat) outcome" where
  "cursor_write self buffer =
     (let start = unat (cur_position self); e = start + length buffer in
      if e \<ge> 2 ^ 64 then (self, Err InvalidInput)
      else if e > length (cur_bytes self) then (self, Err WriteZero)
      else (self\<lparr>cur_bytes := splice (cur_bytes self) start buffer, cur_position := of_nat e\<rparr>, Ok (length buffer)))"

definition cursor_seek :: "shared_cursor \<Rightarrow> seek_from \<Rightarrow> shared_cursor \<times> (cursor_error, u64) outcome" where
  "cursor_seek self position =
     (let target = (case position of
            SeekStart v \<Rightarrow> uint v
          | SeekCurrent d \<Rightarrow> uint (cur_position self) + sint d
          | SeekEnd d \<Rightarrow> int (length (cur_bytes self)) + sint d)
      in if target < 0 \<or> target > 2 ^ 64 - 1 then (self, Err InvalidInput)
         else (self\<lparr>cur_position := of_int target\<rparr>, Ok (of_int target)))"

section \<open>The header sector\<close>

text \<open>Writing to the right of what has been written into a zeroed buffer.\<close>

lemma splice_gap:
  assumes "length xs \<le> off" "off + length ys \<le> length xs + n"
  shows "splice (xs @ replicate n z) off ys =
    (xs @ replicate (off - length xs) z @ ys) @ replicate (length xs + n - off - length ys) z"
  using assms by (auto simp: splice_def min_def)

lemma list_update_splice: "i < length xs \<Longrightarrow> xs[i := v] = splice xs i [v]"
  by (simp add: splice_def upd_conv_take_nth_drop)

lemma list_update_gap:
  assumes "length xs \<le> i" "i < length xs + n"
  shows "(xs @ replicate n z)[i := v] =
    (xs @ replicate (i - length xs) z @ [v]) @ replicate (length xs + n - i - 1) z"
  using assms splice_gap [of xs i "[v]" n z] by (simp add: list_update_splice)

definition header_prefix :: "u64 \<Rightarrow> u64 \<Rightarrow> u64 \<Rightarrow> u64 \<Rightarrow> u32 \<Rightarrow> bytes \<Rightarrow> bytes" where
  "header_prefix cur bak at lu ec crc =
     GPT_SIGNATURE @ to_le 4 (0x10000 :: u32) @ to_le 4 (92 :: u32) @ crc @ replicate 4 0 @
     to_le 8 cur @ to_le 8 bak @ to_le 8 (34 :: u64) @ to_le 8 lu @ [0x56] @ replicate 15 0 @
     to_le 8 at @ to_le 4 (128 :: u32) @ to_le 4 (128 :: u32) @ to_le 4 ec"

lemma length_header_prefix: "length crc = 4 \<Longrightarrow> length (header_prefix cur bak at lu ec crc) = 92"
  by (simp add: header_prefix_def length_GPT_SIGNATURE)

lemma header_fields_eq:
  "header_fields cur bak at lu ec = header_prefix cur bak at lu ec (replicate 4 0) @ replicate 420 0"
proof -
  have start: "splice (replicate 512 0) 0 GPT_SIGNATURE = GPT_SIGNATURE @ replicate 504 0"
    by (simp add: splice_fill0 length_GPT_SIGNATURE)
  have r: "replicate 8 (0 :: u8) = replicate 4 0 @ replicate 4 0" by (simp flip: replicate_add)
  show ?thesis
    unfolding header_fields_def Let_def start header_prefix_def
    by (simp add: splice_gap list_update_gap length_GPT_SIGNATURE GPT_FIRST_USABLE_LBA_def
        GPT_ENTRY_COUNT_def GPT_ENTRY_SIZE_def del: append_assoc)
      (simp add: r)
qed

lemma header_sector_eq:
  "header_sector cur bak at lu ec =
    header_prefix cur bak at lu ec (to_le 4 (crc32 (header_prefix cur bak at lu ec (replicate 4 0)))) @ replicate 420 0"
  unfolding header_sector_def header_fields_eq Let_def
  by (simp add: length_header_prefix) (simp add: header_prefix_def splice_def length_GPT_SIGNATURE)

lemma replicate4: "replicate 4 x = [x, x, x, x]"
  by (simp add: eval_nat_numeral)

lemma header_sector_fields:
  fixes cur bak at lu ec
  defines "h \<equiv> header_sector cur bak at lu ec"
  shows "take 8 h = GPT_SIGNATURE" "u32_at h 12 = 92"
    "u32_at h 16 = crc32 (header_prefix cur bak at lu ec (replicate 4 0))"
    "u64_at h 24 = cur" "u64_at h 32 = bak" "u64_at h 40 = 34" "u64_at h 48 = lu" "u64_at h 72 = at"
    "u32_at h 80 = 128" "u32_at h 84 = 128" "u32_at h 88 = ec" "length h = 512"
    "splice (take 92 h) 16 [0, 0, 0, 0] = header_prefix cur bak at lu ec (replicate 4 0)"
  by (simp_all add: h_def header_sector_eq header_prefix_def length_GPT_SIGNATURE from_le_to_le splice_def
      replicate4)

lemma header_sector_ok:
  assumes "1 < bak" "34 \<le> lu"
  shows "header_ok (header_sector 1 bak at lu ec)"
  using assms by (simp add: header_ok_def header_sector_fields)

lemma header_sector_layout:
  "layout_of (header_sector cur bak at lu ec) =
    \<lparr>first_usable_lba = 34, last_usable_lba = lu, entry_lba = at, entry_count = 128, entry_size = 128,
     entry_bytes = 16384, entries_crc = ec\<rparr>"
  by (simp add: layout_of_def header_sector_fields)

section \<open>The entry array\<close>

definition entry_block :: "bytes \<Rightarrow> root_partition \<Rightarrow> u8 \<Rightarrow> bytes" where
  "entry_block g p i = g @ [i] @ replicate 15 0 @ to_le 8 (start_lba p) @ to_le 8 (end_lba p) @ replicate 80 0"

lemma guid_lengths:
  "length ESP_TYPE_GUID = 16" "length VANTA_ROOT_TYPE_GUID = 16" "length VANTA_SWAP_TYPE_GUID = 16"
  by (simp_all add: ESP_TYPE_GUID_def VANTA_ROOT_TYPE_GUID_def VANTA_SWAP_TYPE_GUID_def)

lemma length_entry_block [simp]: "length g = 16 \<Longrightarrow> length (entry_block g p i) = 128"
  by (simp add: entry_block_def)

lemma write_entry_eq:
  assumes "length g = 16"
  shows "write_entry (replicate 128 0) g p i = entry_block g p i"
proof -
  have start: "splice (replicate 128 0) 0 g = g @ replicate 112 0"
    using assms by (simp add: splice_fill0)
  show ?thesis
    unfolding write_entry_def Let_def start entry_block_def
    by (simp add: splice_gap list_update_gap assms del: append_assoc)
qed

definition third_block :: "root_partition option \<Rightarrow> bytes" where
  "third_block swap = (case swap of None \<Rightarrow> replicate 128 0 | Some s \<Rightarrow> entry_block VANTA_SWAP_TYPE_GUID s 3)"

lemma length_third_block [simp]: "length (third_block swap) = 128"
  by (simp add: third_block_def guid_lengths split: option.split)

lemma gpt_entries_eq:
  "gpt_entries esp root swap =
    entry_block ESP_TYPE_GUID esp 1 @ entry_block VANTA_ROOT_TYPE_GUID root 2 @ third_block swap @ replicate 16000 0"
proof -
  let ?e = "entry_block ESP_TYPE_GUID esp 1"
  let ?r = "entry_block VANTA_ROOT_TYPE_GUID root 2"
  have e1: "splice (replicate 16384 0) 0 (write_entry (take 128 (replicate 16384 0)) ESP_TYPE_GUID esp 1) =
      ?e @ replicate 16256 0"
    by (simp add: write_entry_eq guid_lengths splice_fill0 min_def)
  have e2: "splice (?e @ replicate 16256 0) 128
      (write_entry (take 128 (drop 128 (?e @ replicate 16256 0))) VANTA_ROOT_TYPE_GUID root 2) = (?e @ ?r) @ replicate 16128 0"
    by (simp add: write_entry_eq guid_lengths splice_fill min_def)
  have e3: "splice ((?e @ ?r) @ replicate 16128 0) 256
      (write_entry (take 128 (drop 256 ((?e @ ?r) @ replicate 16128 0))) VANTA_SWAP_TYPE_GUID s 3) =
      ((?e @ ?r) @ entry_block VANTA_SWAP_TYPE_GUID s 3) @ replicate 16000 0" for s
    by (simp add: write_entry_eq guid_lengths splice_def min_def)
  have z: "replicate 16128 (0 :: u8) = replicate 128 0 @ replicate 16000 0" by (simp flip: replicate_add)
  have n: "GPT_ENTRY_SIZE * GPT_ENTRY_COUNT = 16384" by (simp add: GPT_ENTRY_SIZE_def GPT_ENTRY_COUNT_def)
  show ?thesis
    unfolding gpt_entries_def Let_def n e1 e2 e3
    by (simp only: third_block_def z append_assoc split: option.split) simp
qed

lemma length_gpt_entries [simp]: "length (gpt_entries esp root swap) = 16384"
  by (simp add: gpt_entries_eq guid_lengths)

lemma entry_at_gpt:
  assumes "entry_size L = 128"
  shows "entry_at L (gpt_entries esp root swap) 0 = entry_block ESP_TYPE_GUID esp 1"
    and "entry_at L (gpt_entries esp root swap) 1 = entry_block VANTA_ROOT_TYPE_GUID root 2"
    and "entry_at L (gpt_entries esp root swap) 2 = third_block swap"
    and "3 \<le> i \<Longrightarrow> i < 128 \<Longrightarrow> entry_at L (gpt_entries esp root swap) i = replicate 128 0"
  using assms by (auto simp: entry_at_def gpt_entries_eq guid_lengths)

lemma guid_of_block [simp]: "length g = 16 \<Longrightarrow> take 16 (entry_block g p i) = g"
  by (simp add: entry_block_def)

lemma partition_of_block [simp]: "length g = 16 \<Longrightarrow> partition_of (entry_block g p i) = p"
  by (simp add: partition_of_def entry_block_def from_le_to_le)

lemma guids_differ:
  "ESP_TYPE_GUID \<noteq> VANTA_ROOT_TYPE_GUID" "ESP_TYPE_GUID \<noteq> VANTA_SWAP_TYPE_GUID"
  "VANTA_ROOT_TYPE_GUID \<noteq> VANTA_SWAP_TYPE_GUID"
  by (simp_all add: ESP_TYPE_GUID_def VANTA_ROOT_TYPE_GUID_def VANTA_SWAP_TYPE_GUID_def)

lemma zero_guid: "replicate 16 0 \<noteq> VANTA_SWAP_TYPE_GUID"
proof
  assume "replicate 16 0 = VANTA_SWAP_TYPE_GUID"
  then have "hd (replicate 16 0) = hd VANTA_SWAP_TYPE_GUID" by simp
  then show False by (simp add: VANTA_SWAP_TYPE_GUID_def)
qed

lemma first_entry_gpt:
  assumes "entry_size L = 128"
  shows "first_entry L (gpt_entries esp root swap) VANTA_ROOT_TYPE_GUID 0 128 = Some (entry_block VANTA_ROOT_TYPE_GUID root 2)"
    and "first_entry L (gpt_entries esp root swap) VANTA_SWAP_TYPE_GUID 0 128 =
      map_option (\<lambda>s. entry_block VANTA_SWAP_TYPE_GUID s 3) swap"
proof -
  have "[0..<128] = [0, 1, 2] @ [3..<128]"
    by (simp add: upt_rec)
  then have u: "map f [0..<0 + 128] = f 0 # f 1 # f 2 # map f [3..<128]" for f :: "nat \<Rightarrow> bytes" by simp
  note at = entry_at_gpt [OF assms, unfolded One_nat_def]
  show "first_entry L (gpt_entries esp root swap) VANTA_ROOT_TYPE_GUID 0 128 = Some (entry_block VANTA_ROOT_TYPE_GUID root 2)"
    unfolding first_entry_def u by (simp add: at guid_lengths guids_differ)
  have rest: "find (\<lambda>e. take 16 e = VANTA_SWAP_TYPE_GUID) (map (entry_at L (gpt_entries esp root swap)) [3..<128]) = None"
    using zero_guid by (auto simp: find_None_iff at(4))
  show "first_entry L (gpt_entries esp root swap) VANTA_SWAP_TYPE_GUID 0 128 =
      map_option (\<lambda>s. entry_block VANTA_SWAP_TYPE_GUID s 3) swap"
    unfolding first_entry_def u
    by (cases swap) (simp_all add: at rest guid_lengths guids_differ zero_guid third_block_def)
qed

section \<open>Writing the table\<close>

lemma write_at_lba_eq:
  assumes "unat lba * 512 + length contents \<le> length img" "length img < 2 ^ 64"
  shows "write_at_lba img lba contents = Ok (splice img (unat lba * 512) contents)"
proof -
  have "unat lba * unat (512 :: u64) < 2 ^ 64" using assms by simp
  then have m: "checked_mul lba 512 = Some (lba * 512)" "unat (lba * 512) = unat lba * 512"
    by (auto simp: checked_mul_def unat_mult_lem [THEN iffD1])
  show ?thesis using assms by (simp add: write_at_lba_def m get_range_def)
qed

lemma length_header_sector [simp]: "length (header_sector cur bak at lu ec) = 512"
  by (rule header_sector_fields)

lemma write_protective_mbr_eq:
  assumes "512 \<le> length img"
  shows "\<exists>m. length m = 512 \<and> write_protective_mbr img t = Ok (splice img 0 m)"
proof -
  have g: "get_range img 0 512 = Some (take 512 img)" using assms by (simp add: get_range_def)
  show ?thesis
    unfolding write_protective_mbr_def g Let_def ok_or.simps and_then.simps
    by (rule exI, rule conjI [OF _ refl]) (use assms in simp)
qed

text \<open>What the table writer leaves in the image: the primary header, the primary entries, and
  everything between the primary and the backup table as it was.\<close>

lemma write_gpt_spec:
  assumes T: "unat tot * 512 = length img" "67 \<le> unat tot" "length img < 2 ^ 64"
  obtains bs where "write_gpt img esp root swap tot = (Ok bs :: (('io, 'fs) image_error, bytes) outcome)" "length bs = length img"
    "take 512 (drop 512 bs) =
       header_sector 1 (tot - 1) 2 (tot - 34) (crc32 (gpt_entries esp root swap))"
    "take 16384 (drop 1024 bs) = gpt_entries esp root swap"
    "\<forall>a n. 17408 \<le> a \<and> a + n \<le> (unat tot - 33) * 512 \<longrightarrow> take n (drop a bs) = take n (drop a img)"
proof -
  let ?es = "gpt_entries esp root swap"
  let ?h = "header_sector 1 (tot - 1) 2 (tot - 34) (crc32 ?es)"
  let ?b = "header_sector (tot - 1) 1 (tot - 1 - 32) (tot - 34) (crc32 ?es)"
  have t1: "unat (tot - 1) = unat tot - 1" using T(2) by (simp add: unat_sub word_le_nat_alt)
  have t33: "unat (tot - 33) = unat tot - 33" using T(2) by (simp add: unat_sub word_le_nat_alt)
  define i1 where "i1 = splice img 1024 ?es"
  define i2 where "i2 = splice i1 ((unat tot - 33) * 512) ?es"
  define i3 where "i3 = splice i2 512 ?h"
  define i4 where "i4 = splice i3 ((unat tot - 1) * 512) ?b"
  have l1: "length i1 = length img" using T by (simp add: i1_def)
  have l2: "length i2 = length img" using T l1 by (simp add: i2_def)
  have l3: "length i3 = length img" using T l2 by (simp add: i3_def)
  have l4: "length i4 = length img" using T l3 by (simp add: i4_def)
  obtain m where m: "length m = 512" "write_protective_mbr i4 tot = (Ok (splice i4 0 m) :: (('io, 'fs) image_error, bytes) outcome)"
    using write_protective_mbr_eq [of i4 tot] T l4 by auto
  have w1: "write_at_lba img 2 ?es = (Ok i1 :: (('io, 'fs) image_error, bytes) outcome)" 
    using T by (subst write_at_lba_eq) (simp_all add: i1_def)
  have w2: "write_at_lba i1 (tot - 1 - 32) ?es = (Ok i2 :: (('io, 'fs) image_error, bytes) outcome)"
    using T l1 by (subst write_at_lba_eq) (simp_all add: i2_def t33)
  have w3: "write_at_lba i2 1 ?h = (Ok i3 :: (('io, 'fs) image_error, bytes) outcome)"
    using T l2 by (subst write_at_lba_eq) (simp_all add: i3_def)
  have w4: "write_at_lba i3 (tot - 1) ?b = (Ok i4 :: (('io, 'fs) image_error, bytes) outcome)"
    using T l3 by (subst write_at_lba_eq) (simp_all add: i4_def t1)
  have res: "write_gpt img esp root swap tot = (Ok (splice i4 0 m) :: (('io, 'fs) image_error, bytes) outcome)"
    using w1 w2 w3 w4 m(2)
    by (simp add: write_gpt_def Let_def GPT_ENTRY_SIZE_def GPT_ENTRY_COUNT_def GPT_ENTRIES_LBA_def write_header_def)
  have far: "512 + 512 \<le> (unat tot - 1) * 512" "1024 + 16384 \<le> (unat tot - 33) * 512"
    "1024 + 16384 \<le> (unat tot - 1) * 512" "(unat tot - 1) * 512 \<le> length img"
    "(unat tot - 33) * 512 \<le> length img" "(unat tot - 1) * 512 + 512 = length img"
    using T by simp_all
  have s1: "take n (drop a (splice i4 0 m)) = take n (drop a i4)" if "512 \<le> a" for a n
    using that m(1) by (intro slice_splice_above) simp_all
  have s4: "take n (drop a i4) = take n (drop a i3)" if "a + n \<le> (unat tot - 1) * 512" for a n
    unfolding i4_def by (rule slice_splice_below) (use that l3 far in simp_all)
  have s3: "take n (drop a i3) = take n (drop a i2)" if "1024 \<le> a" for a n
    unfolding i3_def by (rule slice_splice_above) (use that l2 far T in simp_all)
  have s2: "take n (drop a i2) = take n (drop a i1)" if "a + n \<le> (unat tot - 33) * 512" for a n
    unfolding i2_def by (rule slice_splice_below) (use that l1 far in simp_all)
  have s0: "take n (drop a i1) = take n (drop a img)" if "17408 \<le> a" for a n
    unfolding i1_def by (rule slice_splice_above) (use that T in simp_all)
  show ?thesis
  proof (rule that [OF res])
    show "length (splice i4 0 m) = length img" using l4 m T by simp
    have "take 512 (drop 512 i3) = ?h"
      unfolding i3_def using slice_splice_same [of 512 ?h i2] l2 T by simp
    then show "take 512 (drop 512 (splice i4 0 m)) = ?h" using s1 [of 512] s4 [of 512 512] far by simp
    have "take 16384 (drop 1024 i1) = ?es"
      unfolding i1_def using slice_splice_same [of 1024 ?es img] T by simp
    then show "take 16384 (drop 1024 (splice i4 0 m)) = ?es"
      using s1 [of 1024] s4 [of 1024 16384] s3 [of 1024] s2 [of 1024 16384] far by simp
    show "\<forall>a n. 17408 \<le> a \<and> a + n \<le> (unat tot - 33) * 512 \<longrightarrow>
        take n (drop a (splice i4 0 m)) = take n (drop a img)"
    proof (intro allI impI)
      fix a n assume a: "17408 \<le> a \<and> a + n \<le> (unat tot - 33) * 512"
      then have "a + n \<le> (unat tot - 1) * 512" by auto
      then show "take n (drop a (splice i4 0 m)) = take n (drop a img)"
        using a s0 [of a n] s2 [of a n] s3 [of a n] s4 [of a n] s1 [of a n] by simp
    qed
  qed
qed

section \<open>Reading the table back\<close>

text \<open>An image as the disk the reader sees.\<close>

definition image_reader :: "bytes \<Rightarrow> sector_reader" where
  "image_reader bs lba = get_range bs (unat lba * 512) (unat lba * 512 + 512)"

lemma image_reader_entries:
  assumes "take 16384 (drop 1024 bs) = es" "17408 \<le> length bs" "i < 32"
  shows "image_reader bs (2 + of_nat i) = Some (take 512 (drop (i * 512) es))"
proof -
  have "unat (2 + of_nat i :: u64) = 2 + i"
    using assms(3) by (subst unat_add_no_overflow) (simp_all add: unat_of_nat)
  then have "image_reader bs (2 + of_nat i) = Some (take 512 (drop (1024 + i * 512) bs))"
    using assms(2,3) by (simp add: image_reader_def get_range_def algebra_simps)
  also have "take 512 (drop (1024 + i * 512) bs) = take 512 (drop (i * 512) (take 16384 (drop 1024 bs)))"
    using assms(3) by (simp add: drop_take min_def add.commute)
  finally show ?thesis by (simp add: assms(1))
qed

lemma discover_table:
  fixes es bs bak lu
  defines "h \<equiv> header_sector 1 bak 2 lu (crc32 es)"
  assumes hdr: "take 512 (drop 512 bs) = h" and es: "take 16384 (drop 1024 bs) = es"
    and len: "17408 \<le> length bs" and ok: "1 < bak" "34 \<le> lu"
  shows "discover_vanta_root (image_reader bs) = select_partition (layout_of h) (first_entry (layout_of h) es VANTA_ROOT_TYPE_GUID 0 128)"
    and "discover_vanta_swap (image_reader bs) = select_partition (layout_of h) (first_entry (layout_of h) es VANTA_SWAP_TYPE_GUID 0 128)"
proof -
  have r1: "image_reader bs 1 = Some h" using hdr len by (simp add: image_reader_def get_range_def)
  have hok: "header_ok h" unfolding h_def by (rule header_sector_ok [OF ok])
  then have p: "parse_header h = Ok (layout_of h)" by (simp add: parse_header_eq)
  have L: "entry_bytes (layout_of h) = 32 * 512" "entry_lba (layout_of h) = 2" "entry_count (layout_of h) = 128"
    "entries_crc (layout_of h) = crc32 es"
    by (simp_all add: h_def header_sector_layout)
  have les: "length es = 32 * 512" using arg_cong [OF es, of length] len by simp
  have rd: "read_entries (image_reader bs) (div_ceil (entry_bytes (layout_of h)) SECTOR_SIZE) 0 (layout_of h)
      (replicate (entry_bytes (layout_of h)) 0) = Ok es"
    by (rule read_entries_all) (use image_reader_entries [OF es len] L les in auto)
  have big: "\<not> entry_bytes (layout_of h) > ISIZE_MAX" by (simp add: L ISIZE_MAX_def)
  have f: "find_vanta_partition h es g = select_partition (layout_of h) (first_entry (layout_of h) es g 0 128)" for g
    by (simp add: find_vanta_partition_ok [OF hok] L les)
  show "discover_vanta_root (image_reader bs) = select_partition (layout_of h) (first_entry (layout_of h) es VANTA_ROOT_TYPE_GUID 0 128)"
    using big by (simp add: discover_vanta_root_def r1 p rd find_vanta_root_def f)
  show "discover_vanta_swap (image_reader bs) = select_partition (layout_of h) (first_entry (layout_of h) es VANTA_SWAP_TYPE_GUID 0 128)"
    using big by (simp add: discover_vanta_swap_def r1 p rd find_vanta_swap_def f)
qed

definition in_usable :: "u64 \<Rightarrow> root_partition \<Rightarrow> bool" where
  "in_usable lu p \<longleftrightarrow> 34 \<le> start_lba p \<and> start_lba p \<le> end_lba p \<and> end_lba p \<le> lu"

lemma discover_written:
  assumes hdr: "take 512 (drop 512 bs) = header_sector 1 bak 2 lu (crc32 (gpt_entries esp root swap))"
    and es: "take 16384 (drop 1024 bs) = gpt_entries esp root swap"
    and len: "17408 \<le> length bs" and ok: "1 < bak" "34 \<le> lu"
    and us: "in_usable lu root" "\<And>s. swap = Some s \<Longrightarrow> in_usable lu s"
  shows "discover_vanta_root (image_reader bs) = Ok root"
    and "discover_vanta_swap (image_reader bs) = (case swap of Some s \<Rightarrow> Ok s | None \<Rightarrow> Err MissingRoot)"
  using us
  by (auto simp: discover_table [OF hdr es len ok] first_entry_gpt header_sector_layout select_partition_def
      usable_def in_usable_def guid_lengths split: option.splits)

section \<open>The layout of a built image\<close>

lemma checked_sum_Ok: "checked_sum a b = Ok c \<longleftrightarrow> unat a + unat b < 2 ^ 64 \<and> c = a + b"
  by (auto simp: checked_sum_def checked_add_def)

text \<open>The arithmetic of the layout, in sectors: ESP from 2048, the root after it, the optional swap after
  that, 33 sectors for the backup table.\<close>

definition layout_ok :: "image_options \<Rightarrow> built_image \<Rightarrow> nat \<Rightarrow> bool" where
  "layout_ok opt img t \<longleftrightarrow>
     unat (start_lba (img_esp img)) = 2048 \<and>
     unat (end_lba (img_esp img)) + 1 = 2048 + unat (esp_sectors opt) \<and>
     unat (start_lba (img_root img)) = unat (end_lba (img_esp img)) + 1 \<and>
     unat (end_lba (img_root img)) = unat (end_lba (img_esp img)) + unat (root_sectors opt) \<and>
     (case img_swap img of
        None \<Rightarrow> swap_sectors opt = 0 \<and> t = unat (end_lba (img_root img)) + 34
      | Some s \<Rightarrow> 0 < swap_sectors opt \<and> unat (start_lba s) = unat (end_lba (img_root img)) + 1 \<and>
          unat (end_lba s) = unat (end_lba (img_root img)) + unat (swap_sectors opt) \<and>
          t = unat (end_lba s) + 34) \<and>
     0 < esp_sectors opt \<and> 0 < root_sectors opt \<and> t * 512 < 2 ^ 63"

lemma checked_sum_unat: "checked_sum a b = Ok c \<Longrightarrow> unat c = unat a + unat b"
  by (auto simp: checked_sum_Ok unat_add_no_overflow)

lemma build_image_steps:
  fixes be br :: "u64 \<Rightarrow> (('a, 'b) image_error, bytes) outcome"
  assumes "build_image be br opt = Ok img"
  shows "\<exists>esp_end root_start root_end swap tot len eb rb b1 b2.
    checked_sum 2048 (esp_sectors opt - 1) = (Ok esp_end :: (('a, 'b) image_error, u64) outcome) \<and>
    checked_sum esp_end 1 = (Ok root_start :: (('a, 'b) image_error, u64) outcome) \<and>
    checked_sum esp_end (root_sectors opt) = (Ok root_end :: (('a, 'b) image_error, u64) outcome) \<and>
    swap_layout opt root_end = (Ok swap :: (('a, 'b) image_error, root_partition option) outcome) \<and>
    checked_sum (case swap of Some s \<Rightarrow> end_lba s | None \<Rightarrow> root_end) 34 = (Ok tot :: (('a, 'b) image_error, u64) outcome) \<and>
    checked_mul tot 512 = Some len \<and> unat len \<le> ISIZE_MAX \<and>
    be (esp_sectors opt) = Ok eb \<and> br (root_sectors opt) = Ok rb \<and>
    copy_partition (replicate (unat len) 0) (img_esp img) eb = (Ok b1 :: (('a, 'b) image_error, bytes) outcome) \<and>
    copy_partition b1 (img_root img) rb = (Ok b2 :: (('a, 'b) image_error, bytes) outcome) \<and>
    write_gpt b2 (img_esp img) (img_root img) (img_swap img) tot = (Ok (img_bytes img) :: (('a, 'b) image_error, bytes) outcome) \<and>
    img_esp img = \<lparr>start_lba = 2048, end_lba = esp_end\<rparr> \<and>
    img_root img = \<lparr>start_lba = root_start, end_lba = root_end\<rparr> \<and> img_swap img = swap"
  using assms unfolding build_image_def
  apply (simp only: and_then_Ok guard_Ok ok_or_Ok outcome.inject Let_def ESP_START_LBA_def not_less)
  apply (elim exE conjE)
  apply hypsubst
  apply (simp only: built_image.select_convs)
  apply (intro exI conjI)
  apply (assumption | rule refl)+
  done

lemma build_image_parts:
  fixes be br :: "u64 \<Rightarrow> (('a, 'b) image_error, bytes) outcome"
  assumes "build_image be br opt = Ok img"
  obtains tot eb rb b1 b2 where "layout_ok opt img (unat tot)"
    "be (esp_sectors opt) = Ok eb" "br (root_sectors opt) = Ok rb"
    "copy_partition (replicate (unat tot * 512) 0) (img_esp img) eb = (Ok b1 :: (('a, 'b) image_error, bytes) outcome)"
    "copy_partition b1 (img_root img) rb = (Ok b2 :: (('a, 'b) image_error, bytes) outcome)"
    "write_gpt b2 (img_esp img) (img_root img) (img_swap img) tot = (Ok (img_bytes img) :: (('a, 'b) image_error, bytes) outcome)"
proof -
  have pos: "0 < esp_sectors opt" "0 < root_sectors opt"
    using assms by (auto simp: build_image_def word_gt_0 split: if_splits)
  then have "0 < unat (esp_sectors opt)" by (simp add: word_less_nat_alt)
  then have e1: "unat (esp_sectors opt - 1) + 1 = unat (esp_sectors opt)"
    by (simp add: unat_sub word_le_nat_alt)
  from build_image_steps [OF assms] obtain esp_end root_start root_end swap tot len eb rb b1 b2 where
    1: "checked_sum 2048 (esp_sectors opt - 1) = (Ok esp_end :: (('a, 'b) image_error, u64) outcome)"
      "checked_sum esp_end 1 = (Ok root_start :: (('a, 'b) image_error, u64) outcome)"
      "checked_sum esp_end (root_sectors opt) = (Ok root_end :: (('a, 'b) image_error, u64) outcome)"
    and 2: "swap_layout opt root_end = (Ok swap :: (('a, 'b) image_error, root_partition option) outcome)"
    and 3: "checked_sum (case swap of Some s \<Rightarrow> end_lba s | None \<Rightarrow> root_end) 34 = (Ok tot :: (('a, 'b) image_error, u64) outcome)"
      "checked_mul tot 512 = Some len" "unat len \<le> ISIZE_MAX"
    and 4: "be (esp_sectors opt) = Ok eb" "br (root_sectors opt) = Ok rb"
      "copy_partition (replicate (unat len) 0) (img_esp img) eb = (Ok b1 :: (('a, 'b) image_error, bytes) outcome)"
      "copy_partition b1 (img_root img) rb = (Ok b2 :: (('a, 'b) image_error, bytes) outcome)"
      "write_gpt b2 (img_esp img) (img_root img) (img_swap img) tot = (Ok (img_bytes img) :: (('a, 'b) image_error, bytes) outcome)"
      "img_esp img = \<lparr>start_lba = 2048, end_lba = esp_end\<rparr>" "img_root img = \<lparr>start_lba = root_start, end_lba = root_end\<rparr>"
      "img_swap img = swap"
    by metis
  have len: "unat len = unat tot * 512" using conjunct1 [OF checked_mul_Some [OF 3(2)]] by simp
  note n = 1 [THEN checked_sum_unat] 3(1) [THEN checked_sum_unat]
  have "layout_ok opt img (unat tot)"
  proof (cases swap)
    case None
    then have "swap_sectors opt = 0" using 2 by (auto simp: swap_layout_def and_then_Ok word_gt_0 split: if_splits)
    then show ?thesis
      using None n e1 pos len 3(3) by (simp add: layout_ok_def 4 ISIZE_MAX_def)
  next
    case (Some s)
    then have "0 < swap_sectors opt" "unat (start_lba s) = unat root_end + 1"
      "unat (end_lba s) = unat root_end + unat (swap_sectors opt)"
      using 2 by (auto simp: swap_layout_def and_then_Ok dest!: checked_sum_unat split: if_splits)
    then show ?thesis using Some n e1 pos len 3(3) by (simp add: layout_ok_def 4 ISIZE_MAX_def)
  qed
  with 4 len that show ?thesis by simp
qed

lemma partition_bounds_eq:
  assumes "unat (start_lba p) \<le> unat (end_lba p)" "(unat (end_lba p) + 1) * 512 < 2 ^ 64"
  shows "partition_bounds p = (unat (start_lba p) * 512, (unat (end_lba p) + 1) * 512)"
proof -
  have e1: "unat (end_lba p + 1) = unat (end_lba p) + 1"
    using assms(2) by (subst unat_add_no_overflow) simp_all
  have "unat ((end_lba p + 1) * 512) = unat (end_lba p + 1) * unat (512 :: u64)"
    using assms(2) e1 by (subst unat_mult_lem [THEN iffD1]) simp_all
  moreover have "unat (start_lba p * 512) = unat (start_lba p) * unat (512 :: u64)"
    using assms by (subst unat_mult_lem [THEN iffD1]) simp_all
  ultimately show ?thesis by (simp add: partition_bounds_def e1)
qed

lemma copy_partition_Ok:
  assumes "copy_partition img p bs = Ok img'"
    and "unat (start_lba p) \<le> unat (end_lba p)" "(unat (end_lba p) + 1) * 512 < 2 ^ 64"
  shows "length bs = (unat (end_lba p) + 1 - unat (start_lba p)) * 512"
    and "(unat (end_lba p) + 1) * 512 \<le> length img"
    and "img' = splice img (unat (start_lba p) * 512) bs" and "length img' = length img"
proof -
  have g: "(unat (end_lba p) + 1) * 512 \<le> length img"
    "length bs = (unat (end_lba p) + 1) * 512 - unat (start_lba p) * 512"
    "img' = splice img (unat (start_lba p) * 512) bs"
    using assms(1)
    by (auto simp: copy_partition_def partition_bytes_def partition_bounds_eq [OF assms(2,3)] get_range_Some
        split: option.splits if_splits)
  then show "(unat (end_lba p) + 1) * 512 \<le> length img"
    "length bs = (unat (end_lba p) + 1 - unat (start_lba p)) * 512"
    "img' = splice img (unat (start_lba p) * 512) bs" by (simp_all add: diff_mult_distrib)
  show "length img' = length img" using g assms(2) by simp
qed

text \<open>The bytes of a built image: both copies survive the table writer.\<close>

lemma build_image_bytes:
  fixes be br :: "u64 \<Rightarrow> (('a, 'b) image_error, bytes) outcome"
  assumes "build_image be br opt = Ok img"
  obtains tot eb rb where "layout_ok opt img (unat tot)"
    "be (esp_sectors opt) = Ok eb" "br (root_sectors opt) = Ok rb" "length (img_bytes img) = unat tot * 512"
    "take 512 (drop 512 (img_bytes img)) =
       header_sector 1 (tot - 1) 2 (tot - 34) (crc32 (gpt_entries (img_esp img) (img_root img) (img_swap img)))"
    "take 16384 (drop 1024 (img_bytes img)) = gpt_entries (img_esp img) (img_root img) (img_swap img)"
    "esp_bytes img = Some eb" "root_bytes img = Some rb"
proof -
  obtain tot eb rb b1 b2 where lay: "layout_ok opt img (unat tot)"
    and parts: "be (esp_sectors opt) = Ok eb" "br (root_sectors opt) = Ok rb"
    and copies: "copy_partition (replicate (unat tot * 512) 0) (img_esp img) eb = (Ok b1 :: (('a, 'b) image_error, bytes) outcome)"
      "copy_partition b1 (img_root img) rb = (Ok b2 :: (('a, 'b) image_error, bytes) outcome)"
    and gpt: "write_gpt b2 (img_esp img) (img_root img) (img_swap img) tot = (Ok (img_bytes img) :: (('a, 'b) image_error, bytes) outcome)"
    by (rule build_image_parts [OF assms])
  let ?E = "unat (end_lba (img_esp img))" let ?R = "unat (end_lba (img_root img))"
  have nat: "unat (start_lba (img_esp img)) = 2048" "2048 \<le> ?E" "unat (start_lba (img_root img)) = ?E + 1"
    "?E + 1 \<le> ?R" "?R + 34 \<le> unat tot" "unat tot * 512 < 2 ^ 63"
    using lay by (auto simp: layout_ok_def word_less_nat_alt split: option.splits)
  then have b: "(?E + 1) * 512 < 2 ^ 64" "(?R + 1) * 512 < 2 ^ 64" by simp_all
  have le: "unat (start_lba (img_esp img)) \<le> ?E" "unat (start_lba (img_root img)) \<le> ?R" using nat by simp_all
  note c1 = copy_partition_Ok [OF copies(1) le(1) b(1)] and c2 = copy_partition_Ok [OF copies(2) le(2) b(2)]
  have len: "length b2 = unat tot * 512" using c1(4) c2(4) by simp
  have pre: "unat tot * 512 = length b2" "67 \<le> unat tot" "length b2 < 2 ^ 64" using len nat by simp_all
  obtain bs where w: "write_gpt b2 (img_esp img) (img_root img) (img_swap img) tot = (Ok bs :: (('a, 'b) image_error, bytes) outcome)"
    "length bs = length b2"
    "take 512 (drop 512 bs) = header_sector 1 (tot - 1) 2 (tot - 34) (crc32 (gpt_entries (img_esp img) (img_root img) (img_swap img)))"
    "take 16384 (drop 1024 bs) = gpt_entries (img_esp img) (img_root img) (img_swap img)"
    and keep: "\<forall>a n. 17408 \<le> a \<and> a + n \<le> (unat tot - 33) * 512 \<longrightarrow> take n (drop a bs) = take n (drop a b2)"
    by (rule write_gpt_spec [where 'io = 'a and 'fs = 'b, OF pre, where esp = "img_esp img" and root = "img_root img" and swap = "img_swap img"])
  have [simp]: "bs = img_bytes img" using w(1) gpt by simp
  have eb: "take (length eb) (drop (2048 * 512) (img_bytes img)) = eb"
    using keep [rule_format, of "2048 * 512" "length eb"] c1 c2 nat slice_splice_same [of "2048 * 512" eb "replicate (unat tot * 512) 0"]
      slice_splice_below [of "2048 * 512" "length eb" "(?E + 1) * 512" b1 rb] by simp
  have rb: "take (length rb) (drop ((?E + 1) * 512) (img_bytes img)) = rb"
    using keep [rule_format, of "(?E + 1) * 512" "length rb"] c1 c2 nat slice_splice_same [of "(?E + 1) * 512" rb b1] by simp
  have "esp_bytes img = Some eb" "root_bytes img = Some rb"
    using eb rb c1(1,2,4) c2(1,2,4) nat w(2)
    by (simp_all add: esp_bytes_def root_bytes_def partition_bytes_def partition_bounds_eq [OF le(1) b(1)]
        partition_bounds_eq [OF le(2) b(2)] get_range_def diff_mult_distrib)
  then show ?thesis using that [OF lay parts] w len by simp
qed

section \<open>Properties\<close>

text \<open>C9. Image round trip.  On every image \<open>build_image\<close> produces, whatever the file-system libraries
  returned, the boot-time reader finds the root partition the builder laid out, finds the swap partition
  exactly when one was requested, and the two file-system images stand unchanged in their partitions.\<close>

theorem build_image_roundtrip:
  assumes "build_image be br opt = Ok img"
  shows "discover_vanta_root (image_reader (img_bytes img)) = Ok (img_root img) \<and>
    discover_vanta_swap (image_reader (img_bytes img)) =
      (case img_swap img of Some s \<Rightarrow> Ok s | None \<Rightarrow> Err MissingRoot) \<and>
    (img_swap img = None \<longleftrightarrow> swap_sectors opt = 0) \<and>
    (\<exists>eb rb. be (esp_sectors opt) = Ok eb \<and> br (root_sectors opt) = Ok rb \<and>
      esp_bytes img = Some eb \<and> root_bytes img = Some rb)"
proof -
  obtain tot eb rb where img: "layout_ok opt img (unat tot)"
    "be (esp_sectors opt) = Ok eb" "br (root_sectors opt) = Ok rb" "length (img_bytes img) = unat tot * 512"
    "take 512 (drop 512 (img_bytes img)) =
       header_sector 1 (tot - 1) 2 (tot - 34) (crc32 (gpt_entries (img_esp img) (img_root img) (img_swap img)))"
    "take 16384 (drop 1024 (img_bytes img)) = gpt_entries (img_esp img) (img_root img) (img_swap img)"
    "esp_bytes img = Some eb" "root_bytes img = Some rb"
    by (rule build_image_bytes [OF assms])
  have big: "2049 + 34 \<le> unat tot" "17408 \<le> length (img_bytes img)"
    using img(1,4) by (auto simp: layout_ok_def word_less_nat_alt split: option.splits)
  then have u: "unat (tot - 1) = unat tot - 1" "unat (tot - 34) = unat tot - 34"
    by (simp_all add: unat_sub word_le_nat_alt)
  then have ok: "1 < tot - 1" "34 \<le> tot - 34" using big by (simp_all add: word_less_nat_alt word_le_nat_alt)
  have us: "in_usable (tot - 34) (img_root img)" "\<And>s. img_swap img = Some s \<Longrightarrow> in_usable (tot - 34) s"
    using img(1) u by (auto simp: layout_ok_def in_usable_def word_le_nat_alt word_less_nat_alt split: option.splits)
  have "img_swap img = None \<longleftrightarrow> swap_sectors opt = 0" using img(1) by (auto simp: layout_ok_def split: option.splits)
  with discover_written [OF img(5,6) big(2) ok us] img(2,3,7,8) show ?thesis by blast
qed

lemma checked_sum_eq: "unat a + unat b < 2 ^ 64 \<Longrightarrow> checked_sum a b = Ok (a + b)"
  by (simp add: checked_sum_Ok)

lemma copy_partition_eq:
  assumes "unat (start_lba p) \<le> unat (end_lba p)" "(unat (end_lba p) + 1) * 512 < 2 ^ 64"
    and "(unat (end_lba p) + 1) * 512 \<le> length img"
    and "length bs = (unat (end_lba p) + 1 - unat (start_lba p)) * 512"
  shows "copy_partition img p bs = Ok (splice img (unat (start_lba p) * 512) bs)"
  using assms(1,3,4)
  by (simp add: copy_partition_def partition_bytes_def partition_bounds_eq [OF assms(1,2)] get_range_def
      diff_mult_distrib)

text \<open>The size of the image in sectors.\<close>

definition image_sectors :: "image_options \<Rightarrow> nat" where
  "image_sectors opt = 2047 + unat (esp_sectors opt) + unat (root_sectors opt) + unat (swap_sectors opt) + 34"

lemma swap_layout_eq:
  assumes "unat r + 1 < 2 ^ 64" "unat r + unat (swap_sectors opt) < 2 ^ 64"
  shows "swap_layout opt r = Ok (if swap_sectors opt = 0 then None
    else Some \<lparr>start_lba = r + 1, end_lba = r + swap_sectors opt\<rparr>)"
  using assms by (simp add: swap_layout_def checked_sum_eq word_gt_0)

lemma build_image_total:
  fixes be br :: "u64 \<Rightarrow> (('a, 'b) image_error, bytes) outcome"
  assumes pos: "0 < esp_sectors opt" "0 < root_sectors opt" "root_sectors opt mod 8 = 0"
    and fits: "image_sectors opt * 512 < 2 ^ 63"
    and eb: "be (esp_sectors opt) = Ok eb" "length eb = unat (esp_sectors opt) * 512"
    and rb: "br (root_sectors opt) = Ok rb" "length rb = unat (root_sectors opt) * 512"
  shows "\<exists>img. build_image be br opt = Ok img"
proof -
  define E where "E = 2048 + (esp_sectors opt - 1)"
  define R where "R = E + root_sectors opt"
  define S where "S = (if swap_sectors opt = 0 then None else Some \<lparr>start_lba = R + 1, end_lba = R + swap_sectors opt\<rparr>)"
  define L where "L = (case S of Some s \<Rightarrow> end_lba s | None \<Rightarrow> R)"
  have p: "0 < unat (esp_sectors opt)" "0 < unat (root_sectors opt)" using pos by (simp_all add: word_less_nat_alt)
  have e1: "unat (esp_sectors opt - 1) = unat (esp_sectors opt) - 1" using p by (simp add: unat_sub word_le_nat_alt)
  have f: "2047 + unat (esp_sectors opt) + unat (root_sectors opt) + unat (swap_sectors opt) + 34 < 2 ^ 54"
    using fits by (simp add: image_sectors_def)
  have E: "unat E = 2047 + unat (esp_sectors opt)"
    unfolding E_def using f e1 p by (subst unat_add_no_overflow) simp_all
  have R: "unat R = unat E + unat (root_sectors opt)"
    unfolding R_def using f E by (subst unat_add_no_overflow) simp_all
  have L: "unat L = unat R + unat (swap_sectors opt)"
    using f E R by (simp add: L_def S_def unat_add_no_overflow)
  define tot where "tot = L + 34"
  define len where "len = tot * 512"
  have T: "unat tot = unat L + 34" unfolding tot_def using f E R L by (subst unat_add_no_overflow) simp_all
  have nov: "unat tot * unat (512 :: u64) < 2 ^ 64" using f E R L T by simp
  have M: "checked_mul tot 512 = Some len" "unat len = unat tot * 512"
    using nov unat_mult_lem [of tot 512] by (simp_all add: checked_mul_def len_def)
  have E': "unat (E + 1) = unat E + 1" using f E by (subst unat_add_no_overflow) simp_all
  let ?b0 = "replicate (unat len) 0"
  let ?esp = "\<lparr>start_lba = 2048, end_lba = E\<rparr>" and ?root = "\<lparr>start_lba = E + 1, end_lba = R\<rparr>"
  define b1 where "b1 = splice ?b0 (2048 * 512) eb"
  define b2 where "b2 = splice b1 (unat (E + 1) * 512) rb"
  have c1: "copy_partition ?b0 ?esp eb = (Ok b1 :: (('a, 'b) image_error, bytes) outcome)"
    using f E R L T M eb p by (subst copy_partition_eq) (simp_all add: b1_def)
  have l1: "length b1 = unat len" unfolding b1_def using f E R L T M eb p by simp
  have c2: "copy_partition b1 ?root rb = (Ok b2 :: (('a, 'b) image_error, bytes) outcome)"
    using f E R L T M rb p E' l1 by (subst copy_partition_eq) (simp_all add: b2_def)
  have l2: "length b2 = unat len" unfolding b2_def using f E R L T M l1 rb p E' by simp
  have pre: "unat tot * 512 = length b2" "67 \<le> unat tot" "length b2 < 2 ^ 64"
    using l2 f E R L T M by simp_all
  obtain bs where w: "write_gpt b2 ?esp ?root S tot = (Ok bs :: (('a, 'b) image_error, bytes) outcome)"
    by (rule write_gpt_spec [OF pre])
  have "build_image be br opt = Ok \<lparr>img_bytes = bs, img_esp = ?esp, img_root = ?root, img_swap = S\<rparr>"
  proof -
    have "checked_sum 2048 (esp_sectors opt - 1) = (Ok E :: (('a, 'b) image_error, u64) outcome)"
      "checked_sum E 1 = (Ok (E + 1) :: (('a, 'b) image_error, u64) outcome)"
      "checked_sum E (root_sectors opt) = (Ok R :: (('a, 'b) image_error, u64) outcome)"
      "checked_sum L 34 = (Ok tot :: (('a, 'b) image_error, u64) outcome)"
      using f E R L e1 p by (simp_all add: checked_sum_eq E_def R_def tot_def)
    moreover have "swap_layout opt R = (Ok S :: (('a, 'b) image_error, root_partition option) outcome)"
      unfolding S_def using f E R by (intro swap_layout_eq) simp_all
    moreover have "\<not> unat len > ISIZE_MAX" using f E R L T M by (simp add: ISIZE_MAX_def)
    ultimately show ?thesis
      using pos c1 c2 w M(1) eb rb
      by (simp add: build_image_def ESP_START_LBA_def BLOCK_SIZE_def Let_def word_gt_0 flip: L_def)
  qed
  then show ?thesis by blast
qed
definition demo_options :: image_options where
  "demo_options = \<lparr>esp_sectors = 1, root_sectors = 8, swap_sectors = 4\<rparr>"

definition demo_fs :: "u64 \<Rightarrow> ((unit, unit) image_error, bytes) outcome" where
  "demo_fs n = Ok (replicate (unat n * 512) 7)"

theorem build_image_roundtrip_witness:
  "\<exists>img. build_image demo_fs demo_fs demo_options = Ok img \<and>
     discover_vanta_root (image_reader (img_bytes img)) = Ok (img_root img) \<and> img_swap img \<noteq> None"
proof -
  have "\<exists>img. build_image demo_fs demo_fs demo_options = Ok img"
    using build_image_total [of demo_options demo_fs "replicate 512 7" demo_fs "replicate 4096 7"]
    by (simp add: demo_options_def demo_fs_def image_sectors_def)
  then obtain img where img: "build_image demo_fs demo_fs demo_options = Ok img" by blast
  show ?thesis
    using img build_image_roundtrip [OF img] by (auto simp: demo_options_def)
qed

text \<open>Building succeeds.  When the partitions and both tables fit below \<open>isize::MAX\<close> bytes, the root size is
  a multiple of the RedoxFS block and the file-system libraries return images of the requested sizes,
  \<open>build_image\<close> returns an image: no overflow check, bounds check or slice on the way fails.\<close>

theorem build_image_succeeds:
  fixes be br :: "u64 \<Rightarrow> (('a, 'b) image_error, bytes) outcome"
  assumes "0 < esp_sectors opt" "0 < root_sectors opt" "root_sectors opt mod 8 = 0"
    and "image_sectors opt * 512 < 2 ^ 63"
    and "be (esp_sectors opt) = Ok eb" "length eb = unat (esp_sectors opt) * 512"
    and "br (root_sectors opt) = Ok rb" "length rb = unat (root_sectors opt) * 512"
  shows "\<exists>img. build_image be br opt = Ok img \<and> length (img_bytes img) = image_sectors opt * 512"
proof -
  obtain img where img: "build_image be br opt = Ok img" using build_image_total [of opt be eb br rb] assms by blast
  obtain tot :: u64 where "layout_ok opt img (unat tot)" "length (img_bytes img) = unat tot * 512"
    by (rule build_image_bytes [OF img])
  then have "length (img_bytes img) = image_sectors opt * 512"
    using assms(1) by (auto simp: layout_ok_def image_sectors_def word_less_nat_alt split: option.splits)
  with img show ?thesis by blast
qed

theorem build_image_succeeds_witness:
  "\<exists>img. build_image demo_fs demo_fs demo_options = Ok img \<and> length (img_bytes img) = 2094 * 512"
  using build_image_succeeds [of demo_options demo_fs "replicate 512 7" demo_fs "replicate 4096 7"]
  by (simp add: demo_options_def demo_fs_def image_sectors_def)

end
