(* ===== verification/Linuxd.thy ===== *)
theory Linuxd
  imports Abi
begin

text \<open>
  The Linux personality (\<open>rust/linuxd/src/lib.rs\<close>): the translation of Linux system-call
  numbers, the broker that decides between a native call and a process primitive, and the
  parser of static ELF files.  A \<open>&str\<close> is its bytes; \<open>core::str::from_utf8\<close> is modelled by
  the well-formedness table of UTF-8.
\<close>

section \<open>Operations\<close>

text \<open>\<open>LinuxOp\<close>, an enumeration of 135 plain variants and one with a payload.  A plain variant is its
  position in the source (which is also its discriminant), named by an abbreviation.\<close>

datatype linux_op = Variant nat | Op_Unsupported u64

abbreviation "Op_Read \<equiv> Variant 0"
abbreviation "Op_Write \<equiv> Variant 1"
abbreviation "Op_Open \<equiv> Variant 2"
abbreviation "Op_Close \<equiv> Variant 3"
abbreviation "Op_Stat \<equiv> Variant 4"
abbreviation "Op_FStat \<equiv> Variant 5"
abbreviation "Op_LStat \<equiv> Variant 6"
abbreviation "Op_LSeek \<equiv> Variant 7"
abbreviation "Op_GetDents \<equiv> Variant 8"
abbreviation "Op_GetDents64 \<equiv> Variant 9"
abbreviation "Op_MMap \<equiv> Variant 10"
abbreviation "Op_MProtect \<equiv> Variant 11"
abbreviation "Op_MUnmap \<equiv> Variant 12"
abbreviation "Op_Brk \<equiv> Variant 13"
abbreviation "Op_Pipe \<equiv> Variant 14"
abbreviation "Op_Pipe2 \<equiv> Variant 15"
abbreviation "Op_Dup \<equiv> Variant 16"
abbreviation "Op_Dup2 \<equiv> Variant 17"
abbreviation "Op_Dup3 \<equiv> Variant 18"
abbreviation "Op_Fcntl \<equiv> Variant 19"
abbreviation "Op_Fsync \<equiv> Variant 20"
abbreviation "Op_Fdatasync \<equiv> Variant 21"
abbreviation "Op_Sync \<equiv> Variant 22"
abbreviation "Op_Ioctl \<equiv> Variant 23"
abbreviation "Op_Readv \<equiv> Variant 24"
abbreviation "Op_Writev \<equiv> Variant 25"
abbreviation "Op_Access \<equiv> Variant 26"
abbreviation "Op_FAccessAt \<equiv> Variant 27"
abbreviation "Op_GetPid \<equiv> Variant 28"
abbreviation "Op_GetPPid \<equiv> Variant 29"
abbreviation "Op_GetUid \<equiv> Variant 30"
abbreviation "Op_GetGid \<equiv> Variant 31"
abbreviation "Op_GetEUid \<equiv> Variant 32"
abbreviation "Op_GetEGid \<equiv> Variant 33"
abbreviation "Op_SetPGid \<equiv> Variant 34"
abbreviation "Op_GetPGrp \<equiv> Variant 35"
abbreviation "Op_SetSid \<equiv> Variant 36"
abbreviation "Op_GetSid \<equiv> Variant 37"
abbreviation "Op_SetUid \<equiv> Variant 38"
abbreviation "Op_SetGid \<equiv> Variant 39"
abbreviation "Op_SetGroups \<equiv> Variant 40"
abbreviation "Op_GetGroups \<equiv> Variant 41"
abbreviation "Op_Prctl \<equiv> Variant 42"
abbreviation "Op_Personality \<equiv> Variant 43"
abbreviation "Op_Prlimit64 \<equiv> Variant 44"
abbreviation "Op_Uname \<equiv> Variant 45"
abbreviation "Op_GetCwd \<equiv> Variant 46"
abbreviation "Op_ChDir \<equiv> Variant 47"
abbreviation "Op_FChDir \<equiv> Variant 48"
abbreviation "Op_ReadLink \<equiv> Variant 49"
abbreviation "Op_ReadLinkAt \<equiv> Variant 50"
abbreviation "Op_ClockGetTime \<equiv> Variant 51"
abbreviation "Op_ClockSetTime \<equiv> Variant 52"
abbreviation "Op_ClockGetRes \<equiv> Variant 53"
abbreviation "Op_GetTimeOfDay \<equiv> Variant 54"
abbreviation "Op_GetITimer \<equiv> Variant 55"
abbreviation "Op_SetITimer \<equiv> Variant 56"
abbreviation "Op_Nanosleep \<equiv> Variant 57"
abbreviation "Op_RtSigAction \<equiv> Variant 58"
abbreviation "Op_RtSigProcMask \<equiv> Variant 59"
abbreviation "Op_RtSigReturn \<equiv> Variant 60"
abbreviation "Op_SigAltStack \<equiv> Variant 61"
abbreviation "Op_Socket \<equiv> Variant 62"
abbreviation "Op_Connect \<equiv> Variant 63"
abbreviation "Op_Accept \<equiv> Variant 64"
abbreviation "Op_Accept4 \<equiv> Variant 65"
abbreviation "Op_SendTo \<equiv> Variant 66"
abbreviation "Op_RecvFrom \<equiv> Variant 67"
abbreviation "Op_SendMsg \<equiv> Variant 68"
abbreviation "Op_RecvMsg \<equiv> Variant 69"
abbreviation "Op_Bind \<equiv> Variant 70"
abbreviation "Op_Listen \<equiv> Variant 71"
abbreviation "Op_GetSockName \<equiv> Variant 72"
abbreviation "Op_GetPeerName \<equiv> Variant 73"
abbreviation "Op_SetSockOpt \<equiv> Variant 74"
abbreviation "Op_GetSockOpt \<equiv> Variant 75"
abbreviation "Op_SocketPair \<equiv> Variant 76"
abbreviation "Op_Fork \<equiv> Variant 77"
abbreviation "Op_VFork \<equiv> Variant 78"
abbreviation "Op_Clone \<equiv> Variant 79"
abbreviation "Op_Clone3 \<equiv> Variant 80"
abbreviation "Op_ExecVe \<equiv> Variant 81"
abbreviation "Op_Exit \<equiv> Variant 82"
abbreviation "Op_ExitGroup \<equiv> Variant 83"
abbreviation "Op_Wait4 \<equiv> Variant 84"
abbreviation "Op_Kill \<equiv> Variant 85"
abbreviation "Op_TKill \<equiv> Variant 86"
abbreviation "Op_TgKill \<equiv> Variant 87"
abbreviation "Op_ArchPrctl \<equiv> Variant 88"
abbreviation "Op_SetTidAddress \<equiv> Variant 89"
abbreviation "Op_GetTid \<equiv> Variant 90"
abbreviation "Op_Futex \<equiv> Variant 91"
abbreviation "Op_SetRobustList \<equiv> Variant 92"
abbreviation "Op_Rseq \<equiv> Variant 93"
abbreviation "Op_GetRandom \<equiv> Variant 94"
abbreviation "Op_SchedGetAffinity \<equiv> Variant 95"
abbreviation "Op_SchedYield \<equiv> Variant 96"
abbreviation "Op_Poll \<equiv> Variant 97"
abbreviation "Op_PPoll \<equiv> Variant 98"
abbreviation "Op_Select \<equiv> Variant 99"
abbreviation "Op_PSelect6 \<equiv> Variant 100"
abbreviation "Op_EPollCreate \<equiv> Variant 101"
abbreviation "Op_EPollCreate1 \<equiv> Variant 102"
abbreviation "Op_EPollCtl \<equiv> Variant 103"
abbreviation "Op_EPollWait \<equiv> Variant 104"
abbreviation "Op_EPollPWait \<equiv> Variant 105"
abbreviation "Op_EventFd \<equiv> Variant 106"
abbreviation "Op_EventFd2 \<equiv> Variant 107"
abbreviation "Op_GetPriority \<equiv> Variant 108"
abbreviation "Op_SetPriority \<equiv> Variant 109"
abbreviation "Op_Sysinfo \<equiv> Variant 110"
abbreviation "Op_PRead64 \<equiv> Variant 111"
abbreviation "Op_PWrite64 \<equiv> Variant 112"
abbreviation "Op_SendFile \<equiv> Variant 113"
abbreviation "Op_Truncate \<equiv> Variant 114"
abbreviation "Op_FTruncate \<equiv> Variant 115"
abbreviation "Op_StatFs \<equiv> Variant 116"
abbreviation "Op_FStatFs \<equiv> Variant 117"
abbreviation "Op_SymLink \<equiv> Variant 118"
abbreviation "Op_SymLinkAt \<equiv> Variant 119"
abbreviation "Op_RtSigSuspend \<equiv> Variant 120"
abbreviation "Op_RtSigPending \<equiv> Variant 121"
abbreviation "Op_SignalFd4 \<equiv> Variant 122"
abbreviation "Op_WaitId \<equiv> Variant 123"
abbreviation "Op_Chmod \<equiv> Variant 124"
abbreviation "Op_FChmodAt \<equiv> Variant 125"
abbreviation "Op_Chown \<equiv> Variant 126"
abbreviation "Op_FChownAt \<equiv> Variant 127"
abbreviation "Op_UtimensAt \<equiv> Variant 128"
abbreviation "Op_MkDir \<equiv> Variant 129"
abbreviation "Op_MkDirAt \<equiv> Variant 130"
abbreviation "Op_Unlink \<equiv> Variant 131"
abbreviation "Op_UnlinkAt \<equiv> Variant 132"
abbreviation "Op_Mount \<equiv> Variant 133"
abbreviation "Op_UMount2 \<equiv> Variant 134"

section \<open>Translation and broker\<close>

text \<open>The arms of the \<open>match\<close> in \<open>translate\<close>, one row per number.\<close>

definition translation_table :: "(u64 \<times> linux_op \<times> syscall option) list" where
  "translation_table =
    [(0, Op_Read, Some SysRead), (1, Op_Write, Some SysWrite), (2, Op_Open, Some SysOpenAt),
     (257, Op_Open, Some SysOpenAt), (3, Op_Close, Some SysClose), (4, Op_Stat, Some SysFStat),
     (5, Op_FStat, Some SysFStat), (6, Op_LStat, Some SysFStat), (7, Op_Poll, None),
     (262, Op_FStat, Some SysFStat), (8, Op_LSeek, Some SysLSeek), (9, Op_MMap, Some SysMMap),
     (10, Op_MProtect, None), (11, Op_MUnmap, Some SysMUnmap), (12, Op_Brk, Some SysBrk),
     (13, Op_RtSigAction, Some SysSigAction), (14, Op_RtSigProcMask, None), (15, Op_RtSigReturn, None),
     (16, Op_Ioctl, Some SysTtyIoctl), (17, Op_PRead64, None), (18, Op_PWrite64, None),
     (19, Op_Readv, None), (20, Op_Writev, None), (21, Op_Access, None),
     (269, Op_Access, None), (439, Op_Access, None), (22, Op_Pipe, Some SysPipe2),
     (23, Op_Select, None), (24, Op_SchedYield, Some SysYield), (293, Op_Pipe2, Some SysPipe2),
     (32, Op_Dup, Some SysDup3), (33, Op_Dup2, Some SysDup3), (292, Op_Dup3, Some SysDup3),
     (35, Op_Nanosleep, None), (230, Op_Nanosleep, None), (36, Op_GetITimer, None),
     (38, Op_SetITimer, None), (39, Op_GetPid, Some SysGetPid), (40, Op_SendFile, None),
     (41, Op_Socket, Some SysSocket), (42, Op_Connect, Some SysConnect), (43, Op_Accept, None),
     (288, Op_Accept, None), (44, Op_SendTo, None), (45, Op_RecvFrom, None),
     (46, Op_SendMsg, None), (47, Op_RecvMsg, None), (49, Op_Bind, None),
     (50, Op_Listen, None), (51, Op_GetSockName, None), (52, Op_GetPeerName, None),
     (53, Op_SocketPair, None), (54, Op_SetSockOpt, None), (55, Op_GetSockOpt, None),
     (56, Op_Clone, None), (57, Op_Fork, None), (58, Op_VFork, None),
     (59, Op_ExecVe, Some SysExecVe), (60, Op_Exit, None), (61, Op_Wait4, None),
     (62, Op_Kill, Some SysKill), (63, Op_Uname, None), (72, Op_Fcntl, None),
     (74, Op_Fsync, None), (75, Op_Fdatasync, None), (76, Op_Truncate, None),
     (77, Op_FTruncate, None), (78, Op_GetDents, Some SysGetDents), (213, Op_EPollCreate, None),
     (217, Op_GetDents64, Some SysGetDents), (79, Op_GetCwd, None), (80, Op_ChDir, None),
     (81, Op_ChDir, None), (83, Op_MkDir, None), (87, Op_Unlink, None),
     (88, Op_SymLink, None), (89, Op_ReadLink, None), (90, Op_Chmod, None),
     (92, Op_Chown, None), (96, Op_GetTimeOfDay, None), (97, Op_Prlimit64, None),
     (99, Op_Sysinfo, None), (102, Op_GetUid, None), (107, Op_GetUid, None),
     (104, Op_GetGid, None), (108, Op_GetGid, None), (105, Op_SetUid, None),
     (113, Op_SetUid, None), (117, Op_SetUid, None), (122, Op_SetUid, None),
     (106, Op_SetGid, None), (114, Op_SetGid, None), (119, Op_SetGid, None),
     (123, Op_SetGid, None), (109, Op_SetPGid, None), (110, Op_GetPPid, Some SysGetPpid),
     (111, Op_GetPGrp, None), (121, Op_GetPGrp, None), (112, Op_SetSid, None),
     (115, Op_GetGroups, None), (118, Op_GetGroups, None), (120, Op_GetGroups, None),
     (116, Op_SetGroups, None), (124, Op_GetSid, None), (125, Op_GetUid, None),
     (126, Op_SetUid, None), (127, Op_RtSigPending, None), (130, Op_RtSigSuspend, None),
     (131, Op_SigAltStack, None), (135, Op_Personality, None), (137, Op_StatFs, None),
     (138, Op_FStatFs, None), (140, Op_GetPriority, None), (141, Op_SetPriority, None),
     (157, Op_Prctl, None), (158, Op_ArchPrctl, None), (160, Op_Prlimit64, None),
     (302, Op_Prlimit64, None), (162, Op_Sync, None), (165, Op_Mount, None),
     (166, Op_UMount2, None), (186, Op_GetTid, None), (200, Op_TKill, None),
     (202, Op_Futex, None), (204, Op_SchedGetAffinity, None), (218, Op_SetTidAddress, None),
     (227, Op_ClockSetTime, None), (228, Op_ClockGetTime, None), (229, Op_ClockGetRes, None),
     (231, Op_ExitGroup, None), (232, Op_EPollWait, None), (233, Op_EPollCtl, None),
     (234, Op_TgKill, None), (247, Op_WaitId, None), (258, Op_MkDirAt, None),
     (260, Op_FChownAt, None), (263, Op_UnlinkAt, None), (266, Op_SymLinkAt, None),
     (267, Op_ReadLinkAt, None), (268, Op_FChmodAt, None), (270, Op_PSelect6, None),
     (271, Op_PPoll, None), (273, Op_SetRobustList, None), (280, Op_UtimensAt, None),
     (281, Op_EPollPWait, None), (284, Op_EventFd, None), (289, Op_SignalFd4, None),
     (290, Op_EventFd2, None), (291, Op_EPollCreate1, None), (318, Op_GetRandom, None),
     (334, Op_Rseq, None), (435, Op_Clone3, None)]"

record translation =
  linux_number :: u64
  operation :: linux_op
  native :: "syscall option"

datatype unsupported_syscall = UnsupportedSyscall u64

definition translate :: "u64 \<Rightarrow> (unsupported_syscall, translation) outcome" where
  "translate number =
     (case map_of translation_table number of
        Some (oper, nat_call) \<Rightarrow> Ok \<lparr>linux_number = number, operation = oper, native = nat_call\<rparr>
      | None \<Rightarrow> Err (UnsupportedSyscall number))"

record linux_syscall_request =
  lreq_number :: u64
  lreq_args :: "u64 list"
  lreq_authority :: capability_id

datatype broker_decision =
    Native syscall "u64 list"
  | ProcessPrimitive linux_op
  | BrokerUnsupported u64

definition broker :: "linux_syscall_request \<Rightarrow> broker_decision" where
  "broker request =
     (case translate (lreq_number request) of
        Ok t \<Rightarrow>
          (case native t of
             Some syscall \<Rightarrow> Native syscall [lreq_args request ! 0, lreq_args request ! 1,
                                            lreq_args request ! 2, lreq_args request ! 3]
           | None \<Rightarrow> ProcessPrimitive (operation t))
      | _ \<Rightarrow> BrokerUnsupported (lreq_number request))"

section \<open>Static ELF files\<close>

definition is_static_elf_supported :: "bytes option \<Rightarrow> bool" where
  "is_static_elf_supported interp \<longleftrightarrow> interp = None"

datatype elf_error =
    TooSmall | NotX86_64 | UnsupportedType | InvalidProgramTable | DynamicInterpreter | NoLoadSegments

record load_segment =
  virtual_address :: u64
  file_offset :: u64
  file_size :: u64
  memory_size :: u64
  seg_flags :: u32

record static_elf =
  elf_entry :: u64
  segments :: "load_segment option list"
  segment_count :: nat
  interpreter_offset :: "u64 option"
  interpreter_size :: "u64 option"

definition elf_u16 :: "bytes \<Rightarrow> nat \<Rightarrow> u16 option" where
  "elf_u16 bs offset = map_option from_le (get_range bs offset (offset + 2))"

definition elf_u32 :: "bytes \<Rightarrow> nat \<Rightarrow> u32 option" where
  "elf_u32 bs offset = map_option from_le (get_range bs offset (offset + 4))"

definition elf_u64 :: "bytes \<Rightarrow> nat \<Rightarrow> u64 option" where
  "elf_u64 bs offset = map_option from_le (get_range bs offset (offset + 8))"

text \<open>\<open>offset.checked_add(size).filter(|end| *end <= len).is_none()\<close>\<close>

definition outside :: "u64 \<Rightarrow> u64 \<Rightarrow> nat \<Rightarrow> bool" where
  "outside off n len = (case checked_add off n of Some e \<Rightarrow> \<not> unat e \<le> len | None \<Rightarrow> True)"

text \<open>One round of the loop over the program headers, on the state (segments, count, interpreter).\<close>

type_synonym elf_state = "load_segment option list \<times> nat \<times> u64 option \<times> u64 option"

definition elf_header_step :: "bytes \<Rightarrow> nat \<Rightarrow> elf_state \<Rightarrow> (elf_error, elf_state) outcome" where
  "elf_header_step bs offset st =
     (case st of (segs, count, ioff, isize') \<Rightarrow>
      and_then (ok_or (elf_u32 bs offset) InvalidProgramTable) (\<lambda>kind.
      if kind = 3 then
        and_then (ok_or (elf_u64 bs (offset + 8)) InvalidProgramTable) (\<lambda>foff.
        and_then (ok_or (elf_u64 bs (offset + 32)) InvalidProgramTable) (\<lambda>fsize.
        if outside foff fsize (length bs) then Err InvalidProgramTable
        else Ok (segs, count, Some foff, Some fsize)))
      else if kind \<noteq> 1 then Ok st
      else
        and_then (ok_or (elf_u64 bs (offset + 8)) InvalidProgramTable) (\<lambda>foff.
        and_then (ok_or (elf_u64 bs (offset + 16)) InvalidProgramTable) (\<lambda>vaddr.
        and_then (ok_or (elf_u64 bs (offset + 32)) InvalidProgramTable) (\<lambda>fsize.
        and_then (ok_or (elf_u64 bs (offset + 40)) InvalidProgramTable) (\<lambda>msize.
        and_then (ok_or (elf_u32 bs (offset + 4)) InvalidProgramTable) (\<lambda>fl.
        if msize < fsize \<or> outside foff fsize (length bs) then Err InvalidProgramTable
        else if count < length segs
        then Ok (segs[count := Some \<lparr>virtual_address = vaddr, file_offset = foff, file_size = fsize,
                                      memory_size = msize, seg_flags = fl\<rparr>], count + 1, ioff, isize')
        else Panic)))))))"

primrec elf_headers :: "nat \<Rightarrow> nat \<Rightarrow> bytes \<Rightarrow> nat \<Rightarrow> nat \<Rightarrow> elf_state \<Rightarrow> (elf_error, elf_state) outcome" where
  "elf_headers 0 index bs phoff phentsize st = Ok st"
| "elf_headers (Suc n) index bs phoff phentsize st =
     and_then (elf_header_step bs (phoff + index * phentsize) st)
       (elf_headers n (Suc index) bs phoff phentsize)"

definition StaticElf_parse :: "bytes \<Rightarrow> (elf_error, static_elf) outcome" where
  "StaticElf_parse bs =
     (if length bs < 64 \<or> take 4 bs \<noteq> [0x7f, 0x45, 0x4c, 0x46] \<or> bs ! 4 \<noteq> 2 \<or> bs ! 5 \<noteq> 1 then Err NotX86_64
      else
        and_then (ok_or (elf_u16 bs 16) TooSmall) (\<lambda>elf_type.
        if elf_type \<noteq> 2 \<and> elf_type \<noteq> 3 then Err UnsupportedType
        else
          and_then (ok_or (elf_u64 bs 24) TooSmall) (\<lambda>entry_point.
          and_then (ok_or (elf_u64 bs 32) TooSmall) (\<lambda>phoff.
          and_then (ok_or (elf_u16 bs 54) TooSmall) (\<lambda>phentsize.
          and_then (ok_or (elf_u16 bs 56) TooSmall) (\<lambda>phnum.
          if unat phentsize < 56 \<or> unat phnum > 16 \<or>
             unat phentsize * unat phnum \<ge> 2 ^ 64 \<or>
             unat phoff + unat phentsize * unat phnum \<ge> 2 ^ 64 \<or>
             \<not> unat phoff + unat phentsize * unat phnum \<le> length bs
          then Err InvalidProgramTable
          else
            and_then (elf_headers (unat phnum) 0 bs (unat phoff) (unat phentsize)
                        (replicate 16 None, 0, None, None)) (\<lambda>(segs, count, ioff, isize').
            if count = 0 then Err NoLoadSegments
            else Ok \<lparr>elf_entry = entry_point, segments = segs, segment_count = count,
                     interpreter_offset = ioff, interpreter_size = isize'\<rparr>)))))))"

text \<open>\<open>core::str::from_utf8\<close>: one well-formed sequence is split off at a time (overlong forms,
  surrogates and values above \<open>U+10FFFF\<close> are not well formed).\<close>

definition cont :: "u8 \<Rightarrow> bool" where
  "cont b \<longleftrightarrow> 0x80 \<le> b \<and> b \<le> 0xbf"

fun utf8_valid :: "bytes \<Rightarrow> bool" where
  "utf8_valid [] \<longleftrightarrow> True"
| "utf8_valid (a # bs) \<longleftrightarrow>
     (if a < 0x80 then utf8_valid bs
      else case bs of
        [] \<Rightarrow> False
      | b # cs \<Rightarrow>
          if 0xc2 \<le> a \<and> a \<le> 0xdf then cont b \<and> utf8_valid cs
          else (case cs of
            [] \<Rightarrow> False
          | c # ds \<Rightarrow>
              if 0xe0 \<le> a \<and> a \<le> 0xef
              then cont b \<and> (a = 0xe0 \<longrightarrow> 0xa0 \<le> b) \<and> (a = 0xed \<longrightarrow> b \<le> 0x9f) \<and> cont c \<and> utf8_valid ds
              else (case ds of
                [] \<Rightarrow> False
              | d # es \<Rightarrow>
                  0xf0 \<le> a \<and> a \<le> 0xf4 \<and> cont b \<and> (a = 0xf0 \<longrightarrow> 0x90 \<le> b) \<and> (a = 0xf4 \<longrightarrow> b \<le> 0x8f) \<and>
                  cont c \<and> cont d \<and> utf8_valid es)))"

definition strip_nul :: "bytes \<Rightarrow> bytes" where
  "strip_nul bs = (if bs \<noteq> [] \<and> last bs = 0 then butlast bs else bs)"

definition interpreter :: "static_elf \<Rightarrow> bytes \<Rightarrow> bytes option" where
  "interpreter self bs =
     (case interpreter_offset self of None \<Rightarrow> None
      | Some offset \<Rightarrow>
          (case interpreter_size self of None \<Rightarrow> None
           | Some size' \<Rightarrow>
               (case get_range bs (unat offset) (unat (offset + size')) of None \<Rightarrow> None
                | Some raw_bytes \<Rightarrow>
                    let trimmed = strip_nul raw_bytes in if utf8_valid trimmed then Some trimmed else None)))"

section \<open>The program headers\<close>

lemma elf_reads:
  "elf_u16 bs off = (if off + 2 \<le> length bs then Some (u16_at bs off) else None)"
  "elf_u32 bs off = (if off + 4 \<le> length bs then Some (u32_at bs off) else None)"
  "elf_u64 bs off = (if off + 8 \<le> length bs then Some (u64_at bs off) else None)"
  by (simp_all add: elf_u16_def elf_u32_def elf_u64_def get_range_def)

definition seg_at :: "bytes \<Rightarrow> nat \<Rightarrow> load_segment" where
  "seg_at bs off = \<lparr>virtual_address = u64_at bs (off + 16), file_offset = u64_at bs (off + 8),
     file_size = u64_at bs (off + 32), memory_size = u64_at bs (off + 40), seg_flags = u32_at bs (off + 4)\<rparr>"

text \<open>What the loop checks of one header: load segments and the interpreter name lie in the file.\<close>

definition phdr_ok :: "bytes \<Rightarrow> nat \<Rightarrow> bool" where
  "phdr_ok bs off \<longleftrightarrow>
     (u32_at bs off = 1 \<longrightarrow> u64_at bs (off + 32) \<le> u64_at bs (off + 40)) \<and>
     (u32_at bs off \<in> {1, 3} \<longrightarrow> unat (u64_at bs (off + 8)) + unat (u64_at bs (off + 32)) \<le> length bs)"

definition loads :: "bytes \<Rightarrow> nat list \<Rightarrow> load_segment list" where
  "loads bs offs = map (seg_at bs) (filter (\<lambda>off. u32_at bs off = 1) offs)"

definition interp_at :: "bytes \<Rightarrow> nat list \<Rightarrow> nat option \<Rightarrow> nat option" where
  "interp_at bs offs acc = foldl (\<lambda>a off. if u32_at bs off = 3 then Some off else a) acc offs"

definition elf_state_of :: "bytes \<Rightarrow> load_segment list \<Rightarrow> nat option \<Rightarrow> elf_state" where
  "elf_state_of bs ss h = (map Some ss @ replicate (16 - length ss) None, length ss,
     map_option (\<lambda>off. u64_at bs (off + 8)) h, map_option (\<lambda>off. u64_at bs (off + 32)) h)"

lemma outside_iff:
  assumes "n < 2 ^ 64"
  shows "outside a b n \<longleftrightarrow> \<not> unat a + unat b \<le> n"
  using assms by (auto simp: outside_def checked_add_def unat_add_no_overflow split: option.splits)

lemma elf_header_step_eq:
  assumes "off + 56 \<le> length bs" "length bs < 2 ^ 64" "length ss < 16"
  shows "elf_header_step bs off (elf_state_of bs ss h) =
    (if phdr_ok bs off
     then Ok (elf_state_of bs (ss @ loads bs [off]) (interp_at bs [off] h))
     else Err InvalidProgramTable)"
proof -
  have upd: "(map Some ss @ replicate (16 - length ss) None)[length ss := Some x] =
      map Some (ss @ [x]) @ replicate (16 - length (ss @ [x])) None" for x :: load_segment
  proof -
    obtain k where k: "16 - length ss = Suc k" using assms(3) by (cases "16 - length ss") auto
    then show ?thesis by (simp add: list_update_append)
  qed
  show ?thesis
    using assms(1,3)
    by (auto simp: elf_header_step_def elf_state_of_def elf_reads outside_iff [OF assms(2)] phdr_ok_def
        loads_def interp_at_def seg_at_def upd not_le)
qed

lemma elf_headers_eq:
  assumes "\<And>j. j < n \<Longrightarrow> phoff + (i + j) * es + 56 \<le> length bs" "length bs < 2 ^ 64" "length ss + n \<le> 16"
  shows "elf_headers n i bs phoff es (elf_state_of bs ss h) =
    (let offs = map (\<lambda>j. phoff + j * es) [i..<i + n] in
     if list_all (phdr_ok bs) offs
     then Ok (elf_state_of bs (ss @ loads bs offs) (interp_at bs offs h))
     else Err InvalidProgramTable)"
  using assms
proof (induction n arbitrary: i ss h)
  case 0
  then show ?case by (simp add: loads_def interp_at_def)
next
  case (Suc n)
  let ?off = "phoff + i * es"
  have upt: "[i..<i + Suc n] = i # [Suc i..<Suc i + n]" by (simp add: upt_rec)
  have step: "elf_header_step bs ?off (elf_state_of bs ss h) =
      (if phdr_ok bs ?off then Ok (elf_state_of bs (ss @ loads bs [?off]) (interp_at bs [?off] h))
       else Err InvalidProgramTable)"
    using Suc.prems(1) [of 0] Suc.prems(2,3) by (intro elf_header_step_eq) simp_all
  have len: "length (ss @ loads bs [?off]) + n \<le> 16" using Suc.prems(3) by (simp add: loads_def)
  have IH: "elf_headers n (Suc i) bs phoff es (elf_state_of bs (ss @ loads bs [?off]) (interp_at bs [?off] h)) =
      (let offs = map (\<lambda>j. phoff + j * es) [Suc i..<Suc i + n] in
       if list_all (phdr_ok bs) offs
       then Ok (elf_state_of bs ((ss @ loads bs [?off]) @ loads bs offs) (interp_at bs offs (interp_at bs [?off] h)))
       else Err InvalidProgramTable)"
    by (rule Suc.IH) (use Suc.prems(1) [of "Suc j" for j] Suc.prems(2) len in auto)
  show ?case
    unfolding upt using IH by (simp add: step Let_def loads_def interp_at_def)
qed

text \<open>A well-formed static ELF file, and what the parser makes of it.\<close>

definition phdr_offsets :: "bytes \<Rightarrow> nat list" where
  "phdr_offsets bs = map (\<lambda>j. unat (u64_at bs 32) + j * unat (u16_at bs 54)) [0..<unat (u16_at bs 56)]"

definition elf_ok :: "bytes \<Rightarrow> bool" where
  "elf_ok bs \<longleftrightarrow> 64 \<le> length bs \<and> take 4 bs = [0x7f, 0x45, 0x4c, 0x46] \<and> bs ! 4 = 2 \<and> bs ! 5 = 1 \<and>
     u16_at bs 16 \<in> {2, 3} \<and> 56 \<le> unat (u16_at bs 54) \<and> unat (u16_at bs 56) \<le> 16 \<and>
     unat (u64_at bs 32) + unat (u16_at bs 54) * unat (u16_at bs 56) \<le> length bs \<and>
     list_all (phdr_ok bs) (phdr_offsets bs) \<and> loads bs (phdr_offsets bs) \<noteq> []"

definition elf_of :: "bytes \<Rightarrow> static_elf" where
  "elf_of bs = (case elf_state_of bs (loads bs (phdr_offsets bs)) (interp_at bs (phdr_offsets bs) None) of
     (segs, count, io, is) \<Rightarrow> \<lparr>elf_entry = u64_at bs 24, segments = segs, segment_count = count,
       interpreter_offset = io, interpreter_size = is\<rparr>)"

lemma elf_headers_all:
  assumes "56 \<le> unat (u16_at bs 54)" "unat (u16_at bs 56) \<le> 16" "length bs < 2 ^ 64"
    and "unat (u64_at bs 32) + unat (u16_at bs 54) * unat (u16_at bs 56) \<le> length bs"
  shows "elf_headers (unat (u16_at bs 56)) 0 bs (unat (u64_at bs 32)) (unat (u16_at bs 54)) (replicate 16 None, 0, None, None) =
    (if list_all (phdr_ok bs) (phdr_offsets bs)
     then Ok (elf_state_of bs (loads bs (phdr_offsets bs)) (interp_at bs (phdr_offsets bs) None))
     else Err InvalidProgramTable)"
proof -
  have "unat (u64_at bs 32) + (0 + j) * unat (u16_at bs 54) + 56 \<le> length bs" if "j < unat (u16_at bs 56)" for j
  proof -
    have "j * unat (u16_at bs 54) + unat (u16_at bs 54) = Suc j * unat (u16_at bs 54)" by simp
    also have "\<dots> \<le> unat (u16_at bs 56) * unat (u16_at bs 54)" using that by (intro mult_right_mono) auto
    finally show ?thesis using assms(1,4) by (simp add: mult.commute)
  qed
  from elf_headers_eq [where ss = "[]" and h = None, OF this assms(3)] show ?thesis
    using assms(2) by (simp add: elf_state_of_def phdr_offsets_def Let_def)
qed

lemma StaticElf_parse_cases:
  assumes "length bs < 2 ^ 64"
  shows "StaticElf_parse bs \<noteq> Panic \<and> (\<forall>e. StaticElf_parse bs = Ok e \<longleftrightarrow> elf_ok bs \<and> e = elf_of bs)"
proof (cases "64 \<le> length bs \<and> take 4 bs = [0x7f, 0x45, 0x4c, 0x46] \<and> bs ! 4 = 2 \<and> bs ! 5 = 1 \<and>
    u16_at bs 16 \<in> {2, 3} \<and> 56 \<le> unat (u16_at bs 54) \<and> unat (u16_at bs 56) \<le> 16 \<and>
     unat (u64_at bs 32) + unat (u16_at bs 54) * unat (u16_at bs 56) \<le> length bs")
  case True
  note all = elf_headers_all [of bs] 
  have "StaticElf_parse bs = (if list_all (phdr_ok bs) (phdr_offsets bs)
      then if loads bs (phdr_offsets bs) = [] then Err NoLoadSegments else Ok (elf_of bs)
      else Err InvalidProgramTable)"
    using True assms by (auto simp: StaticElf_parse_def elf_reads all elf_of_def elf_state_of_def)
  with True show ?thesis by (auto simp: elf_ok_def)
next
  case False
  then have "\<not> elf_ok bs" by (auto simp: elf_ok_def)
  moreover have "\<exists>e. StaticElf_parse bs = Err e"
    using False by (auto simp: StaticElf_parse_def elf_reads)
  ultimately show ?thesis by auto
qed

section \<open>Properties\<close>

text \<open>A file of one load segment; its machine field (offset 18) names AArch64.\<close>

definition demo_elf :: bytes where
  "demo_elf = [0x7f, 0x45, 0x4c, 0x46, 2, 1, 1, 0] @ replicate 8 0 @ [2, 0, 183, 0, 1, 0, 0, 0] @
     to_le 8 (0x400000 :: u64) @ to_le 8 (64 :: u64) @ replicate 14 0 @ to_le 2 (56 :: u16) @ to_le 2 (1 :: u16) @ replicate 6 0 @
     to_le 4 (1 :: u32) @ to_le 4 (5 :: u32) @ to_le 8 (0 :: u64) @ to_le 8 (0x400000 :: u64) @ to_le 8 (0 :: u64) @
     to_le 8 (120 :: u64) @ to_le 8 (200 :: u64) @ to_le 8 (4096 :: u64)"

definition demo_seg :: load_segment where
  "demo_seg = \<lparr>virtual_address = 0x400000, file_offset = 0, file_size = 120, memory_size = 200, seg_flags = 5\<rparr>"

lemma demo_elf_fields:
  "length demo_elf = 120" "take 4 demo_elf = [0x7f, 0x45, 0x4c, 0x46]" "demo_elf ! 4 = 2" "demo_elf ! 5 = 1"
  "u16_at demo_elf 16 = 2" "u16_at demo_elf 18 = 183" "u64_at demo_elf 32 = 64" "u16_at demo_elf 54 = 56" "u16_at demo_elf 56 = 1"
  "u32_at demo_elf 64 = 1" "u64_at demo_elf 72 = 0" "u64_at demo_elf 96 = 120" "u64_at demo_elf 104 = 200" "seg_at demo_elf 64 = demo_seg"
  by (simp_all add: demo_elf_def demo_seg_def seg_at_def from_le_to_le) (simp_all add: from_le_def)

lemma demo_elf_ok: "elf_ok demo_elf"
  by (simp add: elf_ok_def demo_elf_fields phdr_offsets_def loads_def phdr_ok_def)
text \<open>C32. ELF parsing.  The parser never panics.  It accepts a file exactly when the identification, the type,
  the program-header table and every header it uses are well formed and there is a load segment; the result
  lists the load segments in file order, then empty slots, and the last interpreter header.\<close>

theorem elf_parse_correct:
  assumes "length bs < 2 ^ 63"
  shows "StaticElf_parse bs \<noteq> Panic \<and> (\<forall>e. StaticElf_parse bs = Ok e \<longleftrightarrow> elf_ok bs \<and> e = elf_of bs)"
  using assms by (intro StaticElf_parse_cases) simp

theorem elf_parse_correct_witness:
  "length demo_elf < 2 ^ 63 \<and> StaticElf_parse demo_elf = Ok (elf_of demo_elf) \<and> segments (elf_of demo_elf) ! 0 = Some demo_seg"
  using elf_parse_correct [of demo_elf] demo_elf_ok
  by (simp add: demo_elf_fields elf_of_def elf_state_of_def loads_def phdr_offsets_def)

lemma loads_bounded: "length (loads bs (phdr_offsets bs)) \<le> unat (u16_at bs 56)"
  by (simp add: loads_def phdr_offsets_def length_filter_le [THEN le_trans])

lemma interp_at_in: "interp_at bs offs acc = Some off \<Longrightarrow> acc = Some off \<or> (off \<in> set offs \<and> u32_at bs off = 3)"
  by (induction offs arbitrary: acc) (fastforce simp: interp_at_def split: if_splits)+

text \<open>Accepted files.  Of a file the parser accepts, between one and sixteen segments are filled, exactly the
  first ones; each lies inside the file and is no larger there than in memory; and the interpreter name, when
  there is one, lies inside the file, so that reading it never fails for its bounds.\<close>

theorem elf_loads_in_file:
  assumes "length bs < 2 ^ 63" "StaticElf_parse bs = Ok e"
  shows "1 \<le> segment_count e \<and> segment_count e \<le> 16 \<and> length (segments e) = 16 \<and>
    (\<forall>i<16. case segments e ! i of
       None \<Rightarrow> segment_count e \<le> i
     | Some s \<Rightarrow> i < segment_count e \<and> file_size s \<le> memory_size s \<and>
         unat (file_offset s) + unat (file_size s) \<le> length bs) \<and>
    (case (interpreter_offset e, interpreter_size e) of
       (Some off, Some n) \<Rightarrow> unat off + unat n \<le> length bs
     | (None, None) \<Rightarrow> True | _ \<Rightarrow> False)"
proof -
  let ?offs = "phdr_offsets bs" let ?ss = "loads bs ?offs"
  have ok: "elf_ok bs" and e: "e = elf_of bs" using StaticElf_parse_cases [of bs] assms by auto
  have n: "length ?ss \<le> 16" "?ss \<noteq> []" using ok loads_bounded [of bs] by (auto simp: elf_ok_def)
  have ph: "phdr_ok bs off" if "off \<in> set ?offs" for off using ok that by (auto simp: elf_ok_def list_all_iff)
  have seg: "file_size s \<le> memory_size s \<and> unat (file_offset s) + unat (file_size s) \<le> length bs" if "s \<in> set ?ss" for s
    using that ph by (auto simp: loads_def seg_at_def phdr_ok_def)
  have int: "unat (u64_at bs (off + 8)) + unat (u64_at bs (off + 32)) \<le> length bs" if "interp_at bs ?offs None = Some off" for off
    using interp_at_in [OF that] ph [of off] by (auto simp: phdr_ok_def)
  show ?thesis
    using n seg int
    by (auto simp: e elf_of_def elf_state_of_def nth_append Suc_le_eq not_less split: option.splits)
qed

theorem elf_loads_in_file_witness:
  "length demo_elf < 2 ^ 63 \<and> StaticElf_parse demo_elf = Ok (elf_of demo_elf) \<and> segment_count (elf_of demo_elf) \<le> 16"
proof -
  have p: "StaticElf_parse demo_elf = Ok (elf_of demo_elf)"
    using StaticElf_parse_cases [of demo_elf] demo_elf_ok by (simp add: demo_elf_fields)
  show ?thesis using elf_loads_in_file [OF _ p] p by (simp add: demo_elf_fields)
qed

text \<open>The parser does not read the machine field: a file for another architecture is accepted.\<close>

lemma elf_machine_unchecked: "u16_at demo_elf 18 = 183 \<and> (\<exists>e. StaticElf_parse demo_elf = Ok e)"
  using StaticElf_parse_cases [of demo_elf] demo_elf_ok by (simp add: demo_elf_fields)


definition demo_request :: linux_syscall_request where
  "demo_request = \<lparr>lreq_number = 257, lreq_args = [1, 2, 3, 4, 5, 6], lreq_authority = CapabilityId 0\<rparr>"


text \<open>Lost operations.  No system-call number is translated to \<open>FChDir\<close>, \<open>Accept4\<close> or \<open>FAccessAt\<close>, for which
  the kernel has handlers: \<open>fchdir\<close> (81) is brokered as \<open>ChDir\<close>, \<open>accept4\<close> (288) as \<open>Accept\<close>, and
  \<open>faccessat\<close> (269) and \<open>faccessat2\<close> (439) as \<open>Access\<close>, whose handlers read the arguments differently.\<close>

theorem lost_operations:
  "broker \<lparr>lreq_number = 81, lreq_args = as, lreq_authority = c\<rparr> = ProcessPrimitive Op_ChDir \<and>
   broker \<lparr>lreq_number = 288, lreq_args = as, lreq_authority = c\<rparr> = ProcessPrimitive Op_Accept \<and>
   broker \<lparr>lreq_number = 269, lreq_args = as, lreq_authority = c\<rparr> = ProcessPrimitive Op_Access \<and>
   broker \<lparr>lreq_number = 439, lreq_args = as, lreq_authority = c\<rparr> = ProcessPrimitive Op_Access \<and>
   broker r \<notin> ProcessPrimitive ` {Op_FChDir, Op_Accept4, Op_FAccessAt}"
proof -
  have "x \<notin> {Op_FChDir, Op_Accept4, Op_FAccessAt}" if "x \<in> set (map (fst \<circ> snd) translation_table)" for x
    using that by (auto simp: translation_table_def)
  moreover have "x \<in> set (map (fst \<circ> snd) translation_table)" if "broker r = ProcessPrimitive x" for x
    using that by (force simp: broker_def translate_def split: outcome.splits option.splits dest: map_of_SomeD)
  ultimately have "broker r \<notin> ProcessPrimitive ` {Op_FChDir, Op_Accept4, Op_FAccessAt}" by blast
  then show ?thesis by (simp add: broker_def translate_def translation_table_def)
qed

end
