(* ===== verification/Buddy.thy ===== *)
theory Buddy
  imports Prelude "HOL-Library.Monad_Syntax"
begin

text \<open>
  The physical frame allocator (\<open>rust/kernel/src/memory.rs\<close>): a binary buddy
  allocator whose free lists are doubly linked through two arrays indexed by
  page frame number, with an order-and-status byte and a reference count per frame.

  An operation returns \<open>None\<close> when the code panics (an index out of range, an
  \<open>expect\<close>).  \<open>free_blocks\<close> and \<open>alloc_blocks\<close> read the free and the allocated
  blocks off the status bytes; the theorems relate every operation to these sets and
  show that the linked lists, the status bytes and the counters never disagree.
\<close>

section \<open>State\<close>

definition MAX_ORDER :: nat where
  "MAX_ORDER = 11"

definition MAX_SUPPORTED_FRAMES :: nat where
  "MAX_SUPPORTED_FRAMES = 16777216"

definition NO_PFN :: u32 where
  "NO_PFN = - 1"

definition FLAG_ALLOCATED :: u8 where
  "FLAG_ALLOCATED = push_bit 4 1"

definition FLAG_FREE :: u8 where
  "FLAG_FREE = push_bit 5 1"

definition FLAG_RESERVED :: u8 where
  "FLAG_RESERVED = push_bit 6 1"

definition ORDER_MASK :: u8 where
  "ORDER_MASK = 0x0F"

datatype phys_frame = PhysFrame (start_address: u64)

record memory_stats =
  usable_bytes :: u64
  usable_frames :: nat
  tracked_frames :: nat
  map_entries :: nat

record buddy_allocator =
  free_lists :: "nat option list"
  next_free :: "u32 list"
  prev_free :: "u32 list"
  pfn_flags :: "u8 list"
  refcounts :: "u16 list"
  total_usable_frames :: nat
  free_frames :: nat
  max_pfn :: nat

definition BuddyAllocator_empty :: buddy_allocator where
  "BuddyAllocator_empty = \<lparr>free_lists = replicate MAX_ORDER None, next_free = [], prev_free = [],
     pfn_flags = [], refcounts = [], total_usable_frames = 0, free_frames = 0, max_pfn = 0\<rparr>"

text \<open>Indexing \<open>xs[i]\<close> and \<open>xs[i] = v\<close>, which panic out of range.\<close>

definition idx :: "'a list \<Rightarrow> nat \<Rightarrow> 'a option" where
  "idx xs i = (if i < length xs then Some (xs ! i) else None)"

definition set_idx :: "'a list \<Rightarrow> nat \<Rightarrow> 'a \<Rightarrow> 'a list option" where
  "set_idx xs i v = (if i < length xs then Some (xs[i := v]) else None)"

section \<open>Free lists\<close>

definition list_push :: "nat \<Rightarrow> nat \<Rightarrow> buddy_allocator \<Rightarrow> buddy_allocator option" where
  "list_push order pfn s =
    (if max_pfn s \<le> pfn then Some s
     else do {
       head \<leftarrow> idx (free_lists s) order;
       nx \<leftarrow> set_idx (next_free s) pfn (case head of None \<Rightarrow> NO_PFN | Some h \<Rightarrow> of_nat h);
       pv \<leftarrow> set_idx (prev_free s) pfn NO_PFN;
       pv \<leftarrow> (case head of
               Some h \<Rightarrow> if h < max_pfn s then set_idx pv h (of_nat pfn) else Some pv
             | None \<Rightarrow> Some pv);
       heads \<leftarrow> set_idx (free_lists s) order (Some pfn);
       fl \<leftarrow> set_idx (pfn_flags s) pfn ((of_nat order AND ORDER_MASK) OR FLAG_FREE);
       Some (s\<lparr>free_lists := heads, next_free := nx, prev_free := pv, pfn_flags := fl\<rparr>)
     })"

definition list_remove :: "nat \<Rightarrow> nat \<Rightarrow> buddy_allocator \<Rightarrow> buddy_allocator option" where
  "list_remove order pfn s =
    (if max_pfn s \<le> pfn then Some s
     else do {
       prev \<leftarrow> idx (prev_free s) pfn;
       nxt \<leftarrow> idx (next_free s) pfn;
       (nx, heads) \<leftarrow>
         (if prev \<noteq> NO_PFN \<and> unat prev < max_pfn s then do {
            nx \<leftarrow> set_idx (next_free s) (unat prev) nxt;
            Some (nx, free_lists s)
          } else do {
            head \<leftarrow> idx (free_lists s) order;
            heads \<leftarrow>
              (if head = Some pfn
               then set_idx (free_lists s) order
                 (if nxt \<noteq> NO_PFN \<and> unat nxt < max_pfn s then Some (unat nxt) else None)
               else Some (free_lists s));
            Some (next_free s, heads)
          });
       pv \<leftarrow> (if nxt \<noteq> NO_PFN \<and> unat nxt < max_pfn s
             then set_idx (prev_free s) (unat nxt) prev else Some (prev_free s));
       pv \<leftarrow> set_idx pv pfn NO_PFN;
       nx \<leftarrow> set_idx nx pfn NO_PFN;
       f \<leftarrow> idx (pfn_flags s) pfn;
       fl \<leftarrow> set_idx (pfn_flags s) pfn (f AND NOT FLAG_FREE);
       Some (s\<lparr>free_lists := heads, next_free := nx, prev_free := pv, pfn_flags := fl\<rparr>)
     })"

definition list_pop :: "nat \<Rightarrow> buddy_allocator \<Rightarrow> (nat option \<times> buddy_allocator) option" where
  "list_pop order s = do {
     head \<leftarrow> idx (free_lists s) order;
     case head of
       None \<Rightarrow> Some (None, s)
     | Some h \<Rightarrow> do { s' \<leftarrow> list_remove order h s; Some (Some h, s') }
   }"

section \<open>Ranges, allocation and release\<close>

text \<open>\<open>memory::align_up\<close>: saturating, then down to a page.\<close>

definition frame_align_up :: "u64 \<Rightarrow> u64" where
  "frame_align_up address = saturating_add address (PAGE_SIZE - 1) AND NOT (PAGE_SIZE - 1)"

text \<open>The inner loop of \<open>add_range\<close>: the largest order that fits.\<close>

primrec fit_order :: "nat \<Rightarrow> nat \<Rightarrow> nat \<Rightarrow> nat" where
  "fit_order start_pfn end_pfn 0 = 0"
| "fit_order start_pfn end_pfn (Suc k) =
    (let block_size = 2 ^ Suc k in
     if start_pfn + block_size \<le> end_pfn \<and> start_pfn AND (block_size - 1) = 0 then Suc k
     else fit_order start_pfn end_pfn k)"

text \<open>The outer loop of \<open>add_range\<close>.\<close>

function push_range :: "nat \<Rightarrow> nat \<Rightarrow> buddy_allocator \<Rightarrow> buddy_allocator option" where
  "push_range start_pfn end_pfn s =
    (if start_pfn < end_pfn then do {
       let order = fit_order start_pfn end_pfn (MAX_ORDER - 1);
       s' \<leftarrow> list_push order start_pfn s;
       push_range (start_pfn + 2 ^ order) end_pfn s'
     } else Some s)"
  by pat_completeness auto
termination by (relation "measure (\<lambda>(a, b, s). b - a)") (auto intro: diff_less_mono2)

definition add_range :: "u64 \<Rightarrow> u64 \<Rightarrow> buddy_allocator \<Rightarrow> (nat \<times> buddy_allocator) option" where
  "add_range base len s =
    (case checked_add base len of
      None \<Rightarrow> Some (0, s)
    | Some last_addr \<Rightarrow>
       (let first = max (frame_align_up base) PAGE_SIZE;
            final = last_addr AND NOT (PAGE_SIZE - 1) in
        if final \<le> first then Some (0, s)
        else
          (let start_pfn = unat (first div PAGE_SIZE);
               end_pfn = min (unat (final div PAGE_SIZE)) (max_pfn s) in
           if end_pfn \<le> start_pfn then Some (0, s)
           else
             (let frames_added = end_pfn - start_pfn in do {
                s' \<leftarrow> push_range start_pfn end_pfn
                  (s\<lparr>total_usable_frames := total_usable_frames s + frames_added,
                     free_frames := free_frames s + frames_added\<rparr>);
                Some (frames_added, s')
              }))))"

text \<open>The search of \<open>alloc_order\<close> for the first order with a free block.\<close>

function first_order :: "nat \<Rightarrow> nat option list \<Rightarrow> nat option" where
  "first_order order heads =
    (if order < MAX_ORDER then do {
       head \<leftarrow> idx heads order;
       if head = None then first_order (Suc order) heads else Some order
     } else Some order)"
  by pat_completeness auto
termination by (relation "measure (\<lambda>(a, b). MAX_ORDER - a)") auto

text \<open>The splitting loop of \<open>alloc_order\<close>: the upper halves go back to the lists.\<close>

primrec split_block :: "nat \<Rightarrow> nat \<Rightarrow> nat \<Rightarrow> buddy_allocator \<Rightarrow> buddy_allocator option" where
  "split_block order pfn 0 s = Some s"
| "split_block order pfn (Suc k) s =
    (if order < Suc k then do {
       s' \<leftarrow> list_push k (pfn + 2 ^ k) s;
       split_block order pfn k s'
     } else Some s)"

definition alloc_order :: "nat \<Rightarrow> buddy_allocator \<Rightarrow> (nat option \<times> buddy_allocator) option" where
  "alloc_order order s =
    (if MAX_ORDER \<le> order then Some (None, s)
     else do {
       current \<leftarrow> first_order order (free_lists s);
       if MAX_ORDER \<le> current then Some (None, s)
       else do {
         (popped, s1) \<leftarrow> list_pop current s;
         case popped of
           None \<Rightarrow> Some (None, s1)
         | Some pfn \<Rightarrow> do {
             s2 \<leftarrow> split_block order pfn current s1;
             fl \<leftarrow> set_idx (pfn_flags s2) pfn ((of_nat order AND ORDER_MASK) OR FLAG_ALLOCATED);
             rc \<leftarrow> set_idx (refcounts s2) pfn 1;
             Some (Some pfn, s2\<lparr>pfn_flags := fl, refcounts := rc, free_frames := free_frames s2 - 2 ^ order\<rparr>)
           }
       }
     })"

text \<open>The coalescing loop of \<open>free_order\<close>.\<close>

function coalesce :: "nat \<Rightarrow> nat \<Rightarrow> buddy_allocator \<Rightarrow> (nat \<times> nat \<times> buddy_allocator) option" where
  "coalesce pfn order s =
    (if order < MAX_ORDER - 1 then
       (let buddy_pfn = pfn XOR push_bit order 1 in
        if max_pfn s \<le> buddy_pfn then Some (pfn, order, s)
        else do {
          buddy_flags \<leftarrow> idx (pfn_flags s) buddy_pfn;
          if buddy_flags AND FLAG_FREE \<noteq> 0 \<and> unat (buddy_flags AND ORDER_MASK) = order then do {
            s' \<leftarrow> list_remove order buddy_pfn s;
            coalesce (min pfn buddy_pfn) (Suc order) s'
          } else Some (pfn, order, s)
        })
     else Some (pfn, order, s))"
  by pat_completeness auto
termination by (relation "measure (\<lambda>(a, b, s). MAX_ORDER - b)") auto

definition free_order :: "nat \<Rightarrow> nat \<Rightarrow> buddy_allocator \<Rightarrow> buddy_allocator option" where
  "free_order pfn order s = do {
     f \<leftarrow> idx (pfn_flags s) pfn;
     fl \<leftarrow> set_idx (pfn_flags s) pfn (f AND NOT FLAG_ALLOCATED);
     (pfn', order', s') \<leftarrow>
       coalesce pfn order (s\<lparr>free_frames := free_frames s + 2 ^ order, pfn_flags := fl\<rparr>);
     list_push order' pfn' s'
   }"

definition frame_of :: "nat \<Rightarrow> phys_frame" where
  "frame_of pfn = PhysFrame (of_nat pfn * PAGE_SIZE)"

definition buddy_alloc :: "buddy_allocator \<Rightarrow> (phys_frame option \<times> buddy_allocator) option" where
  "buddy_alloc s = do { (r, s') \<leftarrow> alloc_order 0 s; Some (map_option frame_of r, s') }"

definition buddy_free :: "phys_frame \<Rightarrow> buddy_allocator \<Rightarrow> (bool \<times> buddy_allocator) option" where
  "buddy_free frame s =
    (let addr = start_address frame in
     if addr = 0 \<or> addr AND (PAGE_SIZE - 1) \<noteq> 0 then Some (False, s)
     else
       (let pfn = unat (addr div PAGE_SIZE) in
        if max_pfn s \<le> pfn then Some (False, s)
        else do {
          current_ref \<leftarrow> idx (refcounts s) pfn;
          if 1 < current_ref then do {
            rc \<leftarrow> set_idx (refcounts s) pfn (current_ref - 1);
            Some (True, s\<lparr>refcounts := rc\<rparr>)
          } else if current_ref = 1 then do {
            rc \<leftarrow> set_idx (refcounts s) pfn 0;
            f \<leftarrow> idx (pfn_flags s) pfn;
            s' \<leftarrow> free_order pfn (unat (f AND ORDER_MASK)) (s\<lparr>refcounts := rc\<rparr>);
            Some (True, s')
          } else Some (False, s)
        }))"

text \<open>The loop of \<open>reserve\<close> that keeps the half holding the frame.\<close>

primrec carve_block :: "nat \<Rightarrow> nat \<Rightarrow> nat \<Rightarrow> buddy_allocator \<Rightarrow> buddy_allocator option" where
  "carve_block pfn cur_head 0 s = Some s"
| "carve_block pfn cur_head (Suc k) s =
    (let lower = cur_head; upper = cur_head + 2 ^ k in
     if pfn < upper then do {
       s' \<leftarrow> list_push k upper s;
       carve_block pfn lower k s'
     } else do {
       s' \<leftarrow> list_push k lower s;
       carve_block pfn upper k s'
     })"

text \<open>The search of \<open>reserve\<close> over the orders: \<open>None\<close> inside when no free block holds the frame.\<close>

primrec reserve_search :: "nat \<Rightarrow> nat list \<Rightarrow> buddy_allocator \<Rightarrow> buddy_allocator option option" where
  "reserve_search pfn [] s = Some None"
| "reserve_search pfn (order # orders) s =
    (let block_head = push_bit order (drop_bit order pfn) in do {
       f \<leftarrow> idx (pfn_flags s) block_head;
       if f AND FLAG_FREE \<noteq> 0 \<and> unat (f AND ORDER_MASK) = order then do {
         s1 \<leftarrow> list_remove order block_head s;
         s2 \<leftarrow> carve_block pfn block_head order s1;
         fl \<leftarrow> set_idx (pfn_flags s2) pfn (FLAG_RESERVED OR FLAG_ALLOCATED);
         rc \<leftarrow> set_idx (refcounts s2) pfn 1;
         Some (Some (s2\<lparr>pfn_flags := fl, refcounts := rc, free_frames := free_frames s2 - 1\<rparr>))
       } else reserve_search pfn orders s
     })"

definition buddy_reserve :: "phys_frame \<Rightarrow> buddy_allocator \<Rightarrow> (bool \<times> buddy_allocator) option" where
  "buddy_reserve frame s =
    (let addr = start_address frame in
     if addr = 0 \<or> addr AND (PAGE_SIZE - 1) \<noteq> 0 then Some (False, s)
     else
       (let pfn = unat (addr div PAGE_SIZE) in
        if max_pfn s \<le> pfn then Some (False, s)
        else do {
          f \<leftarrow> idx (pfn_flags s) pfn;
          if f AND FLAG_ALLOCATED \<noteq> 0 \<or> f AND FLAG_RESERVED \<noteq> 0 then Some (True, s)
          else do {
            found \<leftarrow> reserve_search pfn [0..<MAX_ORDER] s;
            case found of
              Some s' \<Rightarrow> Some (True, s')
            | None \<Rightarrow> do {
                fl \<leftarrow> set_idx (pfn_flags s) pfn (f OR FLAG_RESERVED);
                Some (True, s\<lparr>pfn_flags := fl\<rparr>)
              }
          }
        }))"

section \<open>Reference counts\<close>

definition refcount :: "nat \<Rightarrow> buddy_allocator \<Rightarrow> u16 option" where
  "refcount pfn s = (if pfn < max_pfn s then idx (refcounts s) pfn else Some 0)"

definition ref_inc :: "nat \<Rightarrow> buddy_allocator \<Rightarrow> buddy_allocator option" where
  "ref_inc pfn s =
    (if pfn < max_pfn s then do {
       r \<leftarrow> idx (refcounts s) pfn;
       rc \<leftarrow> set_idx (refcounts s) pfn (saturating_add r 1);
       Some (s\<lparr>refcounts := rc\<rparr>)
     } else Some s)"

definition ref_dec :: "nat \<Rightarrow> buddy_allocator \<Rightarrow> (u16 \<times> buddy_allocator) option" where
  "ref_dec pfn s =
    (if pfn < max_pfn s then do {
       r \<leftarrow> idx (refcounts s) pfn;
       rc \<leftarrow> set_idx (refcounts s) pfn (saturating_sub r 1);
       Some (saturating_sub r 1, s\<lparr>refcounts := rc\<rparr>)
     } else Some (0, s))"

section \<open>Initialisation and the public operations\<close>

record memmap_entry =
  me_base :: u64
  me_length :: u64
  me_type :: u64

text \<open>The two sums over the usable entries; \<open>usable\<close> is the boot protocol's type code.\<close>

definition max_usable_phys :: "u64 \<Rightarrow> memmap_entry list \<Rightarrow> u64" where
  "max_usable_phys usable entries =
    fold (\<lambda>e m. if me_type e = usable then max m (saturating_add (me_base e) (me_length e)) else m) entries 0"

definition total_usable_bytes :: "u64 \<Rightarrow> memmap_entry list \<Rightarrow> u64" where
  "total_usable_bytes usable entries =
    fold (\<lambda>e m. if me_type e = usable then saturating_add m (me_length e) else m) entries 0"

definition init_max_pfn :: "u64 \<Rightarrow> memmap_entry list \<Rightarrow> nat" where
  "init_max_pfn usable entries =
    min (unat (saturating_add (max_usable_phys usable entries) (PAGE_SIZE - 1) div PAGE_SIZE))
      MAX_SUPPORTED_FRAMES"

text \<open>Two \<open>u32\<close> links, a status byte and a \<open>u16\<close> count per frame, in whole pages.\<close>

definition meta_bytes_aligned :: "nat \<Rightarrow> nat" where
  "meta_bytes_aligned n = push_bit 12 (drop_bit 12 (n * (4 * 2 + 1 + 2) + unat PAGE_SIZE - 1))"

definition chosen_entry :: "u64 \<Rightarrow> u64 \<Rightarrow> memmap_entry list \<Rightarrow> memmap_entry option" where
  "chosen_entry usable need entries =
    fold (\<lambda>e c. if me_type e = usable \<and> need \<le> me_length e
                then (case c of None \<Rightarrow> Some e
                      | Some b \<Rightarrow> if me_length b < me_length e then Some e else c)
                else c) entries None"

primrec mark_meta :: "nat list \<Rightarrow> buddy_allocator \<Rightarrow> buddy_allocator option" where
  "mark_meta [] s = Some s"
| "mark_meta (pfn # pfns) s = do {
     fl \<leftarrow> set_idx (pfn_flags s) pfn (FLAG_RESERVED OR FLAG_ALLOCATED);
     rc \<leftarrow> set_idx (refcounts s) pfn 1;
     mark_meta pfns (s\<lparr>pfn_flags := fl, refcounts := rc\<rparr>)
   }"

definition add_chosen :: "memmap_entry \<Rightarrow> u64 \<Rightarrow> nat \<Rightarrow> buddy_allocator \<Rightarrow> buddy_allocator option" where
  "add_chosen chosen meta_phys_base meta_bytes s = do {
     s1 \<leftarrow> (if me_base chosen < meta_phys_base
           then map_option snd (add_range (me_base chosen) (meta_phys_base - me_base chosen) s)
           else Some s);
     let meta_end = meta_phys_base + of_nat meta_bytes;
     let block_end = me_base chosen + me_length chosen;
     s2 \<leftarrow> (if meta_end < block_end
           then map_option snd (add_range meta_end (block_end - meta_end) s1) else Some s1);
     let meta_start_pfn = unat (meta_phys_base div PAGE_SIZE);
     let meta_frames = meta_bytes div unat PAGE_SIZE;
     s3 \<leftarrow> mark_meta [meta_start_pfn ..< meta_start_pfn + meta_frames] s2;
     Some (s3\<lparr>total_usable_frames := total_usable_frames s3 + meta_frames\<rparr>)
   }"

primrec add_entries ::
  "u64 \<Rightarrow> memmap_entry \<Rightarrow> u64 \<Rightarrow> nat \<Rightarrow> memmap_entry list \<Rightarrow> buddy_allocator \<Rightarrow> buddy_allocator option" where
  "add_entries usable chosen meta_phys_base meta_bytes [] s = Some s"
| "add_entries usable chosen meta_phys_base meta_bytes (e # es) s =
    (if me_type e \<noteq> usable then add_entries usable chosen meta_phys_base meta_bytes es s
     else do {
       s' \<leftarrow> (if me_base e = me_base chosen \<and> me_length e = me_length chosen
             then add_chosen chosen meta_phys_base meta_bytes s
             else map_option snd (add_range (me_base e) (me_length e) s));
       add_entries usable chosen meta_phys_base meta_bytes es s'
     })"

definition fresh_allocator :: "nat \<Rightarrow> buddy_allocator" where
  "fresh_allocator n = \<lparr>free_lists = replicate MAX_ORDER None, next_free = replicate n NO_PFN,
     prev_free = replicate n NO_PFN, pfn_flags = replicate n 0, refcounts = replicate n 0,
     total_usable_frames = 0, free_frames = 0, max_pfn = n\<rparr>"

definition memory_init ::
  "u64 \<Rightarrow> memmap_entry list \<Rightarrow> u64 \<Rightarrow> (memory_stats \<times> buddy_allocator) option" where
  "memory_init usable entries hhdm_offset =
    (let n = init_max_pfn usable entries; meta_bytes = meta_bytes_aligned n in do {
       chosen \<leftarrow> chosen_entry usable (of_nat meta_bytes) entries;
       let meta_phys_base = frame_align_up (me_base chosen);
       meta_virt \<leftarrow> checked_add hhdm_offset meta_phys_base;
       s \<leftarrow> add_entries usable chosen meta_phys_base meta_bytes entries (fresh_allocator n);
       Some (\<lparr>usable_bytes = total_usable_bytes usable entries, usable_frames = free_frames s,
              tracked_frames = total_usable_frames s, map_entries = length entries\<rparr>, s)
     })"

definition pfn_of :: "phys_frame \<Rightarrow> nat" where
  "pfn_of frame = unat (start_address frame div PAGE_SIZE)"

definition frame_refcount :: "phys_frame \<Rightarrow> buddy_allocator \<Rightarrow> u16 option" where
  "frame_refcount frame s = refcount (pfn_of frame) s"

definition frame_ref_inc :: "phys_frame \<Rightarrow> buddy_allocator \<Rightarrow> buddy_allocator option" where
  "frame_ref_inc frame s = ref_inc (pfn_of frame) s"

definition frame_ref_dec :: "phys_frame \<Rightarrow> buddy_allocator \<Rightarrow> (u16 \<times> buddy_allocator) option" where
  "frame_ref_dec frame s = ref_dec (pfn_of frame) s"

section \<open>Indexing and status bytes\<close>

lemma idx_Some [simp]: "i < length xs \<Longrightarrow> idx xs i = Some (xs ! i)"
  by (simp add: idx_def)

lemma set_idx_Some [simp]: "i < length xs \<Longrightarrow> set_idx xs i v = Some (xs[i := v])"
  by (simp add: set_idx_def)

definition is_free :: "u8 \<Rightarrow> bool" where
  "is_free f \<longleftrightarrow> f AND FLAG_FREE \<noteq> 0"

definition is_alloc :: "u8 \<Rightarrow> bool" where
  "is_alloc f \<longleftrightarrow> f AND FLAG_ALLOCATED \<noteq> 0"

definition flag_order :: "u8 \<Rightarrow> nat" where
  "flag_order f = unat (f AND ORDER_MASK)"

lemmas flag_defs = is_free_def is_alloc_def flag_order_def FLAG_FREE_def FLAG_ALLOCATED_def
  FLAG_RESERVED_def ORDER_MASK_def

lemma less_MAX_ORDER: "k < MAX_ORDER \<longleftrightarrow> k \<in> {0, 1, 2, 3, 4, 5, 6, 7, 8, 9, 10}"
  by (auto simp: MAX_ORDER_def numeral_eq_Suc less_Suc_eq)

lemma free_flag:
  assumes "k < MAX_ORDER"
  shows "is_free ((of_nat k AND ORDER_MASK) OR FLAG_FREE)"
    "\<not> is_alloc ((of_nat k AND ORDER_MASK) OR FLAG_FREE)"
    "flag_order ((of_nat k AND ORDER_MASK) OR FLAG_FREE) = k"
  using assms by (auto simp: less_MAX_ORDER flag_defs)

lemma alloc_flag:
  assumes "k < MAX_ORDER"
  shows "is_alloc ((of_nat k AND ORDER_MASK) OR FLAG_ALLOCATED)"
    "\<not> is_free ((of_nat k AND ORDER_MASK) OR FLAG_ALLOCATED)"
    "flag_order ((of_nat k AND ORDER_MASK) OR FLAG_ALLOCATED) = k"
  using assms by (auto simp: less_MAX_ORDER flag_defs)

lemma reserved_flag:
  "is_alloc (FLAG_RESERVED OR FLAG_ALLOCATED)" "\<not> is_free (FLAG_RESERVED OR FLAG_ALLOCATED)"
  "flag_order (FLAG_RESERVED OR FLAG_ALLOCATED) = 0"
  by (simp_all add: flag_defs)

lemma unfree_flag [simp]:
  "\<not> is_free (f AND NOT FLAG_FREE)" "is_alloc (f AND NOT FLAG_FREE) = is_alloc f"
  "flag_order (f AND NOT FLAG_FREE) = flag_order f"
  by (simp_all add: flag_defs and.assoc)

lemma unalloc_flag [simp]:
  "\<not> is_alloc (f AND NOT FLAG_ALLOCATED)" "is_free (f AND NOT FLAG_ALLOCATED) = is_free f"
  "flag_order (f AND NOT FLAG_ALLOCATED) = flag_order f"
  by (simp_all add: flag_defs and.assoc)

lemma reserve_flag [simp]:
  "is_alloc (f OR FLAG_RESERVED) = is_alloc f" "is_free (f OR FLAG_RESERVED) = is_free f"
  "flag_order (f OR FLAG_RESERVED) = flag_order f"
  by (simp_all add: flag_defs and.assoc bit.conj_disj_distrib2)

section \<open>Linked segments\<close>

text \<open>\<open>seg nx pv q xs e\<close>: the frames \<open>xs\<close> are linked in order; \<open>q\<close> precedes the first
  and \<open>e\<close> follows the last.\<close>

definition first_pfn :: "nat list \<Rightarrow> u32 \<Rightarrow> u32" where
  "first_pfn xs e = (case xs of [] \<Rightarrow> e | x # _ \<Rightarrow> of_nat x)"

definition last_pfn :: "u32 \<Rightarrow> nat list \<Rightarrow> u32" where
  "last_pfn q xs = (if xs = [] then q else of_nat (last xs))"

primrec seg :: "u32 list \<Rightarrow> u32 list \<Rightarrow> u32 \<Rightarrow> nat list \<Rightarrow> u32 \<Rightarrow> bool" where
  "seg nx pv q [] e \<longleftrightarrow> True"
| "seg nx pv q (x # xs) e \<longleftrightarrow>
    pv ! x = q \<and> nx ! x = first_pfn xs e \<and> seg nx pv (of_nat x) xs e"

lemma first_pfn_simps [simp]:
  "first_pfn [] e = e" "first_pfn (x # xs) e = of_nat x"
  "first_pfn (xs @ ys) e = first_pfn xs (first_pfn ys e)"
  by (auto simp: first_pfn_def split: list.splits)

lemma last_pfn_simps [simp]:
  "last_pfn q [] = q" "last_pfn q (x # xs) = last_pfn (of_nat x) xs"
  by (auto simp: last_pfn_def)

lemma seg_append:
  "seg nx pv q (xs @ ys) e \<longleftrightarrow>
    seg nx pv q xs (first_pfn ys e) \<and> seg nx pv (last_pfn q xs) ys e"
  by (induction xs arbitrary: q) auto

lemma seg_update_other [simp]:
  "i \<notin> set xs \<Longrightarrow> seg (nx[i := v]) pv q xs e = seg nx pv q xs e"
  "i \<notin> set xs \<Longrightarrow> seg nx (pv[i := v]) q xs e = seg nx pv q xs e"
  by (induction xs arbitrary: q) auto

lemma seg_relink_end:
  assumes "seg nx pv q xs e" "xs \<noteq> []" "distinct xs" "last xs < length nx"
  shows "seg (nx[last xs := e']) pv q xs e'"
proof -
  obtain ws l where "xs = ws @ [l]" using assms(2) by (metis rev_exhaust)
  then show ?thesis using assms by (simp add: seg_append)
qed

lemma seg_relink_start:
  assumes "seg nx pv q xs e" "xs \<noteq> []" "distinct xs" "hd xs < length pv"
  shows "seg nx (pv[hd xs := q']) q' xs e"
  using assms by (cases xs) auto

text \<open>Unlinking a frame, as \<open>list_remove\<close> does it.\<close>

lemma seg_unlink:
  assumes s: "seg nx pv q (ys @ x # zs) e"
    and d: "distinct (ys @ x # zs)"
    and n: "\<forall>i\<in>set (ys @ x # zs). i < length nx" and p: "\<forall>i\<in>set (ys @ x # zs). i < length pv"
    and nx': "nx' = (if ys \<noteq> [] then nx[last ys := nx ! x] else nx)"
    and pv': "pv' = (if zs \<noteq> [] then pv[hd zs := pv ! x] else pv)"
  shows "seg (nx'[x := u]) (pv'[x := v]) q (ys @ zs) e"
proof -
  have a: "seg nx pv q ys (of_nat x)" "pv ! x = last_pfn q ys" "nx ! x = first_pfn zs e"
    "seg nx pv (of_nat x) zs e"
    using s by (auto simp: seg_append)
  have l: "last ys \<in> set ys" "last ys \<notin> set zs" if "ys \<noteq> []"
    using that d by simp_all (metis disjoint_iff last_in_set)
  have h: "hd zs \<in> set zs" "hd zs \<notin> set ys" if "zs \<noteq> []"
    using that d by simp_all (metis disjoint_iff hd_in_set)
  have "seg nx' pv q ys (first_pfn zs e)"
    using a d n l by (auto simp: nx' intro: seg_relink_end)
  then have "seg nx' pv' q ys (first_pfn zs e)"
    using d h by (auto simp: pv')
  moreover have "seg nx pv' (last_pfn q ys) zs e"
    using a d p h by (auto simp: pv' intro: seg_relink_start)
  then have "seg nx' pv' (last_pfn q ys) zs e"
    using d l by (auto simp: nx')
  ultimately show ?thesis
    using d by (simp add: seg_append)
qed

section \<open>The invariant\<close>

type_synonym block = "nat \<times> nat"

definition frames :: "block \<Rightarrow> nat set" where
  "frames b = {fst b ..< fst b + 2 ^ snd b}"

definition flagged :: "(u8 \<Rightarrow> bool) \<Rightarrow> u8 list \<Rightarrow> block set" where
  "flagged P fl = {(p, k). p < length fl \<and> P (fl ! p) \<and> k = flag_order (fl ! p)}"

definition free_blocks :: "buddy_allocator \<Rightarrow> block set" where
  "free_blocks s = flagged is_free (pfn_flags s)"

definition alloc_blocks :: "buddy_allocator \<Rightarrow> block set" where
  "alloc_blocks s = flagged is_alloc (pfn_flags s)"

definition free_set :: "buddy_allocator \<Rightarrow> nat set" where
  "free_set s = \<Union> (frames ` free_blocks s)"

definition alloc_set :: "buddy_allocator \<Rightarrow> nat set" where
  "alloc_set s = \<Union> (frames ` alloc_blocks s)"

text \<open>Blocks are aligned, inside the tracked frames and pairwise disjoint.\<close>

definition block_ok :: "nat \<Rightarrow> block \<Rightarrow> bool" where
  "block_ok n b \<longleftrightarrow> snd b < MAX_ORDER \<and> 2 ^ snd b dvd fst b \<and> fst b + 2 ^ snd b \<le> n"

definition geometry :: "nat \<Rightarrow> block set \<Rightarrow> block set \<Rightarrow> bool" where
  "geometry n F A \<longleftrightarrow> F \<inter> A = {} \<and> (\<forall>b\<in>F \<union> A. block_ok n b) \<and> (\<forall>b\<in>F. 0 < fst b) \<and>
    (\<forall>b\<in>F \<union> A. \<forall>c\<in>F \<union> A. b \<noteq> c \<longrightarrow> frames b \<inter> frames c = {})"

text \<open>Each order's list links exactly the free blocks of that order.\<close>

definition head_pfn :: "nat list \<Rightarrow> nat option" where
  "head_pfn xs = (case xs of [] \<Rightarrow> None | x # _ \<Rightarrow> Some x)"

definition chained :: "buddy_allocator \<Rightarrow> (nat \<Rightarrow> nat list) \<Rightarrow> bool" where
  "chained s L \<longleftrightarrow> (\<forall>k<MAX_ORDER. distinct (L k) \<and> set (L k) = {p. (p, k) \<in> free_blocks s} \<and>
    free_lists s ! k = head_pfn (L k) \<and> seg (next_free s) (prev_free s) NO_PFN (L k) NO_PFN)"

definition linked :: "buddy_allocator \<Rightarrow> bool" where
  "linked s \<longleftrightarrow> length (free_lists s) = MAX_ORDER \<and> length (next_free s) = max_pfn s \<and>
    length (prev_free s) = max_pfn s \<and> length (pfn_flags s) = max_pfn s \<and>
    length (refcounts s) = max_pfn s \<and> max_pfn s \<le> MAX_SUPPORTED_FRAMES \<and> (\<exists>L. chained s L)"

definition buddy_inv :: "buddy_allocator \<Rightarrow> bool" where
  "buddy_inv s \<longleftrightarrow> linked s \<and> geometry (max_pfn s) (free_blocks s) (alloc_blocks s) \<and>
    (\<forall>p<max_pfn s. refcounts s ! p \<noteq> 0 \<longrightarrow> is_alloc (pfn_flags s ! p))"

text \<open>The invariant between operations: the counter is the number of free frames.\<close>

definition buddy_ok :: "buddy_allocator \<Rightarrow> bool" where
  "buddy_ok s \<longleftrightarrow> buddy_inv s \<and> free_frames s = card (free_set s)"

lemma flagged_iff [simp]:
  "(p, k) \<in> flagged P fl \<longleftrightarrow> p < length fl \<and> P (fl ! p) \<and> k = flag_order (fl ! p)"
  by (auto simp: flagged_def)

lemma flagged_update:
  assumes "p < length fl"
  shows "flagged P (fl[p := f]) = {b \<in> flagged P fl. fst b \<noteq> p} \<union> (if P f then {(p, flag_order f)} else {})"
  using assms by (auto simp: nth_list_update split: if_splits)

lemma flagged_functional: "(p, k) \<in> flagged P fl \<Longrightarrow> (p, k') \<in> flagged Q fl \<Longrightarrow> k = k'"
  by simp

lemma fst_in_frames [simp]: "fst b \<in> frames b"
  by (simp add: frames_def)

lemma finite_frames [simp]: "finite (frames b)"
  by (simp add: frames_def)

lemma card_frames [simp]: "card (frames b) = 2 ^ snd b"
  by (simp add: frames_def)

lemma pfn_word:
  assumes "p < n" "n \<le> MAX_SUPPORTED_FRAMES"
  shows "unat (of_nat p :: u32) = p" "(of_nat p :: u32) \<noteq> NO_PFN"
proof -
  have p: "p < 2 ^ 24" using assms by (simp add: MAX_SUPPORTED_FRAMES_def)
  then show u: "unat (of_nat p :: u32) = p" by (simp add: unat_of_nat)
  have "unat NO_PFN = 2 ^ 32 - 1" by (simp add: NO_PFN_def unsigned_minus_1_eq_mask mask_eq_exp_minus_1)
  then show "(of_nat p :: u32) \<noteq> NO_PFN" using u p by force
qed

lemma chainedD:
  assumes "chained s L" "k < MAX_ORDER"
  shows "distinct (L k)" "set (L k) = {p. (p, k) \<in> free_blocks s}" "free_lists s ! k = head_pfn (L k)"
    "seg (next_free s) (prev_free s) NO_PFN (L k) NO_PFN"
  using assms by (auto simp: chained_def)

lemma chained_mem:
  assumes "chained s L" "k < MAX_ORDER" "p \<in> set (L k)"
  shows "p < length (pfn_flags s)" "is_free (pfn_flags s ! p)" "flag_order (pfn_flags s ! p) = k"
  using chainedD(2) [OF assms(1,2)] assms(3) by (auto simp: free_blocks_def)

lemma linkedE:
  assumes "linked s"
  obtains L where "chained s L" "length (free_lists s) = MAX_ORDER"
    "length (next_free s) = max_pfn s" "length (prev_free s) = max_pfn s"
    "length (pfn_flags s) = max_pfn s" "length (refcounts s) = max_pfn s" "max_pfn s \<le> MAX_SUPPORTED_FRAMES"
  using assms by (auto simp: linked_def)

text \<open>Pushing a block that no list holds.\<close>

lemma seg_push:
  assumes "seg nx pv q xs e" "p \<notin> set xs" "distinct xs" "p < length nx" "p < length pv"
    "\<forall>i\<in>set xs. i < length pv"
  shows "seg (nx[p := first_pfn xs e])
    (case xs of [] \<Rightarrow> pv[p := q] | h # _ \<Rightarrow> pv[p := q, h := of_nat p]) q (p # xs) e"
  using assms by (cases xs) (simp_all add: nth_list_update)

lemma list_push_linked:
  assumes l: "linked s" and k: "k < MAX_ORDER" and p: "p < max_pfn s" "\<not> is_free (pfn_flags s ! p)"
  shows "\<exists>h nx pv. list_push k p s = Some (s\<lparr>free_lists := h, next_free := nx, prev_free := pv,
      pfn_flags := (pfn_flags s)[p := (of_nat k AND ORDER_MASK) OR FLAG_FREE]\<rparr>) \<and>
    linked (s\<lparr>free_lists := h, next_free := nx, prev_free := pv,
      pfn_flags := (pfn_flags s)[p := (of_nat k AND ORDER_MASK) OR FLAG_FREE]\<rparr>)"
proof -
  obtain L where L: "chained s L" and len: "length (free_lists s) = MAX_ORDER"
    "length (next_free s) = max_pfn s" "length (prev_free s) = max_pfn s"
    "length (pfn_flags s) = max_pfn s" "length (refcounts s) = max_pfn s" "max_pfn s \<le> MAX_SUPPORTED_FRAMES"
    using l by (rule linkedE)
  let ?nx = "(next_free s)[p := first_pfn (L k) NO_PFN]"
  let ?pv = "case L k of [] \<Rightarrow> (prev_free s)[p := NO_PFN] | h # _ \<Rightarrow> (prev_free s)[p := NO_PFN, h := of_nat p]"
  let ?s = "s\<lparr>free_lists := (free_lists s)[k := Some p], next_free := ?nx, prev_free := ?pv,
    pfn_flags := (pfn_flags s)[p := (of_nat k AND ORDER_MASK) OR FLAG_FREE]\<rparr>"
  let ?L = "L(k := p # L k)"
  note mem = chained_mem [OF L]
  have notin: "p \<notin> set (L j)" if "j < MAX_ORDER" for j
    using mem(2) [OF that, of p] p by auto
  have bound: "\<forall>i\<in>set (L k). i < max_pfn s" using mem(1) [OF k] len by auto
  have disj: "q \<notin> set (L j)" if "q \<in> set (L k)" "j < MAX_ORDER" "j \<noteq> k" for q j
    using mem(3) [OF k that(1)] mem(3) [OF that(2), of q] that(3) by auto
  have push: "list_push k p s = Some ?s"
    using p k len chainedD(3) [OF L k] bound
    by (cases "L k") (simp_all add: list_push_def head_pfn_def)
  have fb: "free_blocks ?s = insert (p, k) (free_blocks s)"
    using p len free_flag [OF k] by (auto simp: free_blocks_def flagged_update)
  have "chained ?s ?L"
    unfolding chained_def
  proof (intro allI impI)
    fix j assume j: "j < MAX_ORDER"
    have "seg ?nx ?pv NO_PFN (?L j) NO_PFN"
    proof (cases "j = k")
      case True
      then show ?thesis
        using seg_push [OF chainedD(4) [OF L k] notin [OF k] chainedD(1) [OF L k]] p len bound by simp
    next
      case False
      then show ?thesis
        using chainedD(4) [OF L j] notin [OF j] disj [OF _ j] by (cases "L k") simp_all
    qed
    then show "distinct (?L j) \<and> set (?L j) = {q. (q, j) \<in> free_blocks ?s} \<and>
      free_lists ?s ! j = head_pfn (?L j) \<and> seg (next_free ?s) (prev_free ?s) NO_PFN (?L j) NO_PFN"
      using chainedD(1-3) [OF L j] notin [OF j] len k unfolding fb by (auto simp: head_pfn_def)
  qed
  then have "linked ?s"
    using len by (auto simp: linked_def split: list.splits)
  with push show ?thesis by blast
qed

text \<open>Removing a free block from its list.\<close>

lemma list_remove_linked:
  assumes l: "linked s" and k: "k < MAX_ORDER" and p: "(p, k) \<in> free_blocks s"
  shows "\<exists>h nx pv. list_remove k p s = Some (s\<lparr>free_lists := h, next_free := nx, prev_free := pv,
      pfn_flags := (pfn_flags s)[p := pfn_flags s ! p AND NOT FLAG_FREE]\<rparr>) \<and>
    linked (s\<lparr>free_lists := h, next_free := nx, prev_free := pv,
      pfn_flags := (pfn_flags s)[p := pfn_flags s ! p AND NOT FLAG_FREE]\<rparr>)"
proof -
  obtain L where L: "chained s L" and len: "length (free_lists s) = MAX_ORDER"
    "length (next_free s) = max_pfn s" "length (prev_free s) = max_pfn s"
    "length (pfn_flags s) = max_pfn s" "length (refcounts s) = max_pfn s" "max_pfn s \<le> MAX_SUPPORTED_FRAMES"
    using l by (rule linkedE)
  obtain ys zs where yz: "L k = ys @ p # zs"
    using chainedD(2) [OF L k] p by (metis (mono_tags) mem_Collect_eq split_list)
  let ?nx = "if ys \<noteq> [] then (next_free s)[last ys := next_free s ! p] else next_free s"
  let ?pv = "if zs \<noteq> [] then (prev_free s)[hd zs := prev_free s ! p] else prev_free s"
  let ?h = "if ys = [] then (free_lists s)[k := head_pfn zs] else free_lists s"
  let ?s = "s\<lparr>free_lists := ?h, next_free := ?nx[p := NO_PFN], prev_free := ?pv[p := NO_PFN],
    pfn_flags := (pfn_flags s)[p := pfn_flags s ! p AND NOT FLAG_FREE]\<rparr>"
  let ?L = "L(k := ys @ zs)"
  note mem = chained_mem [OF L]
  have bound: "\<forall>i\<in>set (L k). i < max_pfn s" using mem(1) [OF k] len by auto
  have disj: "q \<notin> set (L j)" if "q \<in> set (L k)" "j < MAX_ORDER" "j \<noteq> k" for q j
    using mem(3) [OF k that(1)] mem(3) [OF that(2), of q] that(3) by auto
  have sg: "prev_free s ! p = last_pfn NO_PFN ys" "next_free s ! p = first_pfn zs NO_PFN"
    using chainedD(4) [OF L k] by (auto simp: yz seg_append)
  have ends: "p < max_pfn s" "ys \<noteq> [] \<Longrightarrow> last ys < max_pfn s" "zs \<noteq> [] \<Longrightarrow> hd zs < max_pfn s"
    using bound by (simp_all add: yz)
  note pw = pfn_word [OF ends(2) len(6)] and nw = pfn_word [OF ends(3) len(6)]
  have remove: "list_remove k p s = Some ?s"
    using len k ends pw nw chainedD(3) [OF L k]
    by (cases "ys = []"; cases zs) (simp_all add: list_remove_def sg last_pfn_def head_pfn_def yz)
  have fb: "free_blocks ?s = free_blocks s - {(p, k)}"
    using p by (auto simp: free_blocks_def flagged_update)
  have "chained ?s ?L"
    unfolding chained_def
  proof (intro allI impI)
    fix j assume j: "j < MAX_ORDER"
    have "seg (?nx[p := NO_PFN]) (?pv[p := NO_PFN]) NO_PFN (?L j) NO_PFN"
    proof (cases "j = k")
      case True
      then show ?thesis
        using seg_unlink [OF chainedD(4) [OF L k, unfolded yz] chainedD(1) [OF L k, unfolded yz] _ _ refl refl]
          bound len by (simp add: yz)
    next
      case False
      have "p \<notin> set (L j)" "ys \<noteq> [] \<longrightarrow> last ys \<notin> set (L j)" "zs \<noteq> [] \<longrightarrow> hd zs \<notin> set (L j)"
        using disj [OF _ j False] by (simp_all add: yz)
      then show ?thesis
        using False chainedD(4) [OF L j] by simp
    qed
    moreover have "distinct (?L j)"
      using chainedD(1) [OF L j] by (auto simp: yz)
    moreover have "set (?L j) = {q. (q, j) \<in> free_blocks ?s}"
      using chainedD(1,2) [OF L j] unfolding fb by (cases "j = k") (auto simp: yz)
    moreover have "free_lists ?s ! j = head_pfn (?L j)"
      using chainedD(3) [OF L j] len j by (cases "j = k"; cases ys) (simp_all add: head_pfn_def yz)
    ultimately show "distinct (?L j) \<and> set (?L j) = {q. (q, j) \<in> free_blocks ?s} \<and>
      free_lists ?s ! j = head_pfn (?L j) \<and> seg (next_free ?s) (prev_free ?s) NO_PFN (?L j) NO_PFN"
      by simp
  qed
  then have "linked ?s"
    using len by (auto simp: linked_def)
  with remove show ?thesis by blast
qed

section \<open>List operations on the block sets\<close>

text \<open>A list operation changes the free frames to \<open>X\<close> and nothing else that is counted.\<close>

definition becomes :: "buddy_allocator \<Rightarrow> nat set \<Rightarrow> buddy_allocator \<Rightarrow> bool" where
  "becomes s X s' \<longleftrightarrow> buddy_inv s' \<and> free_set s' = X \<and> alloc_blocks s' = alloc_blocks s \<and>
    refcounts s' = refcounts s \<and> total_usable_frames s' = total_usable_frames s \<and>
    free_frames s' = free_frames s \<and> max_pfn s' = max_pfn s"

lemma becomesD:
  assumes "becomes s X s'"
  shows "buddy_inv s'" "free_set s' = X" "alloc_blocks s' = alloc_blocks s" "alloc_set s' = alloc_set s"
    "refcounts s' = refcounts s" "total_usable_frames s' = total_usable_frames s"
    "free_frames s' = free_frames s" "max_pfn s' = max_pfn s"
  using assms by (simp_all add: becomes_def alloc_set_def)

lemma becomes_trans: "becomes s X s' \<Longrightarrow> becomes s' Y s'' \<Longrightarrow> becomes s Y s''"
  by (simp add: becomes_def)

lemma becomes_refl: "buddy_inv s \<Longrightarrow> becomes s (free_set s) s"
  by (simp add: becomes_def)

lemma buddy_inv_lengths:
  assumes "buddy_inv s"
  shows "length (free_lists s) = MAX_ORDER" "length (pfn_flags s) = max_pfn s"
    "length (refcounts s) = max_pfn s" "max_pfn s \<le> MAX_SUPPORTED_FRAMES"
  using assms by (simp_all add: buddy_inv_def linked_def)

lemma geometryD:
  assumes "geometry n F A"
  shows "F \<inter> A = {}" "b \<in> F \<Longrightarrow> block_ok n b" "b \<in> A \<Longrightarrow> block_ok n b" "b \<in> F \<Longrightarrow> 0 < fst b"
    "b \<in> F \<Longrightarrow> c \<in> F \<Longrightarrow> b \<noteq> c \<Longrightarrow> frames b \<inter> frames c = {}"
    "b \<in> A \<Longrightarrow> c \<in> A \<Longrightarrow> b \<noteq> c \<Longrightarrow> frames b \<inter> frames c = {}"
    "b \<in> F \<Longrightarrow> c \<in> A \<Longrightarrow> frames b \<inter> frames c = {}"
proof -
  show "frames b \<inter> frames c = {}" if "b \<in> F" "c \<in> A"
    using assms that unfolding geometry_def by (cases "b = c") auto
qed (use assms in \<open>simp_all add: geometry_def\<close>)

lemma geometry_insert_free:
  assumes "geometry n F A" "block_ok n b" "0 < fst b"
    "frames b \<inter> (\<Union> (frames ` F) \<union> \<Union> (frames ` A)) = {}"
  shows "geometry n (insert b F) A"
proof -
  have d: "frames b \<inter> frames c = {}" if "c \<in> F \<union> A" for c using assms(4) that by blast
  then have "b \<notin> A" using fst_in_frames by (metis Int_absorb UnI2 empty_iff)
  then show ?thesis
    using assms(1-3) d by (auto simp: geometry_def Int_commute)
qed

lemma geometry_insert_alloc:
  assumes "geometry n F A" "block_ok n b"
    "frames b \<inter> (\<Union> (frames ` F) \<union> \<Union> (frames ` A)) = {}"
  shows "geometry n F (insert b A)"
proof -
  have d: "frames b \<inter> frames c = {}" if "c \<in> F \<union> A" for c using assms(3) that by blast
  then have "b \<notin> F" using fst_in_frames by (metis Int_absorb UnI1 empty_iff)
  then show ?thesis
    using assms(1-2) d by (auto simp: geometry_def Int_commute)
qed

lemma geometry_mono: "geometry n F A \<Longrightarrow> F' \<subseteq> F \<Longrightarrow> A' \<subseteq> A \<Longrightarrow> geometry n F' A'"
  unfolding geometry_def by (intro conjI ballI impI) blast+

lemma frames_remove:
  assumes "geometry n F A" "b \<in> F"
  shows "\<Union> (frames ` (F - {b})) = \<Union> (frames ` F) - frames b"
  using geometryD(5) [OF assms(1) _ assms(2)] assms(2) by blast

text \<open>The status byte of a frame outside every block says neither free nor allocated.\<close>

lemma outside_flags:
  assumes "buddy_inv s" "p < max_pfn s" "p \<notin> free_set s"
  shows "\<not> is_free (pfn_flags s ! p)"
proof
  assume "is_free (pfn_flags s ! p)"
  then have "(p, flag_order (pfn_flags s ! p)) \<in> free_blocks s"
    using assms by (simp add: free_blocks_def buddy_inv_lengths)
  then show False using assms(3) fst_in_frames by (force simp: free_set_def)
qed

lemma outside_alloc_flags:
  assumes "buddy_inv s" "p < max_pfn s" "p \<notin> alloc_set s"
  shows "\<not> is_alloc (pfn_flags s ! p)" "refcounts s ! p = 0"
proof -
  show n: "\<not> is_alloc (pfn_flags s ! p)"
  proof
    assume "is_alloc (pfn_flags s ! p)"
    then have "(p, flag_order (pfn_flags s ! p)) \<in> alloc_blocks s"
      using assms by (simp add: alloc_blocks_def buddy_inv_lengths)
    then show False using assms(3) fst_in_frames by (force simp: alloc_set_def)
  qed
  then show "refcounts s ! p = 0" using assms by (auto simp: buddy_inv_def)
qed

lemma list_push_blocks:
  assumes inv: "buddy_inv s" and b: "block_ok (max_pfn s) (p, k)" "0 < p"
    and d: "frames (p, k) \<inter> (free_set s \<union> alloc_set s) = {}"
  shows "\<exists>s'. list_push k p s = Some s' \<and> becomes s (free_set s \<union> frames (p, k)) s' \<and>
    free_blocks s' = insert (p, k) (free_blocks s)"
proof -
  let ?f = "(of_nat k AND ORDER_MASK) OR FLAG_FREE :: u8"
  have k: "k < MAX_ORDER" and p: "p < max_pfn s" using b by (auto simp: block_ok_def) (metis add_leD1 le_neq_implies_less less_add_same_cancel1 less_le_trans zero_less_numeral zero_less_power)
  have "p \<in> frames (p, k)" using fst_in_frames [of "(p, k)"] by simp
  then have out: "p \<notin> free_set s" "p \<notin> alloc_set s" using d by auto
  note nf = outside_flags [OF inv p out(1)] and na = outside_alloc_flags [OF inv p out(2)]
  obtain h nx pv where push: "list_push k p s = Some (s\<lparr>free_lists := h, next_free := nx, prev_free := pv,
      pfn_flags := (pfn_flags s)[p := ?f]\<rparr>)"
    and l: "linked (s\<lparr>free_lists := h, next_free := nx, prev_free := pv, pfn_flags := (pfn_flags s)[p := ?f]\<rparr>)"
      (is "linked ?s")
    using list_push_linked [OF _ k p nf] inv by (auto simp: buddy_inv_def)
  have fb: "free_blocks ?s = insert (p, k) (free_blocks s)"
    using p nf free_flag [OF k] inv by (auto simp: free_blocks_def flagged_update buddy_inv_lengths)
  have ab: "alloc_blocks ?s = alloc_blocks s"
    using p na free_flag [OF k] inv by (auto simp: alloc_blocks_def flagged_update buddy_inv_lengths)
  have "geometry (max_pfn s) (free_blocks ?s) (alloc_blocks ?s)"
    unfolding fb ab using inv b d
    by (intro geometry_insert_free) (auto simp: buddy_inv_def free_set_def alloc_set_def)
  moreover have "refcounts s ! q \<noteq> 0 \<longrightarrow> is_alloc ((pfn_flags s)[p := ?f] ! q)" if "q < max_pfn s" for q
    using inv na that by (cases "q = p") (auto simp: buddy_inv_def)
  ultimately have "buddy_inv ?s" using l by (simp add: buddy_inv_def)
  then have "becomes s (free_set s \<union> frames (p, k)) ?s"
    using ab by (auto simp: becomes_def free_set_def fb)
  with push fb show ?thesis by blast
qed

lemma list_push_inv:
  assumes "buddy_inv s" "block_ok (max_pfn s) (p, k)" "0 < p" "frames (p, k) \<inter> (free_set s \<union> alloc_set s) = {}"
  shows "\<exists>s'. list_push k p s = Some s' \<and> becomes s (free_set s \<union> frames (p, k)) s'"
  using list_push_blocks [OF assms] by blast

lemma list_remove_blocks:
  assumes inv: "buddy_inv s" and b: "(p, k) \<in> free_blocks s"
  shows "\<exists>s'. list_remove k p s = Some s' \<and> becomes s (free_set s - frames (p, k)) s' \<and>
    free_blocks s' = free_blocks s - {(p, k)}"
proof -
  let ?f = "pfn_flags s ! p AND NOT FLAG_FREE"
  have g: "geometry (max_pfn s) (free_blocks s) (alloc_blocks s)" using inv by (simp add: buddy_inv_def)
  have k: "k < MAX_ORDER" and p: "p < max_pfn s" "is_free (pfn_flags s ! p)" "k = flag_order (pfn_flags s ! p)"
    using geometryD(2) [OF g b] b inv by (auto simp: block_ok_def free_blocks_def buddy_inv_lengths)
  obtain h nx pv where rm: "list_remove k p s = Some (s\<lparr>free_lists := h, next_free := nx, prev_free := pv,
      pfn_flags := (pfn_flags s)[p := ?f]\<rparr>)"
    and l: "linked (s\<lparr>free_lists := h, next_free := nx, prev_free := pv, pfn_flags := (pfn_flags s)[p := ?f]\<rparr>)"
      (is "linked ?s")
    using list_remove_linked [OF _ k b] inv by (auto simp: buddy_inv_def)
  have fb: "free_blocks ?s = free_blocks s - {(p, k)}"
    using p inv by (auto simp: free_blocks_def flagged_update buddy_inv_lengths)
  have al: "is_alloc ((pfn_flags s)[p := ?f] ! q) = is_alloc (pfn_flags s ! q)"
      "flag_order ((pfn_flags s)[p := ?f] ! q) = flag_order (pfn_flags s ! q)" if "q < max_pfn s" for q
    using that inv by (cases "q = p"; simp add: buddy_inv_lengths)+
  then have ab: "alloc_blocks ?s = alloc_blocks s"
    using inv by (auto simp: alloc_blocks_def buddy_inv_lengths)
  have "geometry (max_pfn s) (free_blocks ?s) (alloc_blocks ?s)"
    unfolding fb ab using g by (rule geometry_mono) auto
  then have "buddy_inv ?s" using l inv al by (simp add: buddy_inv_def)
  then have "becomes s (free_set s - frames (p, k)) ?s"
    using ab frames_remove [OF g b] by (simp add: becomes_def free_set_def fb)
  with rm fb show ?thesis by blast
qed

lemma list_remove_inv:
  assumes "buddy_inv s" "(p, k) \<in> free_blocks s"
  shows "\<exists>s'. list_remove k p s = Some s' \<and> becomes s (free_set s - frames (p, k)) s'"
  using list_remove_blocks [OF assms] by blast

section \<open>Halves and buddies\<close>

lemma block_ok_less: "block_ok n (p, k) \<Longrightarrow> p < n"
  using less_le_trans [of p "p + 2 ^ k" n] by (simp add: block_ok_def)

lemma block_ok_halves:
  assumes "block_ok n (p, Suc k)"
  shows "block_ok n (p, k)" "block_ok n (p + 2 ^ k, k)"
  using assms by (auto simp: block_ok_def dvd_add intro: dvd_trans le_imp_power_dvd)

lemma frames_halves:
  "frames (p, Suc k) = frames (p, k) \<union> frames (p + 2 ^ k, k)"
  "frames (p, k) \<inter> frames (p + 2 ^ k, k) = {}"
  by (auto simp: frames_def)

lemma frames_mono: "j \<le> k \<Longrightarrow> frames (p, j) \<subseteq> frames (p, k)"
  using power_increasing [of j k "2::nat"] by (auto simp: frames_def)

text \<open>The buddy of an aligned block is the other half of the enclosing block.\<close>

lemma buddy_pfn:
  assumes "2 ^ k dvd (p::nat)"
  shows "p XOR push_bit k 1 = (if 2 ^ Suc k dvd p then p + 2 ^ k else p - 2 ^ k)"
proof -
  obtain m where m: "p = 2 ^ k * m" using assms by blast
  have "p XOR push_bit k 1 = push_bit k (m XOR 1)"
  proof -
    have "p = push_bit k m" by (simp add: m push_bit_eq_mult)
    then show ?thesis by (simp only: push_bit_xor)
  qed
  also have "m XOR 1 = (if even m then m + 1 else m - 1)"
    by (simp add: xor_Suc_0_eq)
  also have "push_bit k \<dots> = (if even m then p + 2 ^ k else p - 2 ^ k)"
    by (simp add: m push_bit_eq_mult algebra_simps diff_mult_distrib)
  also have "even m \<longleftrightarrow> 2 ^ Suc k dvd p" by (simp add: m mult.commute)
  finally show ?thesis .
qed

lemma odd_half:
  assumes "2 ^ k dvd (p::nat)" "\<not> 2 ^ Suc k dvd p"
  obtains q where "p = q + 2 ^ k" "2 ^ Suc k dvd q"
proof -
  obtain m where m: "p = 2 ^ k * m" using assms by blast
  with assms(2) have "odd m" by auto
  then obtain j where "m = 2 * j + 1" by (rule oddE)
  then show ?thesis using that [of "2 ^ Suc k * j"] m by (simp add: algebra_simps)
qed

lemma buddy_merge:
  assumes b: "block_ok n (p, k)" and c: "block_ok n (p XOR push_bit k 1, k)" and k: "Suc k < MAX_ORDER"
  shows "block_ok n (min p (p XOR push_bit k 1), Suc k)"
    "frames (min p (p XOR push_bit k 1), Suc k) = frames (p, k) \<union> frames (p XOR push_bit k 1, k)"
proof -
  let ?c = "p XOR push_bit k 1"
  have dvd: "2 ^ k dvd p" using b by (simp add: block_ok_def)
  have "\<exists>q. 2 ^ Suc k dvd q \<and> min p ?c = q \<and> (p = q \<and> ?c = q + 2 ^ k \<or> ?c = q \<and> p = q + 2 ^ k)"
  proof (cases "2 ^ Suc k dvd p")
    case True
    then show ?thesis using buddy_pfn [OF dvd] by auto
  next
    case False
    then obtain q where "p = q + 2 ^ k" "2 ^ Suc k dvd q" using odd_half [OF dvd] by blast
    then show ?thesis using buddy_pfn [OF dvd] False by auto
  qed
  then obtain q where q: "2 ^ Suc k dvd q" "min p ?c = q"
    and pc: "p = q \<and> ?c = q + 2 ^ k \<or> ?c = q \<and> p = q + 2 ^ k" by blast
  have "q + 2 ^ Suc k \<le> n" using pc b c by (auto simp: block_ok_def)
  with q k show "block_ok n (min p ?c, Suc k)" by (simp add: block_ok_def)
  show "frames (min p ?c, Suc k) = frames (p, k) \<union> frames (?c, k)"
    unfolding q(2) frames_halves(1) using pc by (metis Un_commute)
qed

section \<open>The loops\<close>

lemma split_block_inv:
  assumes "buddy_inv s" "block_ok (max_pfn s) (p, c)" "0 < p" "order \<le> c"
    "frames (p, c) \<inter> (free_set s \<union> alloc_set s) = {}"
  shows "\<exists>s'. split_block order p c s = Some s' \<and>
    becomes s (free_set s \<union> (frames (p, c) - frames (p, order))) s'"
  using assms
proof (induction c arbitrary: s)
  case 0
  then show ?case by (simp add: becomes_refl)
next
  case (Suc c)
  show ?case
  proof (cases "order = Suc c")
    case True
    then show ?thesis using Suc.prems by (simp add: becomes_refl)
  next
    case False
    then have le: "order \<le> c" using Suc.prems by simp
    note halves = block_ok_halves [OF Suc.prems(2)]
    obtain s1 where push: "list_push c (p + 2 ^ c) s = Some s1"
      and b: "becomes s (free_set s \<union> frames (p + 2 ^ c, c)) s1"
      using list_push_inv [OF Suc.prems(1) halves(2)] Suc.prems(5) frames_halves(1) [of p c] by auto
    note b' = becomesD [OF b]
    obtain s2 where split: "split_block order p c s1 = Some s2"
      and b2: "becomes s1 (free_set s1 \<union> (frames (p, c) - frames (p, order))) s2"
      using Suc.IH [OF b'(1) _ Suc.prems(3) le] halves(1) Suc.prems(5) frames_halves [of p c] b'
      by auto
    have "free_set s1 \<union> (frames (p, c) - frames (p, order)) =
        free_set s \<union> (frames (p, Suc c) - frames (p, order))"
      using frames_halves [of p c] frames_mono [OF le, of p] b'(2) by auto
    with becomes_trans [OF b b2] push split le show ?thesis by auto
  qed
qed

lemma carve_block_inv:
  assumes "buddy_inv s" "block_ok (max_pfn s) (h, c)" "0 < h" "p \<in> frames (h, c)"
    "frames (h, c) \<inter> (free_set s \<union> alloc_set s) = {}"
  shows "\<exists>s'. carve_block p h c s = Some s' \<and> becomes s (free_set s \<union> (frames (h, c) - {p})) s'"
  using assms
proof (induction c arbitrary: s h)
  case 0
  then have "frames (h, 0) = {p}" by (auto simp: frames_def)
  then show ?case using 0 by (simp add: becomes_refl)
next
  case (Suc c)
  note halves = block_ok_halves [OF Suc.prems(2)]
  define lo where "lo = (if p < h + 2 ^ c then h else h + 2 ^ c)"
  define hi where "hi = (if p < h + 2 ^ c then h + 2 ^ c else h)"
  have ok: "block_ok (max_pfn s) (lo, c)" "block_ok (max_pfn s) (hi, c)" "0 < lo" "0 < hi"
    using halves Suc.prems(3) by (simp_all add: lo_def hi_def)
  have fr: "frames (h, Suc c) = frames (lo, c) \<union> frames (hi, c)" "frames (lo, c) \<inter> frames (hi, c) = {}"
    "p \<in> frames (lo, c)"
    using frames_halves [of h c] Suc.prems(4) by (auto simp: lo_def hi_def frames_def)
  obtain s1 where push: "list_push c hi s = Some s1" and b: "becomes s (free_set s \<union> frames (hi, c)) s1"
    using list_push_inv [OF Suc.prems(1) ok(2,4)] Suc.prems(5) fr(1) by auto
  note b' = becomesD [OF b]
  obtain s2 where carve: "carve_block p lo c s1 = Some s2"
    and b2: "becomes s1 (free_set s1 \<union> (frames (lo, c) - {p})) s2"
    using Suc.IH [OF b'(1) _ ok(3) fr(3)] ok(1) Suc.prems(5) fr b' by auto
  have "free_set s1 \<union> (frames (lo, c) - {p}) = free_set s \<union> (frames (h, Suc c) - {p})"
    using fr b'(2) by auto
  then have "becomes s (free_set s \<union> (frames (h, Suc c) - {p})) s2"
    using becomes_trans [OF b b2] by simp
  moreover have "carve_block p h (Suc c) s = Some s2"
    using push carve by (simp add: lo_def hi_def Let_def split: if_splits)
  ultimately show ?case by blast
qed

text \<open>The loop ends with a block that cannot be merged further: it has the largest order, or its
  buddy is not a free block of the same order.\<close>

definition merged :: "block \<Rightarrow> block set \<Rightarrow> bool" where
  "merged b F \<longleftrightarrow> (Suc (snd b) < MAX_ORDER \<longrightarrow> (fst b XOR push_bit (snd b) 1, snd b) \<notin> F)"

lemma merged_insert: "merged b F \<Longrightarrow> merged b (insert b F)"
proof -
  have "p XOR push_bit k 1 \<noteq> (p::nat)" for p k
  proof
    assume "p XOR push_bit k 1 = p"
    then have "p XOR (p XOR push_bit k 1) = p XOR p" by (simp only:)
    then show False by (simp flip: xor.assoc)
  qed
  then show "merged b F \<Longrightarrow> merged b (insert b F)" by (cases b) (simp add: merged_def)
qed

lemma coalesce_stop:
  assumes inv: "buddy_inv s" and c: "\<not> (k < MAX_ORDER - 1 \<and> (p XOR push_bit k 1, k) \<in> free_blocks s)"
  shows "coalesce p k s = Some (p, k, s)"
  using c buddy_inv_lengths [OF inv] by (subst coalesce.simps)
    (auto simp: Let_def free_blocks_def is_free_def flag_order_def)

text \<open>One round: the free buddy leaves its list and the pair becomes one block.\<close>

lemma coalesce_round:
  assumes inv: "buddy_inv s" and b: "block_ok (max_pfn s) (p, k)" "0 < p"
    "frames (p, k) \<inter> (free_set s \<union> alloc_set s) = {}"
    and c: "k < MAX_ORDER - 1" "(p XOR push_bit k 1, k) \<in> free_blocks s"
  defines "q \<equiv> p XOR push_bit k 1"
  shows "\<exists>s1. list_remove k q s = Some s1 \<and> coalesce p k s = coalesce (min p q) (Suc k) s1 \<and>
    becomes s (free_set s - frames (q, k)) s1 \<and> free_blocks s1 = free_blocks s - {(q, k)} \<and>
    block_ok (max_pfn s1) (min p q, Suc k) \<and> 0 < min p q \<and>
    frames (min p q, Suc k) \<inter> (free_set s1 \<union> alloc_set s1) = {} \<and>
    frames (min p q, Suc k) = frames (p, k) \<union> frames (q, k) \<and> frames (q, k) \<subseteq> free_set s"
proof -
  note len = buddy_inv_lengths [OF inv]
  have g: "geometry (max_pfn s) (free_blocks s) (alloc_blocks s)" using inv by (simp add: buddy_inv_def)
  have qf: "(q, k) \<in> free_blocks s" using c(2) by (simp only: q_def)
  have q: "block_ok (max_pfn s) (q, k)" "0 < q" using geometryD(2,4) [OF g qf] by simp_all
  have k: "Suc k < MAX_ORDER" using c(1) by linarith
  note m = buddy_merge [OF b(1) q(1) [unfolded q_def] k, folded q_def]
  obtain s1 where rm: "list_remove k q s = Some s1" and b1: "becomes s (free_set s - frames (q, k)) s1"
    and fb: "free_blocks s1 = free_blocks s - {(q, k)}"
    using list_remove_blocks [OF inv qf] by blast
  note b' = becomesD [OF b1]
  have "q < max_pfn s" using block_ok_less [OF q(1)] .
  then have step: "coalesce p k s = coalesce (min p q) (Suc k) s1"
    using c(1) qf len rm unfolding q_def by (subst coalesce.simps)
      (simp add: Let_def free_blocks_def is_free_def flag_order_def del: coalesce.simps)
  have sub: "frames (q, k) \<subseteq> free_set s" using qf by (auto simp: free_set_def)
  have "frames (q, k) \<inter> alloc_set s = {}"
    using geometryD(7) [OF g qf] by (auto simp: alloc_set_def)
  then have "frames (min p q, Suc k) \<inter> (free_set s1 \<union> alloc_set s1) = {}"
    using b(3) b' m(2) by auto
  with rm step b1 fb m b(2) q(2) b'(8) sub show ?thesis by auto
qed

lemma coalesce_inv:
  assumes "buddy_inv s" "block_ok (max_pfn s) (p, k)" "0 < p"
    "frames (p, k) \<inter> (free_set s \<union> alloc_set s) = {}"
  shows "\<exists>p' k' s'. coalesce p k s = Some (p', k', s') \<and> block_ok (max_pfn s) (p', k') \<and> 0 < p' \<and>
    becomes s (free_set s') s' \<and> frames (p', k') \<inter> (free_set s' \<union> alloc_set s) = {} \<and>
    frames (p', k') \<union> free_set s' = frames (p, k) \<union> free_set s \<and> frames (p, k) \<subseteq> frames (p', k') \<and>
    free_blocks s' = {b \<in> free_blocks s. frames b \<inter> frames (p', k') = {}} \<and> merged (p', k') (free_blocks s')"
  using assms
proof (induction "MAX_ORDER - k" arbitrary: p k s rule: less_induct)
  case less
  let ?q = "p XOR push_bit k 1"
  show ?case
  proof (cases "k < MAX_ORDER - 1 \<and> (?q, k) \<in> free_blocks s")
    case False
    have "free_blocks s = {b \<in> free_blocks s. frames b \<inter> frames (p, k) = {}}"
      using less.prems(4) by (auto simp: free_set_def)
    moreover have "merged (p, k) (free_blocks s)" using False by (auto simp: merged_def)
    ultimately show ?thesis
      using coalesce_stop [OF less.prems(1) False] less.prems becomes_refl [OF less.prems(1)] by blast
  next
    case True
    obtain s1 where r: "coalesce p k s = coalesce (min p ?q) (Suc k) s1"
      "becomes s (free_set s - frames (?q, k)) s1" "free_blocks s1 = free_blocks s - {(?q, k)}"
      "block_ok (max_pfn s1) (min p ?q, Suc k)" "0 < min p ?q"
      "frames (min p ?q, Suc k) \<inter> (free_set s1 \<union> alloc_set s1) = {}"
      "frames (min p ?q, Suc k) = frames (p, k) \<union> frames (?q, k)" "frames (?q, k) \<subseteq> free_set s"
      using coalesce_round [OF less.prems] True by blast
    note b' = becomesD [OF r(2)]
    have "MAX_ORDER - Suc k < MAX_ORDER - k" using True by linarith
    from less.hyps [OF this b'(1) r(4,5,6)] obtain p' k' s' where
      h: "coalesce (min p ?q) (Suc k) s1 = Some (p', k', s')" "block_ok (max_pfn s1) (p', k')" "0 < p'"
        "becomes s1 (free_set s') s'" "frames (p', k') \<inter> (free_set s' \<union> alloc_set s1) = {}"
        "frames (p', k') \<union> free_set s' = frames (min p ?q, Suc k) \<union> free_set s1"
        "frames (min p ?q, Suc k) \<subseteq> frames (p', k')"
        "free_blocks s' = {b \<in> free_blocks s1. frames b \<inter> frames (p', k') = {}}" "merged (p', k') (free_blocks s')"
      by blast
    have "(?q, k) \<notin> {b. frames b \<inter> frames (p', k') = {}}"
      using h(7) r(7) fst_in_frames [of "(?q, k)"] by auto
    then have "free_blocks s' = {b \<in> free_blocks s. frames b \<inter> frames (p', k') = {}}" using h(8) r(3) by auto
    moreover have "frames (p', k') \<union> free_set s' = frames (p, k) \<union> free_set s" using h(6) r(7,8) b'(2) by auto
    moreover have "frames (p, k) \<subseteq> frames (p', k')" using h(7) r(7) by auto
    ultimately show ?thesis
      using h r(1) b' becomes_trans [OF r(2) h(4)] by auto
  qed
qed

declare first_order.simps [simp del] push_range.simps [simp del] coalesce.simps [simp del]

lemma block_ok_shrink:
  assumes "block_ok n (p, c)" "k \<le> c"
  shows "block_ok n (p, k)"
proof -
  have "(2::nat) ^ k dvd 2 ^ c" by (rule le_imp_power_dvd [OF assms(2)])
  moreover have "(2::nat) ^ k \<le> 2 ^ c" using assms(2) by simp
  then have "p + 2 ^ k \<le> n" using assms(1) by (simp only: block_ok_def fst_conv snd_conv) linarith
  ultimately show ?thesis using assms by (auto simp: block_ok_def intro: dvd_trans)
qed

section \<open>Status changes\<close>

lemma linked_flags:
  assumes "linked s" "free_blocks s' = free_blocks s" "free_lists s' = free_lists s"
    "next_free s' = next_free s" "prev_free s' = prev_free s" "max_pfn s' = max_pfn s"
    "length (pfn_flags s') = max_pfn s" "length (refcounts s') = max_pfn s"
  shows "linked s'"
  using assms by (auto simp: linked_def chained_def)

lemma allocate_inv:
  assumes inv: "buddy_inv s" and b: "block_ok (max_pfn s) (p, k)"
    and d: "frames (p, k) \<inter> (free_set s \<union> alloc_set s) = {}"
    and f: "is_alloc f" "\<not> is_free f" "flag_order f = k"
    and s': "s' = s\<lparr>pfn_flags := (pfn_flags s)[p := f], refcounts := (refcounts s)[p := 1],
      free_frames := n\<rparr>"
  shows "buddy_inv s'" "free_blocks s' = free_blocks s" "free_set s' = free_set s"
    "alloc_blocks s' = insert (p, k) (alloc_blocks s)"
proof -
  have p: "p < max_pfn s" using b by (rule block_ok_less)
  have "p \<in> frames (p, k)" using fst_in_frames [of "(p, k)"] by simp
  then have out: "p \<notin> free_set s" "p \<notin> alloc_set s" using d by auto
  note nf = outside_flags [OF inv p out(1)] and na = outside_alloc_flags [OF inv p out(2)]
  note len = buddy_inv_lengths [OF inv]
  have fl: "flagged is_free ((pfn_flags s)[p := f]) = free_blocks s"
    using nf f p len by (auto simp: free_blocks_def flagged_update)
  then show fb: "free_blocks s' = free_blocks s" by (simp add: s' free_blocks_def)
  then show "free_set s' = free_set s" by (simp add: free_set_def)
  show ab: "alloc_blocks s' = insert (p, k) (alloc_blocks s)"
    using na f p len by (auto simp: s' alloc_blocks_def flagged_update)
  have "geometry (max_pfn s) (free_blocks s') (alloc_blocks s')"
    unfolding fb ab using inv b d
    by (intro geometry_insert_alloc) (auto simp: buddy_inv_def free_set_def alloc_set_def)
  moreover have "linked s'"
    using inv fb len by (intro linked_flags [of s s']) (auto simp: buddy_inv_def s')
  moreover have "refcounts s' ! q \<noteq> 0 \<longrightarrow> is_alloc (pfn_flags s' ! q)" if "q < max_pfn s" for q
    using inv f that len by (cases "q = p") (auto simp: buddy_inv_def s')
  ultimately show "buddy_inv s'" by (simp add: buddy_inv_def s')
qed

lemma release_inv:
  assumes inv: "buddy_inv s" and b: "(p, k) \<in> alloc_blocks s"
    and s': "s' = s\<lparr>pfn_flags := (pfn_flags s)[p := pfn_flags s ! p AND NOT FLAG_ALLOCATED],
      refcounts := (refcounts s)[p := 0], free_frames := n\<rparr>"
  shows "buddy_inv s'" "free_set s' = free_set s" "alloc_blocks s' = alloc_blocks s - {(p, k)}"
    "frames (p, k) \<inter> (free_set s' \<union> alloc_set s') = {}" "free_blocks s' = free_blocks s"
proof -
  note len = buddy_inv_lengths [OF inv]
  have p: "p < max_pfn s" "k = flag_order (pfn_flags s ! p)"
    using b len by (auto simp: alloc_blocks_def)
  have g: "geometry (max_pfn s) (free_blocks s) (alloc_blocks s)" using inv by (simp add: buddy_inv_def)
  have fr: "is_free ((pfn_flags s)[p := pfn_flags s ! p AND NOT FLAG_ALLOCATED] ! q) = is_free (pfn_flags s ! q)"
      "flag_order ((pfn_flags s)[p := pfn_flags s ! p AND NOT FLAG_ALLOCATED] ! q) = flag_order (pfn_flags s ! q)"
    if "q < max_pfn s" for q
    using that len by (cases "q = p"; simp)+
  then have fl: "flagged is_free ((pfn_flags s)[p := pfn_flags s ! p AND NOT FLAG_ALLOCATED]) = free_blocks s"
    using len by (auto simp: free_blocks_def)
  then show fb: "free_blocks s' = free_blocks s" by (simp add: s' free_blocks_def)
  then show fs: "free_set s' = free_set s" by (simp add: free_set_def)
  show ab: "alloc_blocks s' = alloc_blocks s - {(p, k)}"
    using p len by (auto simp: s' alloc_blocks_def flagged_update)
  have "geometry (max_pfn s) (free_blocks s') (alloc_blocks s')"
    unfolding fb ab using g by (rule geometry_mono) auto
  moreover have "linked s'"
    using inv fb len by (intro linked_flags [of s s']) (auto simp: buddy_inv_def s')
  moreover have "refcounts s' ! q \<noteq> 0 \<longrightarrow> is_alloc (pfn_flags s' ! q)" if "q < max_pfn s" for q
    using inv that len by (cases "q = p") (auto simp: buddy_inv_def s')
  ultimately show "buddy_inv s'" by (simp add: buddy_inv_def s')
  show "frames (p, k) \<inter> (free_set s' \<union> alloc_set s') = {}"
    using geometryD(6) [OF g b] geometryD(7) [OF g _ b] unfolding free_set_def alloc_set_def fb ab by blast
qed

lemma finite_free_set: "buddy_inv s \<Longrightarrow> finite (free_set s)"
  unfolding free_set_def free_blocks_def
proof (intro finite_UN_I)
  have "flagged is_free (pfn_flags s) \<subseteq> (\<lambda>p. (p, flag_order (pfn_flags s ! p))) ` {..<length (pfn_flags s)}"
    by (auto simp: flagged_def)
  then show "finite (flagged is_free (pfn_flags s))" by (rule finite_subset) simp
qed simp

section \<open>Allocation\<close>

lemma head_None_iff:
  assumes "buddy_inv s" "k < MAX_ORDER"
  shows "free_lists s ! k = None \<longleftrightarrow> (\<nexists>p. (p, k) \<in> free_blocks s)"
    and "free_lists s ! k = Some p \<Longrightarrow> (p, k) \<in> free_blocks s"
proof -
  obtain L where L: "chained s L" using assms(1) by (auto simp: buddy_inv_def elim: linkedE)
  note c = chainedD(2,3) [OF L assms(2)]
  show "free_lists s ! k = None \<longleftrightarrow> (\<nexists>p. (p, k) \<in> free_blocks s)"
    using c by (cases "L k") (auto simp: head_pfn_def)
  show "(p, k) \<in> free_blocks s" if "free_lists s ! k = Some p"
    using c that by (cases "L k") (auto simp: head_pfn_def)
qed

lemma first_order_inv:
  assumes "buddy_inv s" "k \<le> MAX_ORDER"
  shows "\<exists>c. first_order k (free_lists s) = Some c \<and> k \<le> c \<and> c \<le> MAX_ORDER \<and>
    (\<forall>j. k \<le> j \<and> j < c \<longrightarrow> (\<nexists>p. (p, j) \<in> free_blocks s)) \<and>
    (c < MAX_ORDER \<longrightarrow> free_lists s ! c \<noteq> None)"
  using assms(2)
proof (induction "MAX_ORDER - k" arbitrary: k)
  case 0
  then show ?case by (subst first_order.simps) auto
next
  case (Suc n)
  then have k: "k < MAX_ORDER" and n: "n = MAX_ORDER - Suc k" by simp_all
  note len = buddy_inv_lengths [OF assms(1)]
  show ?case
  proof (cases "free_lists s ! k = None")
    case True
    then have "first_order k (free_lists s) = first_order (Suc k) (free_lists s)"
      using k len by (subst first_order.simps) simp
    moreover obtain c where "first_order (Suc k) (free_lists s) = Some c" "Suc k \<le> c" "c \<le> MAX_ORDER"
      "\<forall>j. Suc k \<le> j \<and> j < c \<longrightarrow> (\<nexists>p. (p, j) \<in> free_blocks s)" "c < MAX_ORDER \<longrightarrow> free_lists s ! c \<noteq> None"
      using Suc.hyps(1) [OF n] k by (auto simp: Suc_le_eq)
    moreover have "\<nexists>p. (p, k) \<in> free_blocks s" using head_None_iff(1) [OF assms(1) k] True by simp
    ultimately show ?thesis by (metis Suc_leD Suc_leI le_neq_implies_less)
  next
    case False
    then have "first_order k (free_lists s) = Some k" using k len by (subst first_order.simps) auto
    then show ?thesis using False k by auto
  qed
qed

text \<open>Popping a free block and splitting it down to order \<open>k\<close>.\<close>

lemma take_block_inv:
  assumes inv: "buddy_inv s" and pb: "(p, c) \<in> free_blocks s" and c: "k \<le> c"
  shows "\<exists>s1 s2. list_remove c p s = Some s1 \<and> split_block k p c s1 = Some s2 \<and>
      becomes s (free_set s - frames (p, k)) s2"
    "0 < p" "block_ok (max_pfn s) (p, k)" "frames (p, k) \<subseteq> free_set s" "frames (p, k) \<inter> alloc_set s = {}"
proof -
  have g: "geometry (max_pfn s) (free_blocks s) (alloc_blocks s)" using inv by (simp add: buddy_inv_def)
  have ob: "block_ok (max_pfn s) (p, c)" "0 < p" using geometryD(2,4) [OF g pb] by simp_all
  then show "0 < p" "block_ok (max_pfn s) (p, k)" using c by (auto intro: block_ok_shrink)
  have fk: "frames (p, k) \<subseteq> frames (p, c)" by (rule frames_mono [OF c])
  have sub: "frames (p, c) \<subseteq> free_set s" using pb by (auto simp: free_set_def)
  have dis: "frames (p, c) \<inter> alloc_set s = {}" using geometryD(7) [OF g pb] by (auto simp: alloc_set_def)
  with fk sub show "frames (p, k) \<subseteq> free_set s" "frames (p, k) \<inter> alloc_set s = {}" by auto
  obtain s1 where rm: "list_remove c p s = Some s1" and b1: "becomes s (free_set s - frames (p, c)) s1"
    using list_remove_inv [OF inv pb] by blast
  note d1 = becomesD [OF b1]
  have "frames (p, c) \<inter> (free_set s1 \<union> alloc_set s1) = {}" using d1 dis by auto
  then obtain s2 where sp: "split_block k p c s1 = Some s2"
    and b2: "becomes s1 (free_set s1 \<union> (frames (p, c) - frames (p, k))) s2"
    using split_block_inv [OF d1(1) _ ob(2) c] ob(1) d1(8) by auto
  have "free_set s1 \<union> (frames (p, c) - frames (p, k)) = free_set s - frames (p, k)"
    using d1(2) fk sub by auto
  then show "\<exists>s1 s2. list_remove c p s = Some s1 \<and> split_block k p c s1 = Some s2 \<and>
      becomes s (free_set s - frames (p, k)) s2"
    using rm sp becomes_trans [OF b1 b2] by auto
qed

lemma alloc_order_inv:
  assumes ok: "buddy_ok s" and k: "k < MAX_ORDER"
  shows "(alloc_order k s = Some (None, s) \<and> (\<forall>b\<in>free_blocks s. snd b < k)) \<or>
    (\<exists>p s'. alloc_order k s = Some (Some p, s') \<and> buddy_ok s' \<and> 0 < p \<and> block_ok (max_pfn s) (p, k) \<and>
      frames (p, k) \<subseteq> free_set s \<and> free_set s' = free_set s - frames (p, k) \<and>
      alloc_blocks s' = insert (p, k) (alloc_blocks s) \<and> refcounts s' = (refcounts s)[p := 1] \<and>
      total_usable_frames s' = total_usable_frames s \<and> max_pfn s' = max_pfn s)"
proof -
  have inv: "buddy_inv s" and cnt: "free_frames s = card (free_set s)" using ok by (auto simp: buddy_ok_def)
  have g: "geometry (max_pfn s) (free_blocks s) (alloc_blocks s)" using inv by (simp add: buddy_inv_def)
  note len = buddy_inv_lengths [OF inv]
  obtain c where c: "first_order k (free_lists s) = Some c" "k \<le> c" "c \<le> MAX_ORDER"
    and skip: "\<forall>j. k \<le> j \<and> j < c \<longrightarrow> (\<nexists>p. (p, j) \<in> free_blocks s)"
    and hd: "c < MAX_ORDER \<longrightarrow> free_lists s ! c \<noteq> None"
    using first_order_inv [OF inv, of k] k by auto
  show ?thesis
  proof (cases "c < MAX_ORDER")
    case False
    then have "alloc_order k s = Some (None, s)" using c k by (simp add: alloc_order_def)
    moreover have "snd b < k" if "b \<in> free_blocks s" for b
    proof (rule ccontr)
      assume "\<not> snd b < k"
      then have "\<nexists>p. (p, snd b) \<in> free_blocks s"
        using geometryD(2) [OF g that] skip False by (simp add: block_ok_def)
      then show False using that by (metis prod.collapse)
    qed
    ultimately show ?thesis by blast
  next
    case True
    then obtain p where p: "free_lists s ! c = Some p" using hd by auto
    have pb: "(p, c) \<in> free_blocks s" using head_None_iff(2) [OF inv True p] .
    note tk = take_block_inv [OF inv pb c(2)]
    obtain s1 s2 where rm: "list_remove c p s = Some s1" and sp: "split_block k p c s1 = Some s2"
      and b2: "becomes s (free_set s - frames (p, k)) s2" using tk(1) by blast
    note d2 = becomesD [OF b2]
    let ?f = "(of_nat k AND ORDER_MASK) OR FLAG_ALLOCATED :: u8"
    define s3 where "s3 = s2\<lparr>pfn_flags := (pfn_flags s2)[p := ?f], refcounts := (refcounts s2)[p := 1],
      free_frames := free_frames s2 - 2 ^ k\<rparr>"
    have "block_ok (max_pfn s2) (p, k)" "frames (p, k) \<inter> (free_set s2 \<union> alloc_set s2) = {}"
      using tk d2(2,4,8) by auto
    note pm = allocate_inv [OF d2(1) this alloc_flag [OF k] s3_def]
    have "alloc_order k s = Some (Some p, s3)"
      using k c(1) True p len rm sp d2 buddy_inv_lengths [OF d2(1)] block_ok_less [OF tk(3)]
      by (simp add: alloc_order_def list_pop_def s3_def)
    moreover have "free_frames s3 = card (free_set s3)"
      using card_Diff_subset [OF _ tk(4)] cnt d2 pm by (auto simp: s3_def)
    ultimately show ?thesis
      using pm tk d2 by (auto simp: buddy_ok_def s3_def)
  qed
qed

section \<open>Frames and addresses\<close>

definition valid_frame :: "buddy_allocator \<Rightarrow> phys_frame \<Rightarrow> bool" where
  "valid_frame s frame \<longleftrightarrow> start_address frame \<noteq> 0 \<and> page_aligned (start_address frame) \<and>
    pfn_of frame < max_pfn s"

lemma valid_frame_pos: "valid_frame s frame \<Longrightarrow> 0 < pfn_of frame"
  by (auto simp: valid_frame_def pfn_of_def page_simps unat_div PAGE_SIZE_def div_greater_zero_iff
      dvd_imp_le mod_eq_0_iff_dvd unat_gt_0)

lemma unat_frame_of:
  assumes "p < MAX_SUPPORTED_FRAMES"
  shows "unat (start_address (frame_of p)) = p * 4096"
proof -
  have p: "p < 2 ^ 24" using assms by (simp add: MAX_SUPPORTED_FRAMES_def)
  then have "unat (of_nat p :: u64) * unat PAGE_SIZE < 2 ^ LENGTH(64)"
    by (simp add: unat_of_nat PAGE_SIZE_def)
  then show ?thesis
    using p unat_mult_lem [of "of_nat p :: u64" PAGE_SIZE]
    by (simp add: frame_of_def unat_of_nat PAGE_SIZE_def)
qed

lemma pfn_of_frame_of [simp]: "p < MAX_SUPPORTED_FRAMES \<Longrightarrow> pfn_of (frame_of p) = p"
  by (simp add: pfn_of_def unat_div PAGE_SIZE_def unat_frame_of)

lemma valid_frame_of:
  assumes "buddy_inv s" "p < max_pfn s" "0 < p"
  shows "valid_frame s (frame_of p)"
proof -
  have "p < MAX_SUPPORTED_FRAMES" using assms buddy_inv_lengths(4) by fastforce
  moreover from this have "start_address (frame_of p) \<noteq> 0"
    using assms(3) unat_frame_of [of p] by (metis mult_is_0 neq0_conv unsigned_0 zero_neq_numeral)
  ultimately show ?thesis
    using assms by (simp add: valid_frame_def page_simps unat_frame_of)
qed

section \<open>Release\<close>

lemma release_block_inv:
  assumes ok: "buddy_ok s" and b: "(p, k) \<in> alloc_blocks s" and p: "0 < p"
  shows "\<exists>s'. free_order p k (s\<lparr>refcounts := (refcounts s)[p := 0]\<rparr>) = Some s' \<and> buddy_ok s' \<and>
    free_set s' = free_set s \<union> frames (p, k) \<and> alloc_blocks s' = alloc_blocks s - {(p, k)} \<and>
    refcounts s' = (refcounts s)[p := 0] \<and> max_pfn s' = max_pfn s \<and>
    (\<exists>b. frames (p, k) \<subseteq> frames b \<and> merged b (free_blocks s') \<and>
      free_blocks s' = insert b {c \<in> free_blocks s. frames c \<inter> frames b = {}})"
proof -
  have inv: "buddy_inv s" and cnt: "free_frames s = card (free_set s)" using ok by (auto simp: buddy_ok_def)
  have g: "geometry (max_pfn s) (free_blocks s) (alloc_blocks s)" using inv by (simp add: buddy_inv_def)
  have bo: "block_ok (max_pfn s) (p, k)" using geometryD(3) [OF g b] .
  define s1 where "s1 = s\<lparr>pfn_flags := (pfn_flags s)[p := pfn_flags s ! p AND NOT FLAG_ALLOCATED],
      refcounts := (refcounts s)[p := 0], free_frames := free_frames s + 2 ^ k\<rparr>"
  note r = release_inv [OF inv b s1_def]
  have m: "max_pfn s1 = max_pfn s" by (simp add: s1_def)
  obtain p' k' s2 where co: "coalesce p k s1 = Some (p', k', s2)" "block_ok (max_pfn s1) (p', k')" "0 < p'"
    and b2: "becomes s1 (free_set s2) s2" and d2: "frames (p', k') \<inter> (free_set s2 \<union> alloc_set s1) = {}"
    and u: "frames (p', k') \<union> free_set s2 = frames (p, k) \<union> free_set s1"
    and mg: "frames (p, k) \<subseteq> frames (p', k')" "merged (p', k') (free_blocks s2)"
      "free_blocks s2 = {b \<in> free_blocks s1. frames b \<inter> frames (p', k') = {}}"
    using coalesce_inv [OF r(1) _ p r(4)] bo m by auto
  note e2 = becomesD [OF b2]
  obtain s3 where pu: "list_push k' p' s2 = Some s3" and b3: "becomes s2 (free_set s2 \<union> frames (p', k')) s3"
    and f3: "free_blocks s3 = insert (p', k') (free_blocks s2)"
    using list_push_blocks [OF e2(1) _ co(3), of k'] co(2) e2(4,8) d2 by auto
  have "merged (p', k') (free_blocks s3)" unfolding f3 using mg(2) by (rule merged_insert)
  then have bl: "\<exists>b. frames (p, k) \<subseteq> frames b \<and> merged b (free_blocks s3) \<and>
      free_blocks s3 = insert b {c \<in> free_blocks s. frames c \<inter> frames b = {}}"
    using mg(1,3) f3 r(5) by (intro exI [of _ "(p', k')"]) simp
  note e3 = becomesD [OF becomes_trans [OF b2 b3]]
  have fs: "free_set s3 = free_set s \<union> frames (p, k)" using e3(2) u r(2) by auto
  have "s1 = s\<lparr>refcounts := (refcounts s)[p := 0], free_frames := free_frames s + 2 ^ k,
      pfn_flags := (pfn_flags s)[p := pfn_flags s ! p AND NOT FLAG_ALLOCATED]\<rparr>"
    unfolding s1_def by (cases s) simp
  then have "free_order p k (s\<lparr>refcounts := (refcounts s)[p := 0]\<rparr>) = Some s3"
    using co(1) pu block_ok_less [OF bo] buddy_inv_lengths [OF inv] by (simp add: free_order_def)
  moreover have "free_frames s3 = card (free_set s3)"
  proof -
    have "free_set s \<inter> frames (p, k) = {}" using r(2,4) by auto
    then have "card (free_set s3) = card (free_set s) + 2 ^ k"
      using card_Un_disjoint [OF finite_free_set [OF inv] finite_frames] fs by simp
    then show ?thesis using e3(7) cnt by (simp add: s1_def)
  qed
  ultimately show ?thesis
    using e3 fs r(3) bl by (simp add: buddy_ok_def s1_def)
qed

lemma buddy_ok_refcounts:
  assumes "buddy_ok s" "length rc = max_pfn s" "\<forall>q<max_pfn s. rc ! q \<noteq> 0 \<longrightarrow> is_alloc (pfn_flags s ! q)"
  shows "buddy_ok (s\<lparr>refcounts := rc\<rparr>)"
proof -
  have "linked (s\<lparr>refcounts := rc\<rparr>)"
    by (rule linked_flags [of s])
      (use assms(1,2) buddy_inv_lengths [of s] in \<open>simp_all add: buddy_ok_def buddy_inv_def free_blocks_def\<close>)
  then show ?thesis
    using assms by (simp add: buddy_ok_def buddy_inv_def free_set_def free_blocks_def alloc_blocks_def)
qed

lemma buddy_free_cases:
  fixes frame :: phys_frame
  assumes ok: "buddy_ok s"
  defines "p \<equiv> pfn_of frame"
  shows "\<not> valid_frame s frame \<or> refcounts s ! p = 0 \<Longrightarrow> buddy_free frame s = Some (False, s)"
    and "valid_frame s frame \<Longrightarrow> 1 < refcounts s ! p \<Longrightarrow>
      buddy_free frame s = Some (True, s\<lparr>refcounts := (refcounts s)[p := refcounts s ! p - 1]\<rparr>)"
    and "valid_frame s frame \<Longrightarrow> refcounts s ! p = 1 \<Longrightarrow>
      buddy_free frame s = map_option (Pair True)
        (free_order p (flag_order (pfn_flags s ! p)) (s\<lparr>refcounts := (refcounts s)[p := 0]\<rparr>))"
proof -
  have len: "length (refcounts s) = max_pfn s" "length (pfn_flags s) = max_pfn s"
    using ok by (simp_all add: buddy_ok_def buddy_inv_lengths)
  note d = buddy_free_def p_def pfn_of_def valid_frame_def page_aligned_def flag_order_def Let_def len
  have big: "1 < w \<longleftrightarrow> w \<noteq> 0 \<and> w \<noteq> 1" for w :: u16 
    by (auto simp: word_less_nat_alt word_unat_eq_iff)
  show "\<not> valid_frame s frame \<or> refcounts s ! p = 0 \<Longrightarrow> buddy_free frame s = Some (False, s)"
    by (auto simp: d big)
  show "valid_frame s frame \<Longrightarrow> 1 < refcounts s ! p \<Longrightarrow>
      buddy_free frame s = Some (True, s\<lparr>refcounts := (refcounts s)[p := refcounts s ! p - 1]\<rparr>)"
    by (auto simp: d)
  show "valid_frame s frame \<Longrightarrow> refcounts s ! p = 1 \<Longrightarrow>
      buddy_free frame s = map_option (Pair True)
        (free_order p (flag_order (pfn_flags s ! p)) (s\<lparr>refcounts := (refcounts s)[p := 0]\<rparr>))"
    by (auto simp: d split: bind_splits)
qed

section \<open>Reservation\<close>

lemma block_head:
  assumes "2 ^ k dvd h" "p \<in> frames (h, k)"
  shows "push_bit k (drop_bit k p) = h"
proof -
  obtain m where m: "h = 2 ^ k * m" using assms(1) by blast
  have "p div 2 ^ k = m"
    using assms(2) by (intro div_nat_eqI) (auto simp: frames_def m algebra_simps)
  then show ?thesis by (simp add: m push_bit_eq_mult drop_bit_eq_div mult.commute)
qed

lemma block_head_le: "push_bit k (drop_bit k p) \<le> (p::nat)"
  by (simp add: push_bit_eq_mult drop_bit_eq_div)

lemma reserve_search_None:
  assumes "buddy_inv s" "p < max_pfn s" "\<forall>k\<in>set ks. (push_bit k (drop_bit k p), k) \<notin> free_blocks s"
  shows "reserve_search p ks s = Some None"
  using assms(3)
proof (induction ks)
  case (Cons k ks)
  have "push_bit k (drop_bit k p) < length (pfn_flags s)"
    using block_head_le [of k p] assms(2) buddy_inv_lengths [OF assms(1)] by simp
  then show ?case
    using Cons by (auto simp: free_blocks_def is_free_def flag_order_def)
qed simp

lemma reserve_search_append:
  "reserve_search p ks s = Some None \<Longrightarrow> reserve_search p (ks @ js) s = reserve_search p js s"
  by (induction ks) (auto simp: Let_def split: bind_splits if_splits)

lemma free_block_contains:
  assumes inv: "buddy_inv s" and b: "(h, k) \<in> free_blocks s" "p \<in> frames (h, k)"
  shows "k < MAX_ORDER" "push_bit k (drop_bit k p) = h" "p < max_pfn s" "h < max_pfn s" "0 < h"
    "frames (h, k) \<subseteq> free_set s" "frames (h, k) \<inter> alloc_set s = {}" "block_ok (max_pfn s) (h, k)"
proof -
  have g: "geometry (max_pfn s) (free_blocks s) (alloc_blocks s)" using inv by (simp add: buddy_inv_def)
  show ob: "block_ok (max_pfn s) (h, k)" and "0 < h" using geometryD(2,4) [OF g b(1)] by simp_all
  then show "k < MAX_ORDER" "push_bit k (drop_bit k p) = h" "p < max_pfn s" "h < max_pfn s"
    using b(2) block_head [of k h p] block_ok_less by (auto simp: block_ok_def frames_def)
  show "frames (h, k) \<subseteq> free_set s" using b(1) by (auto simp: free_set_def)
  show "frames (h, k) \<inter> alloc_set s = {}" using geometryD(7) [OF g b(1)] by (auto simp: alloc_set_def)
qed

text \<open>The orders below that of the block holding the frame are skipped.\<close>

lemma reserve_search_reaches:
  assumes inv: "buddy_inv s" and b: "(h, k) \<in> free_blocks s" "p \<in> frames (h, k)"
  shows "reserve_search p [0..<MAX_ORDER] s = reserve_search p (k # [Suc k..<MAX_ORDER]) s"
proof -
  have g: "geometry (max_pfn s) (free_blocks s) (alloc_blocks s)" using inv by (simp add: buddy_inv_def)
  note f = free_block_contains [OF inv b]
  have "(push_bit j (drop_bit j p), j) \<notin> free_blocks s" if j: "j < k" for j
  proof
    assume c: "(push_bit j (drop_bit j p), j) \<in> free_blocks s"
    have "p < p div 2 ^ j * 2 ^ j + 2 ^ j"
    proof -
      have "p mod 2 ^ j < 2 ^ j" by simp
      then show ?thesis using div_mult_mod_eq [of p "2 ^ j"] by linarith
    qed
    then have "p \<in> frames (push_bit j (drop_bit j p), j)"
      by (simp add: frames_def push_bit_eq_mult drop_bit_eq_div)
    then show False using geometryD(5) [OF g c b(1)] b(2) j by auto
  qed
  then have "reserve_search p [0..<k] s = Some None" by (intro reserve_search_None [OF inv f(3)]) simp
  moreover have "[0..<MAX_ORDER] = [0..<k] @ k # [Suc k..<MAX_ORDER]"
    using f(1) upt_add_eq_append [of 0 k "MAX_ORDER - k"] by (simp add: upt_conv_Cons)
  ultimately show ?thesis by (simp only: reserve_search_append)
qed

text \<open>Carving one frame out of the free block that holds it.\<close>

lemma carve_frame_inv:
  assumes inv: "buddy_inv s" and b: "(h, k) \<in> free_blocks s" "p \<in> frames (h, k)"
  shows "\<exists>s1 s2. list_remove k h s = Some s1 \<and> carve_block p h k s1 = Some s2 \<and> becomes s (free_set s - {p}) s2"
proof -
  note f = free_block_contains [OF inv b]
  obtain s1 where rm: "list_remove k h s = Some s1" and b1: "becomes s (free_set s - frames (h, k)) s1"
    using list_remove_inv [OF inv b(1)] by blast
  note d1 = becomesD [OF b1]
  have "frames (h, k) \<inter> (free_set s1 \<union> alloc_set s1) = {}" using d1 f(7) by auto
  then obtain s2 where ca: "carve_block p h k s1 = Some s2"
    and b2: "becomes s1 (free_set s1 \<union> (frames (h, k) - {p})) s2"
    using carve_block_inv [OF d1(1) _ f(5) b(2)] f(8) d1(8) by auto
  have "free_set s1 \<union> (frames (h, k) - {p}) = free_set s - {p}" using d1(2) f(6) b(2) by auto
  then show ?thesis using rm ca becomes_trans [OF b1 b2] by auto
qed

lemma reserve_search_take:
  assumes ok: "buddy_ok s" and b: "(h, k) \<in> free_blocks s" "p \<in> frames (h, k)"
  shows "\<exists>s'. reserve_search p [0..<MAX_ORDER] s = Some (Some s') \<and> buddy_ok s' \<and>
    free_set s' = free_set s - {p} \<and> alloc_blocks s' = insert (p, 0) (alloc_blocks s) \<and>
    refcounts s' = (refcounts s)[p := 1]"
proof -
  have inv: "buddy_inv s" and cnt: "free_frames s = card (free_set s)" using ok by (auto simp: buddy_ok_def)
  note len = buddy_inv_lengths [OF inv] and f = free_block_contains [OF inv b]
  obtain s1 s2 where rm: "list_remove k h s = Some s1" and ca: "carve_block p h k s1 = Some s2"
    and b2: "becomes s (free_set s - {p}) s2" using carve_frame_inv [OF inv b] by blast
  note d2 = becomesD [OF b2]
  define s3 where "s3 = s2\<lparr>pfn_flags := (pfn_flags s2)[p := FLAG_RESERVED OR FLAG_ALLOCATED],
    refcounts := (refcounts s2)[p := 1], free_frames := free_frames s2 - 1\<rparr>"
  have p: "p \<in> free_set s" "p \<notin> alloc_set s" using f(6,7) b(2) by auto
  then have "block_ok (max_pfn s2) (p, 0)" "frames (p, 0) \<inter> (free_set s2 \<union> alloc_set s2) = {}"
    using f(3) d2(2,4,8) by (simp_all add: block_ok_def frames_def MAX_ORDER_def)
  note pm = allocate_inv [OF d2(1) this reserved_flag s3_def]
  have fl: "pfn_flags s ! h AND FLAG_FREE \<noteq> 0" "unat (pfn_flags s ! h AND ORDER_MASK) = k"
    using b(1) by (auto simp: free_blocks_def is_free_def flag_order_def)
  have "reserve_search p [0..<MAX_ORDER] s = Some (Some s3)"
    using fl rm ca f len d2(8) buddy_inv_lengths [OF d2(1)]
    unfolding reserve_search_reaches [OF inv b] reserve_search.simps Let_def f(2)
    by (simp add: s3_def)
  moreover have "free_frames s3 = card (free_set s3)"
    using cnt d2(2,7) pm(3) p(1) by (simp add: s3_def)
  ultimately show ?thesis
    using pm d2(2,3,5) by (simp add: buddy_ok_def s3_def)
qed

section \<open>Ranges\<close>

lemma and_low_bits: "p AND (2 ^ k - 1) = 0 \<longleftrightarrow> 2 ^ k dvd (p::nat)"
proof -
  have "p AND (2 ^ k - 1) = p mod 2 ^ k"
    by (simp only: take_bit_eq_mask mask_eq_exp_minus_1 flip: take_bit_eq_mod)
  then show ?thesis by (simp only: dvd_eq_mod_eq_0)
qed

lemma fit_order_fits:
  assumes "a < b"
  shows "a + 2 ^ fit_order a b k \<le> b" "2 ^ fit_order a b k dvd a" "fit_order a b k \<le> k"
  using assms by (induction k) (auto simp: Let_def and_low_bits [unfolded One_nat_def] simp del: power_Suc)

lemma push_range_inv:
  assumes "buddy_inv s" "0 < a" "b \<le> max_pfn s" "{a ..< b} \<inter> (free_set s \<union> alloc_set s) = {}"
  shows "\<exists>s'. push_range a b s = Some s' \<and> becomes s (free_set s \<union> {a ..< b}) s'"
  using assms
proof (induction "b - a" arbitrary: a s rule: less_induct)
  case less
  show ?case
  proof (cases "a < b")
    case False
    then show ?thesis using less.prems by (subst push_range.simps) (simp add: becomes_refl)
  next
    case True
    define k where "k = fit_order a b (MAX_ORDER - 1)"
    note fit = fit_order_fits [OF True, of "MAX_ORDER - 1", folded k_def]
    have ob: "block_ok (max_pfn s) (a, k)"
      using fit less.prems(3) by (auto simp: block_ok_def MAX_ORDER_def)
    have split: "{a ..< b} = frames (a, k) \<union> {a + 2 ^ k ..< b}" "frames (a, k) \<inter> {a + 2 ^ k ..< b} = {}"
      using fit(1) by (auto simp: frames_def)
    obtain s1 where push: "list_push k a s = Some s1" and b1: "becomes s (free_set s \<union> frames (a, k)) s1"
      using list_push_inv [OF less.prems(1) ob less.prems(2)] less.prems(4) split(1) by auto
    note d1 = becomesD [OF b1]
    have "b - (a + 2 ^ k) < b - a" using True by (intro diff_less_mono2) simp_all
    moreover have "{a + 2 ^ k ..< b} \<inter> (free_set s1 \<union> alloc_set s1) = {}"
      using less.prems(4) split d1 by auto
    ultimately obtain s2 where rec: "push_range (a + 2 ^ k) b s1 = Some s2"
      and b2: "becomes s1 (free_set s1 \<union> {a + 2 ^ k ..< b}) s2"
      using less.hyps [of "a + 2 ^ k" s1] d1(1,8) less.prems(2,3) by auto
    have "push_range a b s = Some s2"
      using True push rec by (subst push_range.simps) (simp add: k_def)
    moreover have "free_set s1 \<union> {a + 2 ^ k ..< b} = free_set s \<union> {a ..< b}"
      using d1(2) split(1) by auto
    ultimately show ?thesis using becomes_trans [OF b1 b2] by auto
  qed
qed

text \<open>The tracked frames lying wholly inside a byte range, the null frame excepted.\<close>

definition range_frames :: "nat \<Rightarrow> nat \<Rightarrow> nat \<Rightarrow> nat set" where
  "range_frames base len n = {p. 0 < p \<and> p < n \<and> base \<le> p * 4096 \<and> Suc p * 4096 \<le> base + len}"

lemma unat_frame_align_up:
  "unat (frame_align_up a) = min (unat a + 4095) (2 ^ 64 - 1) div 4096 * 4096"
proof -
  have "frame_align_up a = page_down (saturating_add a (PAGE_SIZE - 1))"
    by (simp add: frame_align_up_def page_down_def)
  moreover have "unat (saturating_add a (PAGE_SIZE - 1)) = min (unat a + 4095) (2 ^ 64 - 1)"
    by (simp add: unat_saturating_add PAGE_SIZE_def)
  ultimately show ?thesis by (simp only: unat_page_down)
qed

lemma range_frames_interval:
  assumes "base + len < 2 ^ 64"
  shows "range_frames base len n =
    {max (min (base + 4095) (2 ^ 64 - 1) div 4096) 1 ..< min ((base + len) div 4096) n}"
proof -
  have lo: "min (base + 4095) (2 ^ 64 - 1) div 4096 \<le> p \<longleftrightarrow> min (base + 4095) (2 ^ 64 - 1) < Suc p * 4096" for p
    by (simp only: less_Suc_eq_le [symmetric] div_less_iff_less_mult [OF zero_less_numeral])
  have hi: "p < (base + len) div 4096 \<longleftrightarrow> Suc p * 4096 \<le> base + len" for p
    by (simp only: Suc_le_eq [symmetric] less_eq_div_iff_mult_less_eq [OF zero_less_numeral])
  show ?thesis
    unfolding range_frames_def
    by (rule set_eqI) (use assms in \<open>simp only: mem_Collect_eq atLeastLessThan_iff max.bounded_iff min_less_iff_conj lo hi; auto\<close>)
qed

text \<open>The page bounds \<open>add_range\<close> computes are those of the frames inside the range.\<close>

lemma add_range_bounds:
  assumes no: "unat base + unat len < 2 ^ 64"
  defines "first \<equiv> max (frame_align_up base) PAGE_SIZE" and "final \<equiv> (base + len) AND NOT (PAGE_SIZE - 1)"
  shows "range_frames (unat base) (unat len) n =
      {unat (first div PAGE_SIZE) ..< min (unat (final div PAGE_SIZE)) n}"
    "0 < unat (first div PAGE_SIZE)"
    "final \<le> first \<Longrightarrow> min (unat (final div PAGE_SIZE)) n \<le> unat (first div PAGE_SIZE)"
proof -
  have sum: "unat (base + len) = unat base + unat len" using no by (intro unat_add_no_overflow) simp
  have fi: "unat first = max (unat (frame_align_up base)) 4096"
    by (simp add: first_def max_def word_le_nat_alt PAGE_SIZE_def)
  have la: "unat final = (unat base + unat len) div 4096 * 4096"
    using unat_page_down [of "base + len"] sum by (simp add: page_down_def final_def)
  have ua: "unat (first div PAGE_SIZE) = max (min (unat base + 4095) (2 ^ 64 - 1) div 4096) 1"
  proof -
    have "max (m * 4096) 4096 div 4096 = max m (1::nat)" for m by (auto simp: max_def)
    moreover have "unat PAGE_SIZE = 4096" by (simp add: PAGE_SIZE_def)
    ultimately show ?thesis unfolding unat_div fi unat_frame_align_up by (simp only:)
  qed
  have ub: "unat (final div PAGE_SIZE) = (unat base + unat len) div 4096"
    unfolding unat_div la by (simp add: PAGE_SIZE_def)
  show "range_frames (unat base) (unat len) n =
      {unat (first div PAGE_SIZE) ..< min (unat (final div PAGE_SIZE)) n}"
    unfolding ua ub by (rule range_frames_interval [OF no])
  show "0 < unat (first div PAGE_SIZE)" unfolding ua by (simp add: max_def)
  show "min (unat (final div PAGE_SIZE)) n \<le> unat (first div PAGE_SIZE)" if "final \<le> first"
    using that by (simp add: word_le_nat_alt unat_div div_le_mono min.coboundedI1)
qed

lemma buddy_inv_counters:
  fixes t n :: nat
  assumes "buddy_inv s"
  defines "s' \<equiv> s\<lparr>total_usable_frames := t, free_frames := n\<rparr>"
  shows "buddy_inv s'" "free_set s' = free_set s" "alloc_set s' = alloc_set s"
    "alloc_blocks s' = alloc_blocks s" "max_pfn s' = max_pfn s" "free_frames s' = n"
proof -
  show "free_set s' = free_set s" "alloc_set s' = alloc_set s" "alloc_blocks s' = alloc_blocks s"
    "max_pfn s' = max_pfn s" "free_frames s' = n"
    by (simp_all add: s'_def free_set_def alloc_set_def free_blocks_def alloc_blocks_def)
  have "linked s'" by (rule linked_flags [of s])
    (use assms(1) buddy_inv_lengths [OF assms(1)] in \<open>simp_all add: s'_def buddy_inv_def free_blocks_def\<close>)
  then show "buddy_inv s'" using assms(1) by (simp add: s'_def buddy_inv_def free_blocks_def alloc_blocks_def)
qed

lemma add_range_inv:
  assumes ok: "buddy_ok s" and no: "unat base + unat len < 2 ^ 64"
    and d: "range_frames (unat base) (unat len) (max_pfn s) \<inter> (free_set s \<union> alloc_set s) = {}"
  shows "\<exists>s'. add_range base len s = Some (card (range_frames (unat base) (unat len) (max_pfn s)), s') \<and>
    buddy_ok s' \<and> free_set s' = free_set s \<union> range_frames (unat base) (unat len) (max_pfn s) \<and>
    alloc_blocks s' = alloc_blocks s \<and> max_pfn s' = max_pfn s \<and>
    total_usable_frames s' + free_frames s = total_usable_frames s + free_frames s'"
proof -
  let ?first = "max (frame_align_up base) PAGE_SIZE"
  let ?final = "(base + len) AND NOT (PAGE_SIZE - 1)"
  define a where "a = unat (?first div PAGE_SIZE)"
  define b where "b = min (unat (?final div PAGE_SIZE)) (max_pfn s)"
  have inv: "buddy_inv s" and cnt: "free_frames s = card (free_set s)" using ok by (auto simp: buddy_ok_def)
  note bd = add_range_bounds(1) [OF no, of "max_pfn s", folded a_def b_def]
    add_range_bounds(2) [OF no, folded a_def] add_range_bounds(3) [OF no, of "max_pfn s", folded a_def b_def]
  show ?thesis
  proof (cases "b \<le> a")
    case True
    then have "add_range base len s = Some (0, s)"
      using no by (simp add: add_range_def checked_add_def Let_def a_def b_def)
    then show ?thesis using ok bd(1) True by simp
  next
    case False
    then have nf: "\<not> ?final \<le> ?first" using bd(3) by blast
    define s1 where "s1 = s\<lparr>total_usable_frames := total_usable_frames s + (b - a), free_frames := free_frames s + (b - a)\<rparr>"
    note s1 = buddy_inv_counters [OF inv, where t = "total_usable_frames s + (b - a)"
        and n = "free_frames s + (b - a)", folded s1_def]
    have "b \<le> max_pfn s1" by (simp add: s1(5) b_def)
    moreover have "{a ..< b} \<inter> (free_set s1 \<union> alloc_set s1) = {}" using d bd(1) s1(2,3) by simp
    ultimately obtain s2 where pr: "push_range a b s1 = Some s2" and b2: "becomes s1 (free_set s \<union> {a ..< b}) s2"
      using push_range_inv [OF s1(1) bd(2), of b] s1(2) by auto
    note d2 = becomesD [OF b2]
    have "card (free_set s \<union> {a ..< b}) = card (free_set s) + (b - a)"
      using d bd(1) finite_free_set [OF inv] by (subst card_Un_disjoint) auto
    then have "buddy_ok s2" using d2 cnt s1(6) by (simp add: buddy_ok_def)
    moreover have "add_range base len s = Some (b - a, s2)"
      using no nf False pr by (simp add: add_range_def checked_add_def Let_def s1_def flip: a_def b_def)
    moreover have "total_usable_frames s2 + free_frames s = total_usable_frames s + free_frames s2"
      using d2(6,7) by (simp add: s1_def)
    ultimately show ?thesis using d2 s1 bd(1) by auto
  qed
qed

section \<open>Boot\<close>

text \<open>What the Limine protocol promises of the usable entries: page-aligned, non-empty, inside the
  64-bit address space and disjoint.  The kernel tracks the first 64 GiB of it.\<close>

definition entry_end :: "memmap_entry \<Rightarrow> nat" where
  "entry_end e = unat (me_base e) + unat (me_length e)"

definition boot_map :: "u64 \<Rightarrow> memmap_entry list \<Rightarrow> bool" where
  "boot_map usable es \<longleftrightarrow>
    (\<forall>e\<in>set es. me_type e = usable \<longrightarrow> page_aligned (me_base e) \<and> page_aligned (me_length e) \<and>
      me_length e \<noteq> 0 \<and> entry_end e < 2 ^ 64) \<and>
    sorted_wrt (\<lambda>e f. me_type e = usable \<and> me_type f = usable \<longrightarrow>
      entry_end e \<le> unat (me_base f) \<or> entry_end f \<le> unat (me_base e)) es"

definition entry_frames :: "memmap_entry \<Rightarrow> nat set" where
  "entry_frames e = {unat (me_base e) div 4096 ..< entry_end e div 4096}"

definition usable_set :: "u64 \<Rightarrow> memmap_entry list \<Rightarrow> nat set" where
  "usable_set usable es = (\<Union>e\<in>{e \<in> set es. me_type e = usable}. entry_frames e) \<inter> {..<MAX_SUPPORTED_FRAMES}"

definition meta_frames :: "memmap_entry \<Rightarrow> nat \<Rightarrow> nat set" where
  "meta_frames chosen mb = {unat (me_base chosen) div 4096 ..< (unat (me_base chosen) + mb) div 4096}"

lemma boot_mapD:
  assumes "boot_map usable es" "e \<in> set es" "me_type e = usable"
  shows "4096 dvd unat (me_base e)" "4096 dvd unat (me_length e)" "0 < unat (me_length e)" "entry_end e < 2 ^ 64"
  using assms by (auto simp: boot_map_def page_simps mod_eq_0_iff_dvd unat_gt_0)

lemma boot_map_Cons:
  "boot_map usable (e # es) \<Longrightarrow> boot_map usable es"
  by (simp add: boot_map_def)

lemma entry_frames_disjoint:
  assumes "boot_map usable (e # es)" "me_type e = usable" "f \<in> set es" "me_type f = usable"
  shows "entry_frames e \<inter> entry_frames f = {}"
proof -
  have "entry_end e \<le> unat (me_base f) \<or> entry_end f \<le> unat (me_base e)"
    using assms by (simp add: boot_map_def)
  then show ?thesis
    using div_le_mono [of "entry_end e" "unat (me_base f)" 4096] div_le_mono [of "entry_end f" "unat (me_base e)" 4096]
    by (auto simp: entry_frames_def)
qed

lemma range_frames_aligned:
  assumes "4096 dvd base" "4096 dvd len"
  shows "range_frames base len n = {base div 4096 ..< (base + len) div 4096} \<inter> {..<n} - {0}"
  using assms by (auto simp: range_frames_def)

lemma mark_meta_inv:
  assumes "buddy_ok s" "distinct ps" "\<forall>p\<in>set ps. p < max_pfn s" "set ps \<inter> (free_set s \<union> alloc_set s) = {}"
  shows "\<exists>s'. mark_meta ps s = Some s' \<and> buddy_ok s' \<and> free_set s' = free_set s \<and>
    alloc_blocks s' = alloc_blocks s \<union> (\<lambda>p. (p, 0)) ` set ps \<and> max_pfn s' = max_pfn s \<and>
    total_usable_frames s' = total_usable_frames s \<and> free_frames s' = free_frames s"
  using assms
proof (induction ps arbitrary: s)
  case (Cons p ps)
  have inv: "buddy_inv s" using Cons.prems(1) by (simp add: buddy_ok_def)
  note len = buddy_inv_lengths [OF inv]
  define s1 where "s1 = s\<lparr>pfn_flags := (pfn_flags s)[p := FLAG_RESERVED OR FLAG_ALLOCATED],
    refcounts := (refcounts s)[p := 1]\<rparr>"
  have eq: "s1 = s\<lparr>pfn_flags := (pfn_flags s)[p := FLAG_RESERVED OR FLAG_ALLOCATED],
    refcounts := (refcounts s)[p := 1], free_frames := free_frames s\<rparr>" by (simp add: s1_def)
  have "block_ok (max_pfn s) (p, 0)" "frames (p, 0) \<inter> (free_set s \<union> alloc_set s) = {}"
    using Cons.prems(3,4) by (auto simp: block_ok_def frames_def MAX_ORDER_def)
  note a = allocate_inv [OF inv this reserved_flag eq]
  have fr: "frames (p, 0) = {p}" by (auto simp: frames_def)
  have "alloc_set s1 = insert p (alloc_set s)" using a(4) fr by (simp add: alloc_set_def)
  moreover have "max_pfn s1 = max_pfn s" "buddy_ok s1"
    using a(1,3) Cons.prems(1) by (simp_all add: s1_def buddy_ok_def)
  ultimately obtain s' where "mark_meta ps s1 = Some s'" "buddy_ok s'" "free_set s' = free_set s"
      "alloc_blocks s' = alloc_blocks s1 \<union> (\<lambda>p. (p, 0)) ` set ps" "max_pfn s' = max_pfn s"
      "total_usable_frames s' = total_usable_frames s1" "free_frames s' = free_frames s1"
    using Cons.IH [of s1] Cons.prems(2-4) a(3) by auto
  then show ?case using Cons.prems(3) len a(4) by (auto simp: s1_def)
qed simp

text \<open>One usable entry: the chosen one gives its first frames to the allocator's arrays.\<close>

definition own_frames :: "memmap_entry \<Rightarrow> nat \<Rightarrow> nat \<Rightarrow> memmap_entry \<Rightarrow> nat set" where
  "own_frames chosen mb n e = entry_frames e \<inter> {..<n} - {0} - (if e = chosen then meta_frames chosen mb else {})"

lemma add_plain_inv:
  assumes ok: "buddy_ok s" and al: "4096 dvd unat b" "4096 dvd unat l" and no: "unat b + unat l < 2 ^ 64"
    and d: "{unat b div 4096 ..< (unat b + unat l) div 4096} \<inter> (free_set s \<union> alloc_set s) = {}"
  shows "\<exists>s'. map_option snd (add_range b l s) = Some s' \<and> buddy_ok s' \<and>
    free_set s' = free_set s \<union> ({unat b div 4096 ..< (unat b + unat l) div 4096} \<inter> {..<max_pfn s} - {0}) \<and>
    alloc_blocks s' = alloc_blocks s \<and> max_pfn s' = max_pfn s \<and>
    total_usable_frames s' + free_frames s = total_usable_frames s + free_frames s'"
proof -
  note R = range_frames_aligned [OF al]
  have "range_frames (unat b) (unat l) (max_pfn s) \<inter> (free_set s \<union> alloc_set s) = {}"
    unfolding R using d by blast
  from add_range_inv [OF ok no this] show ?thesis unfolding R by auto
qed

lemma add_rest_inv:
  assumes ok: "buddy_ok s" and al: "4096 dvd unat a" "4096 dvd unat b"
    and d: "{unat a div 4096 ..< unat b div 4096} \<inter> (free_set s \<union> alloc_set s) = {}"
  shows "\<exists>s'. (if a < b then map_option snd (add_range a (b - a) s) else Some s) = Some s' \<and> buddy_ok s' \<and>
    free_set s' = free_set s \<union> ({unat a div 4096 ..< unat b div 4096} \<inter> {..<max_pfn s} - {0}) \<and>
    alloc_blocks s' = alloc_blocks s \<and> max_pfn s' = max_pfn s \<and>
    total_usable_frames s' + free_frames s = total_usable_frames s + free_frames s'"
proof (cases "a < b")
  case True
  then have ul: "unat (b - a) = unat b - unat a" and lt: "unat a < unat b"
    by (simp_all add: unat_sub word_le_nat_alt word_less_nat_alt)
  then have sum: "unat a + unat (b - a) = unat b" by simp
  have "unat b < 2 ^ 64" using unsigned_less [of b] by simp
  then have "\<exists>s'. map_option snd (add_range a (b - a) s) = Some s' \<and> buddy_ok s' \<and>
      free_set s' = free_set s \<union> ({unat a div 4096 ..< (unat a + unat (b - a)) div 4096} \<inter> {..<max_pfn s} - {0}) \<and>
      alloc_blocks s' = alloc_blocks s \<and> max_pfn s' = max_pfn s \<and>
      total_usable_frames s' + free_frames s = total_usable_frames s + free_frames s'"
    by (intro add_plain_inv [OF ok], unfold sum) (use ul al d in auto)
  then show ?thesis unfolding sum using True by auto
next
  case False
  then have "unat b \<le> unat a" by (simp add: not_less word_le_nat_alt)
  then have "{unat a div 4096 ..< unat b div 4096} = {}" by (simp add: div_le_mono)
  then show ?thesis using ok False by auto
qed

lemma meta_frames_eq:
  assumes "4096 dvd unat (me_base c)" "4096 dvd mb"
  shows "{unat (me_base c) div 4096 ..< unat (me_base c) div 4096 + mb div 4096} = meta_frames c mb"
  using assms by (simp add: meta_frames_def div_plus_div_distrib_dvd_left)

lemma add_chosen_inv:
  assumes ok: "buddy_ok s" and al: "4096 dvd unat (me_base c)" "4096 dvd unat (me_length c)"
    and bd: "entry_end c < 2 ^ 64" "unat (me_base c) + mb \<le> max_pfn s * 4096"
    and mb: "4096 dvd mb" "mb \<le> unat (me_length c)"
    and d: "entry_frames c \<inter> (free_set s \<union> alloc_set s) = {}"
  shows "\<exists>s'. add_chosen c (me_base c) mb s = Some s' \<and> buddy_ok s' \<and>
    free_set s' = free_set s \<union> own_frames c mb (max_pfn s) c \<and>
    alloc_blocks s' = alloc_blocks s \<union> (\<lambda>p. (p, 0)) ` meta_frames c mb \<and> max_pfn s' = max_pfn s \<and>
    total_usable_frames s' + free_frames s = total_usable_frames s + free_frames s' + mb div 4096"
proof -
  let ?b = "unat (me_base c)" and ?l = "unat (me_length c)"
  have bd': "?b + ?l < 2 ^ 64" using bd(1) by (simp add: entry_end_def)
  have umb: "unat (of_nat mb :: u64) = mb" using bd' mb(2) by (simp add: unat_of_nat)
  define me where "me = me_base c + of_nat mb"
  define be where "be = me_base c + me_length c"
  have ue: "unat me = ?b + mb" "unat be = entry_end c"
    unfolding me_def be_def entry_end_def using bd' mb(2) umb by (simp_all add: unat_add_no_overflow)
  have split: "entry_frames c = meta_frames c mb \<union> {unat me div 4096 ..< unat be div 4096}"
    "meta_frames c mb \<inter> {unat me div 4096 ..< unat be div 4096} = {}"
    using div_le_mono [of ?b "?b + mb" 4096] div_le_mono [of "?b + mb" "?b + ?l" 4096] mb(2)
    by (auto simp: entry_frames_def meta_frames_def entry_end_def ue)
  obtain s2 where s2: "(if me < be then map_option snd (add_range me (be - me) s) else Some s) = Some s2"
    "buddy_ok s2" "free_set s2 = free_set s \<union> ({unat me div 4096 ..< unat be div 4096} \<inter> {..<max_pfn s} - {0})"
    "alloc_blocks s2 = alloc_blocks s" "max_pfn s2 = max_pfn s"
    "total_usable_frames s2 + free_frames s = total_usable_frames s + free_frames s2"
    using add_rest_inv [OF ok, of me be] ue al mb bd d split(1) by (auto simp: entry_end_def)
  note mf = meta_frames_eq [OF al(1) mb(1)]
  have "(?b + mb) div 4096 \<le> max_pfn s" using div_le_mono [OF bd(2), of 4096] by simp
  then have sub: "meta_frames c mb \<subseteq> {..<max_pfn s}" by (auto simp: meta_frames_def)
  have "alloc_set s2 = alloc_set s" using s2(4) by (simp add: alloc_set_def)
  then have "meta_frames c mb \<inter> (free_set s2 \<union> alloc_set s2) = {}"
    using s2(3) d split by auto
  then obtain s3 where s3: "mark_meta [?b div 4096 ..< ?b div 4096 + mb div 4096] s2 = Some s3" "buddy_ok s3"
    "free_set s3 = free_set s2" "alloc_blocks s3 = alloc_blocks s2 \<union> (\<lambda>p. (p, 0)) ` meta_frames c mb"
    "max_pfn s3 = max_pfn s" "total_usable_frames s3 = total_usable_frames s2" "free_frames s3 = free_frames s2"
    using mark_meta_inv [OF s2(2), of "[?b div 4096 ..< ?b div 4096 + mb div 4096]"] sub s2(5)
    unfolding set_upt mf by auto
  define s4 where "s4 = s3\<lparr>total_usable_frames := total_usable_frames s3 + mb div 4096\<rparr>"
  have eq: "s4 = s3\<lparr>total_usable_frames := total_usable_frames s3 + mb div 4096, free_frames := free_frames s3\<rparr>"
    by (simp add: s4_def)
  have "buddy_inv s3" using s3(2) by (simp add: buddy_ok_def)
  note k = buddy_inv_counters [OF this, where t = "total_usable_frames s3 + mb div 4096" and n = "free_frames s3", folded eq]
  have "add_chosen c (me_base c) mb s = Some s4"
    using s3(1) by (simp add: add_chosen_def Let_def unat_div PAGE_SIZE_def s4_def s2(1) flip: me_def be_def)
  moreover have "total_usable_frames s4 + free_frames s = total_usable_frames s + free_frames s4 + mb div 4096"
    using s2(6) s3(6,7) by (simp add: s4_def)
  moreover have "free_set s4 = free_set s \<union> own_frames c mb (max_pfn s) c"
    using k(2) s3(3) s2(3) split by (auto simp: own_frames_def)
  ultimately show ?thesis
    using k s3 s2 by (simp add: buddy_ok_def)
qed

text \<open>The whole loop over the memory map.\<close>

lemma boot_map_once:
  assumes "boot_map usable (e # es)" "me_type e = usable"
  shows "e \<notin> set es"
proof
  assume "e \<in> set es"
  then have "entry_end e \<le> unat (me_base e)" using assms by (auto simp: boot_map_def)
  then show False using boot_mapD(3) [OF assms(1) _ assms(2)] by (simp add: entry_end_def)
qed

lemma add_entry_inv:
  assumes map: "boot_map usable es" and e: "e \<in> set es" "me_type e = usable" and ok: "buddy_ok s"
    and mb: "4096 dvd mb" "mb \<le> unat (me_length c)" "unat (me_base c) + mb \<le> max_pfn s * 4096"
    and d: "entry_frames e \<inter> (free_set s \<union> alloc_set s) = {}"
  shows "\<exists>s'. (if e = c then add_chosen c (me_base c) mb s
        else map_option snd (add_range (me_base e) (me_length e) s)) = Some s' \<and>
    buddy_ok s' \<and> max_pfn s' = max_pfn s \<and> free_set s' = free_set s \<union> own_frames c mb (max_pfn s) e \<and>
    alloc_blocks s' = alloc_blocks s \<union> (if e = c then (\<lambda>p. (p, 0)) ` meta_frames c mb else {}) \<and>
    total_usable_frames s' + free_frames s = total_usable_frames s + free_frames s' + (if e = c then mb div 4096 else 0) \<and>
    free_set s' \<union> alloc_set s' \<subseteq> free_set s \<union> alloc_set s \<union> entry_frames e"
proof -
  note m = boot_mapD [OF map e]
  show ?thesis
  proof (cases "e = c")
    case True
    obtain s' where s': "add_chosen c (me_base c) mb s = Some s'" "buddy_ok s'"
      "free_set s' = free_set s \<union> own_frames c mb (max_pfn s) c"
      "alloc_blocks s' = alloc_blocks s \<union> (\<lambda>p. (p, 0)) ` meta_frames c mb" "max_pfn s' = max_pfn s"
      "total_usable_frames s' + free_frames s = total_usable_frames s + free_frames s' + mb div 4096"
      using add_chosen_inv [OF ok, of c mb] True m mb d by blast
    have "meta_frames c mb \<subseteq> entry_frames c"
      using div_le_mono [of "unat (me_base c) + mb" "entry_end c" 4096] mb(2)
      by (auto simp: meta_frames_def entry_frames_def entry_end_def)
    then have "free_set s' \<union> alloc_set s' \<subseteq> free_set s \<union> alloc_set s \<union> entry_frames e"
      using True s'(3,4) by (auto simp: own_frames_def alloc_set_def image_Un frames_def)
    with s' True show ?thesis by simp
  next
    case False
    obtain s' where s': "map_option snd (add_range (me_base e) (me_length e) s) = Some s'" "buddy_ok s'"
      "free_set s' = free_set s \<union> (entry_frames e \<inter> {..<max_pfn s} - {0})"
      "alloc_blocks s' = alloc_blocks s" "max_pfn s' = max_pfn s"
      "total_usable_frames s' + free_frames s = total_usable_frames s + free_frames s'"
      using add_plain_inv [OF ok, of "me_base e" "me_length e"] m d by (auto simp: entry_frames_def entry_end_def)
    moreover have "free_set s' \<union> alloc_set s' \<subseteq> free_set s \<union> alloc_set s \<union> entry_frames e"
      using s'(3,4) by (auto simp: alloc_set_def)
    ultimately show ?thesis using False by (intro exI [of _ s']) (simp add: own_frames_def)
  qed
qed

lemma add_entries_inv:
  assumes "boot_map usable es" "buddy_ok s" "me_type c = usable" "4096 dvd mb" "mb \<le> unat (me_length c)"
    "unat (me_base c) + mb \<le> max_pfn s * 4096"
    "\<forall>e\<in>set es. me_type e = usable \<longrightarrow> entry_frames e \<inter> (free_set s \<union> alloc_set s) = {}"
  shows "\<exists>s'. add_entries usable c (me_base c) mb es s = Some s' \<and> buddy_ok s' \<and> max_pfn s' = max_pfn s \<and>
    free_set s' = free_set s \<union> (\<Union>e\<in>{e \<in> set es. me_type e = usable}. own_frames c mb (max_pfn s) e) \<and>
    alloc_blocks s' = alloc_blocks s \<union> (if c \<in> set es then (\<lambda>p. (p, 0)) ` meta_frames c mb else {}) \<and>
    total_usable_frames s' + free_frames s = total_usable_frames s + free_frames s' + (if c \<in> set es then mb div 4096 else 0)"
  using assms(1,2,6,7)
proof (induction es arbitrary: s)
  case (Cons e es)
  note map = boot_map_Cons [OF Cons.prems(1)]
  show ?case
  proof (cases "me_type e = usable")
    case False
    then show ?thesis using Cons.IH [OF map Cons.prems(2,3)] Cons.prems(4) assms(3) by auto
  next
    case True
    have same: "me_base e = me_base c \<and> me_length e = me_length c \<longleftrightarrow> e = c"
      using True assms(3) by (auto intro: memmap_entry.equality)
    have "entry_frames e \<inter> (free_set s \<union> alloc_set s) = {}" using Cons.prems(4) True by simp
    with add_entry_inv [OF Cons.prems(1) _ True Cons.prems(2) assms(4,5) Cons.prems(3)] obtain s1 where
      s1: "(if e = c then add_chosen c (me_base c) mb s
        else map_option snd (add_range (me_base e) (me_length e) s)) = Some s1"
      "buddy_ok s1" "max_pfn s1 = max_pfn s" "free_set s1 = free_set s \<union> own_frames c mb (max_pfn s) e"
      "alloc_blocks s1 = alloc_blocks s \<union> (if e = c then (\<lambda>p. (p, 0)) ` meta_frames c mb else {})"
      "total_usable_frames s1 + free_frames s = total_usable_frames s + free_frames s1 + (if e = c then mb div 4096 else 0)"
      "free_set s1 \<union> alloc_set s1 \<subseteq> free_set s \<union> alloc_set s \<union> entry_frames e"
      by auto
    have "\<forall>f\<in>set es. me_type f = usable \<longrightarrow> entry_frames f \<inter> (free_set s1 \<union> alloc_set s1) = {}"
      using Cons.prems(4) s1(7) entry_frames_disjoint [OF Cons.prems(1) True] by fastforce
    from Cons.IH [OF map s1(2) _ this] Cons.prems(3) s1(3) obtain s2 where
      s2: "add_entries usable c (me_base c) mb es s1 = Some s2" "buddy_ok s2" "max_pfn s2 = max_pfn s1"
      "free_set s2 = free_set s1 \<union> (\<Union>e\<in>{e \<in> set es. me_type e = usable}. own_frames c mb (max_pfn s) e)"
      "alloc_blocks s2 = alloc_blocks s1 \<union> (if c \<in> set es then (\<lambda>p. (p, 0)) ` meta_frames c mb else {})"
      "total_usable_frames s2 + free_frames s1 = total_usable_frames s1 + free_frames s2 + (if c \<in> set es then mb div 4096 else 0)"
      by auto
    have "add_entries usable c (me_base c) mb (e # es) s = Some s2"
      using True s1(1) s2(1) by (simp add: same)
    moreover have "{f \<in> set (e # es). me_type f = usable} = insert e {f \<in> set es. me_type f = usable}"
      using True by auto
    moreover have "total_usable_frames s2 + free_frames s =
        total_usable_frames s + free_frames s2 + (if c \<in> set (e # es) then mb div 4096 else 0)"
      using s1(6) s2(6) boot_map_once [OF Cons.prems(1) True] by (auto split: if_splits)
    ultimately show ?thesis
      using s1 s2 by auto
  qed
qed auto

lemma boot_map_disjoint:
  assumes "boot_map usable es" "e \<in> set es" "me_type e = usable" "f \<in> set es" "me_type f = usable" "e \<noteq> f"
  shows "entry_frames e \<inter> entry_frames f = {}"
  using assms
proof (induction es)
  case (Cons x xs)
  then show ?case
    using boot_map_Cons [OF Cons.prems(1)] entry_frames_disjoint [OF Cons.prems(1)] by auto
qed simp

lemma max_usable_phys_ge:
  assumes "e \<in> set es" "me_type e = usable"
  shows "saturating_add (me_base e) (me_length e) \<le> max_usable_phys usable es"
proof -
  define f where "f = (\<lambda>(e :: memmap_entry) m. if me_type e = usable then max m (saturating_add (me_base e) (me_length e)) else m)"
  have mono: "m \<le> fold f xs m" for xs m
  proof (induction xs arbitrary: m)
    case (Cons x xs)
    have "m \<le> f x m" by (simp add: f_def)
    also have "\<dots> \<le> fold f xs (f x m)" by (rule Cons.IH)
    finally show ?case by simp
  qed simp
  have "saturating_add (me_base e) (me_length e) \<le> fold f es m" for m
    using assms(1)
  proof (induction es arbitrary: m)
    case (Cons x xs)
    have "x = e \<Longrightarrow> saturating_add (me_base e) (me_length e) \<le> f x m" using assms(2) by (simp add: f_def)
    then show ?case using Cons mono [of "f x m" xs] by auto
  qed simp
  then show ?thesis by (simp add: max_usable_phys_def f_def)
qed

text \<open>The arrays reach to the end of the last usable entry, or to the cap.\<close>

lemma init_max_pfn_covers:
  assumes map: "boot_map usable es" and e: "e \<in> set es" "me_type e = usable"
  shows "min (entry_end e div 4096) MAX_SUPPORTED_FRAMES \<le> init_max_pfn usable es"
proof -
  let ?m = "max_usable_phys usable es"
  have e2: "entry_end e < 2 ^ 64" using boot_mapD(4) [OF map e] .
  then have "unat (saturating_add (me_base e) (me_length e)) = entry_end e"
    by (simp add: unat_saturating_add entry_end_def)
  then have "entry_end e \<le> unat ?m"
    using max_usable_phys_ge [OF e] by (simp add: word_le_nat_alt)
  then have "entry_end e div 4096 \<le> min (unat ?m + 4095) (2 ^ 64 - 1) div 4096"
    using e2 by (intro div_le_mono) simp
  also have "\<dots> = unat (saturating_add ?m (PAGE_SIZE - 1) div PAGE_SIZE)"
    by (simp add: unat_div unat_saturating_add PAGE_SIZE_def)
  finally show ?thesis by (simp add: init_max_pfn_def min_le_iff_disj)
qed

lemma entry_frames_cap:
  assumes "boot_map usable es" "e \<in> set es" "me_type e = usable"
  shows "entry_frames e \<inter> {..<init_max_pfn usable es} = entry_frames e \<inter> {..<MAX_SUPPORTED_FRAMES}"
  using init_max_pfn_covers [OF assms] by (auto simp: entry_frames_def init_max_pfn_def)

lemma unat_total_usable_bytes:
  "unat (total_usable_bytes usable es) =
    min (\<Sum>e\<leftarrow>filter (\<lambda>e. me_type e = usable) es. unat (me_length e)) (2 ^ 64 - 1)"
proof -
  have "unat (fold (\<lambda>e m. if me_type e = usable then saturating_add m (me_length e) else m) es m) =
      min (unat m + (\<Sum>e\<leftarrow>filter (\<lambda>e. me_type e = usable) es. unat (me_length e))) (2 ^ 64 - 1)" for m
  proof (induction es arbitrary: m)
    case Nil
    have "unat m < 2 ^ LENGTH(64)" by (rule unsigned_less)
    then show ?case by simp
  next
    case (Cons e es)
    have "min (min a (2 ^ 64 - 1) + b) (2 ^ 64 - 1) = min (a + b) (2 ^ 64 - (1 :: nat))" for a b by linarith
    then show ?case using Cons by (simp add: unat_saturating_add add.assoc)
  qed
  from this [of 0] show ?thesis by (simp add: total_usable_bytes_def)
qed

lemma meta_bytes_aligned_bounds:
  assumes "n \<le> MAX_SUPPORTED_FRAMES"
  shows "4096 dvd meta_bytes_aligned n" "unat (of_nat (meta_bytes_aligned n) :: u64) = meta_bytes_aligned n"
proof -
  have eq: "meta_bytes_aligned n = (n * 11 + 4095) div 4096 * 4096"
    by (simp add: meta_bytes_aligned_def push_bit_eq_mult drop_bit_eq_div PAGE_SIZE_def)
  then show "4096 dvd meta_bytes_aligned n" by simp
  have "meta_bytes_aligned n \<le> n * 11 + 4095" unfolding eq by simp
  also have "\<dots> < 2 ^ 64" using assms by (simp add: MAX_SUPPORTED_FRAMES_def)
  finally show "unat (of_nat (meta_bytes_aligned n) :: u64) = meta_bytes_aligned n" by (simp add: unat_of_nat)
qed

lemma chosen_entry_found:
  assumes "e \<in> set es" "me_type e = usable" "need \<le> me_length e"
  shows "\<exists>c. chosen_entry usable need es = Some c \<and> c \<in> set es \<and> me_type c = usable \<and> need \<le> me_length c \<and>
    (\<forall>f\<in>set es. me_type f = usable \<longrightarrow> me_length f \<le> me_length c)"
proof -
  let ?f = "\<lambda>(e :: memmap_entry) c. if me_type e = usable \<and> need \<le> me_length e
      then (case c of None \<Rightarrow> Some e | Some b \<Rightarrow> if me_length b < me_length e then Some e else c) else c"
  let ?good = "\<lambda>A (c :: memmap_entry). c \<in> A \<and> me_type c = usable \<and> need \<le> me_length c \<and>
      (\<forall>f\<in>A. me_type f = usable \<longrightarrow> me_length f \<le> me_length c)"
  have keep: "\<exists>c. fold ?f xs (Some b) = Some c \<and> ?good (A \<union> set xs) c" if "?good A b" for xs A b
    using that
  proof (induction xs arbitrary: A b)
    case (Cons x xs)
    have "\<exists>y. ?f x (Some b) = Some y \<and> ?good (insert x A) y"
    proof (cases "me_type x = usable \<and> need \<le> me_length x \<and> me_length b < me_length x")
      case True
      then have "me_length f \<le> me_length x" if "f \<in> A" "me_type f = usable" for f
        using Cons.prems that order.trans [of "me_length f" "me_length b" "me_length x"] by auto
      with True show ?thesis by auto
    next
      case False
      then have "me_type x = usable \<Longrightarrow> me_length x \<le> me_length b" 
        using Cons.prems order.trans [of "me_length x" need "me_length b"] by auto
      with False Cons.prems show ?thesis by auto
    qed
    then obtain y where "?f x (Some b) = Some y" "?good (insert x A) y" by blast
    with Cons.IH [of y "insert x A"] show ?case by simp
  qed auto
  have skip: "\<exists>c. fold ?f xs None = Some c \<and> ?good (A \<union> set xs) c"
    if "e \<in> set xs" "\<forall>f\<in>A. me_type f = usable \<longrightarrow> me_length f < need" for xs A
    using that
  proof (induction xs arbitrary: A)
    case (Cons x xs)
    show ?case
    proof (cases "me_type x = usable \<and> need \<le> me_length x")
      case True
      then have "?good (insert x A) x" using Cons.prems(2) by auto
      from keep [OF this, of xs] True show ?thesis by simp
    next
      case False
      have "e \<in> set xs" using Cons.prems(1) False assms(2,3) by auto
      moreover have "\<forall>f\<in>insert x A. me_type f = usable \<longrightarrow> me_length f < need"
        using Cons.prems(2) False by (auto simp: not_le)
      ultimately have "\<exists>c. fold ?f xs None = Some c \<and> ?good (insert x A \<union> set xs) c" by (rule Cons.IH)
      moreover have "fold ?f (x # xs) None = fold ?f xs None" using False by auto
      moreover have "insert x A \<union> set xs = A \<union> set (x # xs)" by simp
      ultimately show ?thesis by (simp only:)
    qed
  qed simp
  from skip [OF assms(1), of "{}"] show ?thesis by (simp add: chosen_entry_def)
qed

lemma fresh_allocator_ok:
  assumes "n \<le> MAX_SUPPORTED_FRAMES"
  shows "buddy_ok (fresh_allocator n)" "free_set (fresh_allocator n) = {}" "alloc_blocks (fresh_allocator n) = {}"
proof -
  have f: "free_blocks (fresh_allocator n) = {}" and a: "alloc_blocks (fresh_allocator n) = {}"
    by (auto simp: free_blocks_def alloc_blocks_def fresh_allocator_def flagged_def is_free_def is_alloc_def)
  then show fs: "free_set (fresh_allocator n) = {}" and "alloc_blocks (fresh_allocator n) = {}"
    by (simp_all add: free_set_def)
  have "chained (fresh_allocator n) (\<lambda>_. [])"
    unfolding chained_def f by (simp add: fresh_allocator_def head_pfn_def)
  then have "linked (fresh_allocator n)"
    using assms by (auto simp: linked_def fresh_allocator_def)
  then show "buddy_ok (fresh_allocator n)"
    using f a fs by (simp add: buddy_ok_def buddy_inv_def geometry_def fresh_allocator_def)
qed

text \<open>If the chosen entry puts the arrays beyond the tracked frames, marking their frames indexes out
  of range.\<close>

lemma list_push_length: "list_push k p s = Some s' \<Longrightarrow> length (pfn_flags s') = length (pfn_flags s)"
  by (auto simp: list_push_def set_idx_def split: if_splits bind_splits option.splits)

lemma push_range_length: "push_range a b s = Some s' \<Longrightarrow> length (pfn_flags s') = length (pfn_flags s)"
proof (induction a b s rule: push_range.induct)
  case (1 a b s)
  show ?case
  proof (cases "a < b")
    case True
    let ?o = "fit_order a b (MAX_ORDER - 1)"
    obtain s1 where s1: "list_push ?o a s = Some s1" "push_range (a + 2 ^ ?o) b s1 = Some s'"
      using "1.prems" True by (subst (asm) push_range.simps) (auto simp: Let_def split: bind_splits)
    show ?thesis using "1.IH" [OF True refl s1] list_push_length [OF s1(1)] by simp
  next
    case False
    then show ?thesis using "1.prems" by (subst (asm) push_range.simps) simp
  qed
qed

lemma add_range_length:
  "map_option snd (add_range b l s) = Some s' \<Longrightarrow> length (pfn_flags s') = length (pfn_flags s)"
  by (auto simp: add_range_def Let_def dest!: push_range_length split: option.splits if_splits bind_splits)

lemma mark_meta_panics:
  "p \<in> set ps \<Longrightarrow> length (pfn_flags s) \<le> p \<Longrightarrow> mark_meta ps s = None"
proof (induction ps arbitrary: s)
  case (Cons q ps)
  show ?case
  proof (cases "q = p")
    case False
    then have "mark_meta ps (s\<lparr>pfn_flags := fl, refcounts := rc\<rparr>) = None" if "length fl = length (pfn_flags s)" for fl rc
      using Cons that by auto
    then show ?thesis by (auto simp: set_idx_def split: bind_splits)
  qed (use Cons.prems in \<open>simp add: set_idx_def\<close>)
qed simp

lemma add_chosen_panics:
  assumes "4096 dvd unat (me_base c)" "4096 dvd mb" "p \<in> meta_frames c mb" "length (pfn_flags s) \<le> p"
  shows "add_chosen c (me_base c) mb s = None"
proof -
  have "mark_meta [unat (me_base c) div 4096 ..< unat (me_base c) div 4096 + mb div 4096] s2 = None"
    if "length (pfn_flags s2) = length (pfn_flags s)" for s2
    using that assms meta_frames_eq [OF assms(1,2)] by (intro mark_meta_panics [of p]) auto
  then show ?thesis
    using add_range_length by (auto simp: add_chosen_def Let_def unat_div PAGE_SIZE_def split: bind_splits if_splits)
qed

lemma add_entries_panics:
  assumes "4096 dvd unat (me_base c)" "4096 dvd mb" "p \<in> meta_frames c mb" "c \<in> set es" "me_type c = usable"
    "length (pfn_flags s) \<le> p"
  shows "add_entries usable c (me_base c) mb es s = None"
  using assms(4,6)
proof (induction es arbitrary: s)
  case (Cons e es)
  show ?case
  proof (cases "me_base e = me_base c \<and> me_length e = me_length c \<and> me_type e = usable")
    case True
    then show ?thesis using add_chosen_panics [OF assms(1-3) Cons.prems(2)] by simp
  next
    case False
    then have "c \<in> set es" using Cons.prems(1) assms(5) by auto
    then have "add_entries usable c (me_base c) mb es s' = None"
      if "length (pfn_flags s') = length (pfn_flags s)" for s' using Cons.IH Cons.prems(2) that by simp
    then show ?thesis using False add_range_length by (auto split: bind_splits)
  qed
qed simp

text \<open>Initialisation up to the loop over the memory map, and its two ends.\<close>

lemma memory_init_start:
  assumes map: "boot_map usable es" and c: "c \<in> set es" "me_type c = usable"
    and hh: "unat hhdm + entry_end c < 2 ^ 64"
    and ch: "chosen_entry usable (of_nat (meta_bytes_aligned (init_max_pfn usable es))) es = Some c"
  shows "memory_init usable es hhdm =
    map_option (\<lambda>s. (\<lparr>usable_bytes = total_usable_bytes usable es, usable_frames = free_frames s,
        tracked_frames = total_usable_frames s, map_entries = length es\<rparr>, s))
      (add_entries usable c (me_base c) (meta_bytes_aligned (init_max_pfn usable es)) es
        (fresh_allocator (init_max_pfn usable es)))"
proof -
  note cd = boot_mapD [OF map c]
  have base: "frame_align_up (me_base c) = me_base c"
  proof -
    obtain k where k: "unat (me_base c) = 4096 * k" using cd(1) by blast
    obtain l where l: "unat (me_length c) = 4096 * l" using cd(2) by blast
    have "4096 * k + 4095 < 2 ^ 64" using cd(3,4) by (simp add: k l entry_end_def)
    then have "unat (frame_align_up (me_base c)) = unat (me_base c)"
      unfolding unat_frame_align_up by (simp add: k)
    then show ?thesis by (simp add: word_unat_eq_iff)
  qed
  have "unat hhdm + unat (me_base c) < 2 ^ 64" using hh by (simp add: entry_end_def)
  then have "checked_add hhdm (me_base c) = Some (hhdm + me_base c)" by (simp add: checked_add_def)
  then show ?thesis by (auto simp: memory_init_def Let_def ch base map_option_bind map_conv_bind_option comp_def split: bind_splits)
qed

lemma meta_below_max_pfn:
  assumes map: "boot_map usable es" and c: "c \<in> set es" "me_type c = usable"
    and mb: "mb \<le> unat (me_length c)" "4096 dvd mb" and fits: "unat (me_base c) + mb \<le> MAX_SUPPORTED_FRAMES * 4096"
  shows "unat (me_base c) + mb \<le> init_max_pfn usable es * 4096"
proof -
  have "4096 dvd unat (me_base c) + mb" using boot_mapD(1) [OF map c] mb(2) by simp
  then obtain q where q: "unat (me_base c) + mb = 4096 * q" by blast
  have "q \<le> entry_end c div 4096"
    using div_le_mono [of "unat (me_base c) + mb" "entry_end c" 4096] mb(1) by (simp add: q [symmetric] entry_end_def) (simp add: q)
  moreover have "q \<le> MAX_SUPPORTED_FRAMES" using fits by (simp add: q)
  ultimately have "q \<le> init_max_pfn usable es" using init_max_pfn_covers [OF map c] by linarith
  then show ?thesis by (simp add: q)
qed

lemma memory_init_fits:
  assumes map: "boot_map usable es" and c: "c \<in> set es" "me_type c = usable"
    and hh: "unat hhdm + entry_end c < 2 ^ 64"
    and ch: "chosen_entry usable (of_nat (meta_bytes_aligned (init_max_pfn usable es))) es = Some c"
    and le: "meta_bytes_aligned (init_max_pfn usable es) \<le> unat (me_length c)"
    and fits: "unat (me_base c) + meta_bytes_aligned (init_max_pfn usable es) \<le> MAX_SUPPORTED_FRAMES * 4096"
  defines "mb \<equiv> meta_bytes_aligned (init_max_pfn usable es)"
  shows "\<exists>st s. memory_init usable es hhdm = Some (st, s) \<and> buddy_ok s \<and> meta_frames c mb \<subseteq> usable_set usable es \<and>
    free_set s = usable_set usable es - {0} - meta_frames c mb \<and>
    alloc_blocks s = (\<lambda>p. (p, 0)) ` meta_frames c mb \<and>
    usable_frames st = card (free_set s) \<and> tracked_frames st = card (free_set s) + card (meta_frames c mb) \<and>
    unat (usable_bytes st) = min (\<Sum>f\<leftarrow>filter (\<lambda>f. me_type f = usable) es. unat (me_length f)) (2 ^ 64 - 1) \<and>
    map_entries st = length es"
proof -
  let ?n = "init_max_pfn usable es"
  have n: "?n \<le> MAX_SUPPORTED_FRAMES" by (simp add: init_max_pfn_def)
  note mbb = meta_bytes_aligned_bounds [OF n, folded mb_def] and fresh = fresh_allocator_ok [OF n]
  have mx: "max_pfn (fresh_allocator ?n) = ?n" "total_usable_frames (fresh_allocator ?n) = 0"
    "free_frames (fresh_allocator ?n) = 0" by (simp_all add: fresh_allocator_def)
  have below: "unat (me_base c) + mb \<le> ?n * 4096"
    using meta_below_max_pfn [OF map c _ mbb(1)] le fits by (simp add: mb_def)
  have "alloc_set (fresh_allocator ?n) = {}" using fresh(3) by (simp add: alloc_set_def)
  then obtain s where s: "add_entries usable c (me_base c) mb es (fresh_allocator ?n) = Some s" "buddy_ok s"
    "free_set s = (\<Union>e\<in>{e \<in> set es. me_type e = usable}. own_frames c mb ?n e)"
    "alloc_blocks s = (\<lambda>p. (p, 0)) ` meta_frames c mb" "total_usable_frames s = free_frames s + mb div 4096"
    using add_entries_inv [OF map fresh(1) c(2) mbb(1) le [folded mb_def]] below mx fresh(2,3) c(1) by auto
  have sub: "meta_frames c mb \<subseteq> entry_frames c"
    using div_le_mono [of "unat (me_base c) + mb" "entry_end c" 4096] le
    by (auto simp: mb_def meta_frames_def entry_frames_def entry_end_def)
  have "(unat (me_base c) + mb) div 4096 \<le> MAX_SUPPORTED_FRAMES"
    using div_le_mono [OF fits, of 4096] by (simp add: mb_def)
  then have "meta_frames c mb \<subseteq> usable_set usable es"
    using sub c by (auto simp: usable_set_def meta_frames_def)
  moreover have "free_set s = usable_set usable es - {0} - meta_frames c mb"
  proof -
    have "own_frames c mb ?n e = entry_frames e \<inter> {..<MAX_SUPPORTED_FRAMES} - {0} - meta_frames c mb"
      if "e \<in> set es" "me_type e = usable" for e
      using boot_map_disjoint [OF map that c] sub entry_frames_cap [OF map that]
      by (cases "e = c") (auto simp: own_frames_def)
    then show ?thesis by (auto simp: s(3) usable_set_def)
  qed
  moreover have "card (meta_frames c mb) = mb div 4096"
    using arg_cong [OF meta_frames_eq [OF boot_mapD(1) [OF map c] mbb(1)], of card] by simp
  ultimately show ?thesis
    using s unat_total_usable_bytes [of usable es] buddy_ok_def [of s]
    unfolding memory_init_start [OF map c hh ch] mb_def [symmetric] by simp
qed

lemma memory_init_beyond:
  assumes map: "boot_map usable es" and c: "c \<in> set es" "me_type c = usable"
    and hh: "unat hhdm + entry_end c < 2 ^ 64"
    and ch: "chosen_entry usable (of_nat (meta_bytes_aligned (init_max_pfn usable es))) es = Some c"
    and beyond: "MAX_SUPPORTED_FRAMES * 4096 < unat (me_base c) + meta_bytes_aligned (init_max_pfn usable es)"
  shows "memory_init usable es hhdm = None"
proof -
  let ?n = "init_max_pfn usable es" and ?mb = "meta_bytes_aligned (init_max_pfn usable es)"
  have n: "?n \<le> MAX_SUPPORTED_FRAMES" by (simp add: init_max_pfn_def)
  note cd = boot_mapD [OF map c] and mbb = meta_bytes_aligned_bounds [OF n]
  obtain b where b: "unat (me_base c) = 4096 * b" using cd(1) by blast
  obtain m where m: "?mb = 4096 * m" using mbb(1) by blast
  have "1 \<le> entry_end c div 4096"
    using cd(2,3) div_le_mono [of 4096 "entry_end c" 4096] dvd_imp_le [OF cd(2,3)] by (simp add: entry_end_def)
  then have "1 \<le> ?n" using init_max_pfn_covers [OF map c] by (simp add: MAX_SUPPORTED_FRAMES_def)
  then have "0 < m" using m by (auto simp: meta_bytes_aligned_def push_bit_eq_mult drop_bit_eq_div PAGE_SIZE_def)
  then have "b + m - 1 \<in> meta_frames c ?mb" by (simp add: meta_frames_def b m)
  moreover have "MAX_SUPPORTED_FRAMES < b + m" using beyond by (simp add: b m)
  then have "length (pfn_flags (fresh_allocator ?n)) \<le> b + m - 1" using n by (simp add: fresh_allocator_def)
  ultimately have "add_entries usable c (me_base c) ?mb es (fresh_allocator ?n) = None"
    by (rule add_entries_panics [OF cd(1) mbb(1) _ c])
  then show ?thesis unfolding memory_init_start [OF map c hh ch] by simp
qed

lemma chosen_largest:
  assumes e: "e \<in> set es" "me_type e = usable" "meta_bytes_aligned (init_max_pfn usable es) \<le> unat (me_length e)"
  shows "\<exists>c\<in>set es. me_type c = usable \<and> (\<forall>f\<in>set es. me_type f = usable \<longrightarrow> me_length f \<le> me_length c) \<and>
    chosen_entry usable (of_nat (meta_bytes_aligned (init_max_pfn usable es))) es = Some c \<and>
    meta_bytes_aligned (init_max_pfn usable es) \<le> unat (me_length c)"
proof -
  have "init_max_pfn usable es \<le> MAX_SUPPORTED_FRAMES" by (simp add: init_max_pfn_def)
  note mbb = meta_bytes_aligned_bounds(2) [OF this]
  then have "of_nat (meta_bytes_aligned (init_max_pfn usable es)) \<le> me_length e" using e(3) by (simp add: word_le_nat_alt)
  from chosen_entry_found [OF e(1,2) this] show ?thesis using mbb by (auto simp: word_le_nat_alt)
qed

section \<open>Sequences of requests\<close>

text \<open>A pool of frames: the state holds a set of free and a set of owned frames, and a request that
  the pool's contract permits in the state succeeds and moves frames between the two.  A client may
  issue permitted requests in any order; what is permitted depends on the state each request meets.\<close>

primrec run_all :: "('r \<Rightarrow> 's \<Rightarrow> 's option) \<Rightarrow> 'r list \<Rightarrow> 's \<Rightarrow> 's option" where
  "run_all exec [] s = Some s"
| "run_all exec (r # rs) s = Option.bind (exec r s) (run_all exec rs)"

primrec all_permitted :: "('r \<Rightarrow> 's \<Rightarrow> bool) \<Rightarrow> ('r \<Rightarrow> 's \<Rightarrow> 's option) \<Rightarrow> 'r list \<Rightarrow> 's \<Rightarrow> bool" where
  "all_permitted permitted exec [] s = True"
| "all_permitted permitted exec (r # rs) s =
    (permitted r s \<and> (case exec r s of None \<Rightarrow> True | Some s' \<Rightarrow> all_permitted permitted exec rs s'))"

locale frame_pool =
  fixes inv :: "'s \<Rightarrow> bool"
    and free_part owned_part :: "'s \<Rightarrow> 'f set"
    and permitted :: "'r \<Rightarrow> 's \<Rightarrow> bool"
    and exec :: "'r \<Rightarrow> 's \<Rightarrow> 's option"
  assumes parts_disjoint: "inv s \<Longrightarrow> free_part s \<inter> owned_part s = {}"
    and exec_ok: "inv s \<Longrightarrow> permitted r s \<Longrightarrow>
      \<exists>s'. exec r s = Some s' \<and> inv s' \<and> free_part s' \<union> owned_part s' = free_part s \<union> owned_part s"
begin

lemma run_conserves:
  "inv s \<Longrightarrow> all_permitted permitted exec rs s \<Longrightarrow> \<exists>s'. run_all exec rs s = Some s' \<and> inv s' \<and>
    free_part s' \<inter> owned_part s' = {} \<and> free_part s' \<union> owned_part s' = free_part s \<union> owned_part s"
proof (induction rs arbitrary: s)
  case Nil
  then show ?case by (simp add: parts_disjoint)
next
  case (Cons r rs)
  have "permitted r s" using Cons.prems(2) by simp
  then obtain s1 where "exec r s = Some s1" "inv s1" "free_part s1 \<union> owned_part s1 = free_part s \<union> owned_part s"
    using exec_ok [OF Cons.prems(1)] by blast
  with Cons.IH [of s1] Cons.prems(2) show ?case by auto
qed

end

datatype frame_request =
    AllocOrder nat
  | FreeFrame phys_frame
  | ReserveFrame phys_frame
  | ShareFrame phys_frame
  | DropFrame phys_frame

fun buddy_exec :: "frame_request \<Rightarrow> buddy_allocator \<Rightarrow> buddy_allocator option" where
  "buddy_exec (AllocOrder k) s = map_option snd (alloc_order k s)"
| "buddy_exec (FreeFrame f) s = map_option snd (buddy_free f s)"
| "buddy_exec (ReserveFrame f) s = map_option snd (buddy_reserve f s)"
| "buddy_exec (ShareFrame f) s = frame_ref_inc f s"
| "buddy_exec (DropFrame f) s = map_option snd (frame_ref_dec f s)"

text \<open>The contract the callers keep: a tracked frame is shared only while it is in use, that is while
  its count is positive.  \<open>ref_inc\<close> does not check this.  Every other request is permitted always.\<close>

definition frame_permitted :: "frame_request \<Rightarrow> buddy_allocator \<Rightarrow> bool" where
  "frame_permitted r s = (case r of
     ShareFrame f \<Rightarrow> pfn_of f < max_pfn s \<longrightarrow> frame_refcount f s \<noteq> Some 0
   | _ \<Rightarrow> True)"

lemma alloc_order_large: "MAX_ORDER \<le> k \<Longrightarrow> alloc_order k s = Some (None, s)"
  by (simp add: alloc_order_def)

lemma free_alloc_disjoint:
  assumes "buddy_inv s"
  shows "free_set s \<inter> alloc_set s = {}"
proof -
  have "geometry (max_pfn s) (free_blocks s) (alloc_blocks s)" using assms by (simp add: buddy_inv_def)
  then show ?thesis unfolding free_set_def alloc_set_def using geometryD(7) by blast
qed

lemma alloc_block_subset: "b \<in> alloc_blocks s \<Longrightarrow> frames b \<subseteq> alloc_set s"
  by (auto simp: alloc_set_def)

lemma alloc_set_remove:
  assumes "buddy_inv s" "b \<in> alloc_blocks s"
  shows "\<Union> (frames ` (alloc_blocks s - {b})) = alloc_set s - frames b"
proof -
  have g: "geometry (max_pfn s) (free_blocks s) (alloc_blocks s)" using assms(1) by (simp add: buddy_inv_def)
  show ?thesis using geometryD(6) [OF g _ assms(2)] assms(2) unfolding alloc_set_def by blast
qed

lemma buddy_ok_recount:
  assumes ok: "buddy_ok s" and al: "is_alloc (pfn_flags s ! p)"
  shows "buddy_ok (s\<lparr>refcounts := (refcounts s)[p := r]\<rparr>)"
proof (rule buddy_ok_refcounts [OF ok])
  have inv: "buddy_inv s" using ok by (simp add: buddy_ok_def)
  show "length ((refcounts s)[p := r]) = max_pfn s" using buddy_inv_lengths [OF inv] by simp
  show "\<forall>q<max_pfn s. (refcounts s)[p := r] ! q \<noteq> 0 \<longrightarrow> is_alloc (pfn_flags s ! q)"
  proof (intro allI impI)
    fix q assume "q < max_pfn s" "(refcounts s)[p := r] ! q \<noteq> 0"
    then show "is_alloc (pfn_flags s ! q)" using inv al by (cases "q = p") (auto simp: buddy_inv_def)
  qed
qed

lemma buddy_free_inv:
  fixes frame :: phys_frame
  assumes ok: "buddy_ok s"
  defines "p \<equiv> pfn_of frame"
  shows "\<exists>r s'. buddy_free frame s = Some (r, s') \<and> buddy_ok s' \<and>
    (r \<longleftrightarrow> valid_frame s frame \<and> refcounts s ! p \<noteq> 0) \<and> (\<not> r \<longrightarrow> s' = s) \<and>
    (r \<and> 1 < refcounts s ! p \<longrightarrow> s' = s\<lparr>refcounts := (refcounts s)[p := refcounts s ! p - 1]\<rparr>) \<and>
    (r \<and> refcounts s ! p = 1 \<longrightarrow> (\<exists>k. (p, k) \<in> alloc_blocks s \<and> free_set s' = free_set s \<union> frames (p, k) \<and>
      alloc_blocks s' = alloc_blocks s - {(p, k)} \<and> refcounts s' = (refcounts s)[p := 0] \<and>
      (\<exists>b. frames (p, k) \<subseteq> frames b \<and> merged b (free_blocks s') \<and>
        free_blocks s' = insert b {c \<in> free_blocks s. frames c \<inter> frames b = {}})))"
proof -
  note cs = buddy_free_cases [OF ok, of frame, folded p_def]
  have inv: "buddy_inv s" using ok by (simp add: buddy_ok_def)
  note len = buddy_inv_lengths [OF inv]
  consider "\<not> valid_frame s frame \<or> refcounts s ! p = 0"
    | "valid_frame s frame" "1 < refcounts s ! p" | "valid_frame s frame" "refcounts s ! p = 1"
    by (metis linorder_neqE word_less_1)
  then show ?thesis
  proof cases
    case 1
    then show ?thesis using cs(1) ok by auto
  next
    case 2
    have p: "p < max_pfn s" using 2(1) by (simp add: valid_frame_def p_def)
    have "is_alloc (pfn_flags s ! p)" using inv 2(2) p by (auto simp: buddy_inv_def)
    then have "buddy_ok (s\<lparr>refcounts := (refcounts s)[p := refcounts s ! p - 1]\<rparr>)"
      by (rule buddy_ok_recount [OF ok])
    then show ?thesis using cs(2) [OF 2] 2 by auto
  next
    case 3
    have p: "p < max_pfn s" "0 < p" using 3(1) valid_frame_pos by (auto simp: valid_frame_def p_def)
    have "is_alloc (pfn_flags s ! p)" using inv 3(2) p by (auto simp: buddy_inv_def)
    then have "(p, flag_order (pfn_flags s ! p)) \<in> alloc_blocks s" using p len by (simp add: alloc_blocks_def)
    note bl = this
    obtain s' where s': "free_order p (flag_order (pfn_flags s ! p)) (s\<lparr>refcounts := (refcounts s)[p := 0]\<rparr>) = Some s'"
      "buddy_ok s'" "free_set s' = free_set s \<union> frames (p, flag_order (pfn_flags s ! p))"
      "alloc_blocks s' = alloc_blocks s - {(p, flag_order (pfn_flags s ! p))}" "refcounts s' = (refcounts s)[p := 0]"
      "\<exists>b. frames (p, flag_order (pfn_flags s ! p)) \<subseteq> frames b \<and> merged b (free_blocks s') \<and>
        free_blocks s' = insert b {c \<in> free_blocks s. frames c \<inter> frames b = {}}"
      using release_block_inv [OF ok bl p(2)] by blast
    have "buddy_free frame s = Some (True, s')" using cs(3) [OF 3] s'(1) by simp
    then show ?thesis
      using 3 s'(2-6) bl by (intro exI [of _ True] exI [of _ s'] conjI impI
        exI [of _ "flag_order (pfn_flags s ! p)"]) simp_all
  qed
qed

lemma reserve_flag_inv:
  assumes ok: "buddy_ok s" and p: "p < max_pfn s"
  defines "s' \<equiv> s\<lparr>pfn_flags := (pfn_flags s)[p := pfn_flags s ! p OR FLAG_RESERVED]\<rparr>"
  shows "buddy_ok s'" "free_blocks s' = free_blocks s" "alloc_blocks s' = alloc_blocks s"
proof -
  have inv: "buddy_inv s" using ok by (simp add: buddy_ok_def)
  note len = buddy_inv_lengths [OF inv]
  have fl: "is_free (pfn_flags s' ! q) = is_free (pfn_flags s ! q)" "is_alloc (pfn_flags s' ! q) = is_alloc (pfn_flags s ! q)"
    "flag_order (pfn_flags s' ! q) = flag_order (pfn_flags s ! q)" if "q < max_pfn s" for q
    using that len unfolding s'_def by (cases "q = p"; simp)+
  have lf: "length (pfn_flags s') = max_pfn s" using len by (simp add: s'_def)
  show fb: "free_blocks s' = free_blocks s" and ab: "alloc_blocks s' = alloc_blocks s"
    using fl lf len by (auto simp: free_blocks_def alloc_blocks_def)
  have "linked s'" by (rule linked_flags [of s])
    (use inv fb len lf in \<open>simp_all add: s'_def buddy_inv_def\<close>)
  moreover have "max_pfn s' = max_pfn s" "refcounts s' = refcounts s" "free_frames s' = free_frames s"
    by (simp_all add: s'_def)
  ultimately show "buddy_ok s'"
    using ok fb ab fl by (auto simp: buddy_ok_def buddy_inv_def free_set_def)
qed

lemma buddy_reserve_inv:
  fixes frame :: phys_frame
  assumes ok: "buddy_ok s"
  defines "p \<equiv> pfn_of frame"
  shows "\<exists>s'. buddy_reserve frame s = Some (valid_frame s frame, s') \<and> buddy_ok s' \<and>
    (if valid_frame s frame \<and> p \<in> free_set s \<and> pfn_flags s ! p AND FLAG_RESERVED = 0
     then free_set s' = free_set s - {p} \<and> alloc_blocks s' = insert (p, 0) (alloc_blocks s)
     else free_set s' = free_set s \<and> alloc_blocks s' = alloc_blocks s)"
proof -
  have inv: "buddy_inv s" using ok by (simp add: buddy_ok_def)
  note len = buddy_inv_lengths [OF inv]
  note d = buddy_reserve_def p_def pfn_of_def valid_frame_def page_aligned_def Let_def
  show ?thesis
  proof (cases "valid_frame s frame")
    case False
    then have "buddy_reserve frame s = Some (False, s)" by (auto simp: d)
    then show ?thesis using False ok by auto
  next
    case True
    then have p: "p < max_pfn s" by (simp add: valid_frame_def p_def)
    have step: "buddy_reserve frame s =
      (if is_alloc (pfn_flags s ! p) \<or> pfn_flags s ! p AND FLAG_RESERVED \<noteq> 0 then Some (True, s)
       else do { found \<leftarrow> reserve_search p [0..<MAX_ORDER] s;
          case found of Some s' \<Rightarrow> Some (True, s')
          | None \<Rightarrow> Some (True, s\<lparr>pfn_flags := (pfn_flags s)[p := pfn_flags s ! p OR FLAG_RESERVED]\<rparr>) })"
      using True p len by (simp add: d is_alloc_def cong: option.case_cong)
    consider "pfn_flags s ! p AND FLAG_RESERVED \<noteq> 0 \<or> is_alloc (pfn_flags s ! p)"
      | "pfn_flags s ! p AND FLAG_RESERVED = 0" "\<not> is_alloc (pfn_flags s ! p)" "p \<in> free_set s"
      | "pfn_flags s ! p AND FLAG_RESERVED = 0" "\<not> is_alloc (pfn_flags s ! p)" "p \<notin> free_set s" by blast
    then show ?thesis
    proof cases
      case 1
      have "p \<notin> free_set s" if "is_alloc (pfn_flags s ! p)"
      proof -
        have "(p, flag_order (pfn_flags s ! p)) \<in> alloc_blocks s" using that p len by (simp add: alloc_blocks_def)
        from alloc_block_subset [OF this] have "p \<in> alloc_set s"
          using fst_in_frames [of "(p, flag_order (pfn_flags s ! p))"] by auto
        then show ?thesis using free_alloc_disjoint [OF inv] by auto
      qed
      then show ?thesis using 1 step True ok by auto
    next
      case 2
      then obtain h k where "(h, k) \<in> free_blocks s" "p \<in> frames (h, k)" by (auto simp: free_set_def)
      from reserve_search_take [OF ok this] show ?thesis using 2 step True by auto
    next
      case 3
      have "reserve_search p [0..<MAX_ORDER] s = Some None"
      proof (intro reserve_search_None [OF inv p] ballI notI)
        fix k assume b: "(push_bit k (drop_bit k p), k) \<in> free_blocks s"
        have "p mod 2 ^ k < 2 ^ k" by simp
        then have "p < p div 2 ^ k * 2 ^ k + 2 ^ k" using div_mult_mod_eq [of p "2 ^ k"] by linarith
        then have "p \<in> frames (push_bit k (drop_bit k p), k)"
          by (simp add: frames_def push_bit_eq_mult drop_bit_eq_div)
        then show False using 3(3) b by (auto simp: free_set_def)
      qed
      then show ?thesis
        using 3 step True reserve_flag_inv [OF ok p] by (auto simp: free_set_def)
    qed
  qed
qed

text \<open>The two requests that only count references.\<close>

lemma recount_exec:
  assumes ok: "buddy_ok s"
  shows "(pfn_of f < max_pfn s \<Longrightarrow> is_alloc (pfn_flags s ! pfn_of f)) \<Longrightarrow> \<exists>s'. buddy_exec (ShareFrame f) s = Some s' \<and>
      buddy_ok s' \<and> free_set s' \<union> alloc_set s' = free_set s \<union> alloc_set s"
    and "\<exists>s'. buddy_exec (DropFrame f) s = Some s' \<and>
      buddy_ok s' \<and> free_set s' \<union> alloc_set s' = free_set s \<union> alloc_set s"
proof -
  have inv: "buddy_inv s" using ok by (simp add: buddy_ok_def)
  note len = buddy_inv_lengths [OF inv]
  have sets: "free_set (s\<lparr>refcounts := rc\<rparr>) \<union> alloc_set (s\<lparr>refcounts := rc\<rparr>) = free_set s \<union> alloc_set s" for rc
    by (simp add: free_set_def alloc_set_def free_blocks_def alloc_blocks_def)
  have al: "refcounts s ! pfn_of f \<noteq> 0 \<Longrightarrow> pfn_of f < max_pfn s \<Longrightarrow> is_alloc (pfn_flags s ! pfn_of f)"
    using inv by (auto simp: buddy_inv_def)
  show "\<exists>s'. buddy_exec (ShareFrame f) s = Some s' \<and> buddy_ok s' \<and> free_set s' \<union> alloc_set s' = free_set s \<union> alloc_set s"
    if "pfn_of f < max_pfn s \<Longrightarrow> is_alloc (pfn_flags s ! pfn_of f)"
    using that ok buddy_ok_recount [OF ok] sets len by (auto simp: frame_ref_inc_def ref_inc_def)
  show "\<exists>s'. buddy_exec (DropFrame f) s = Some s' \<and> buddy_ok s' \<and> free_set s' \<union> alloc_set s' = free_set s \<union> alloc_set s"
  proof (cases "pfn_of f < max_pfn s")
    case True
    have "buddy_ok (s\<lparr>refcounts := (refcounts s)[pfn_of f := saturating_sub (refcounts s ! pfn_of f) 1]\<rparr>)"
    proof (cases "refcounts s ! pfn_of f = 0")
      case zero: True
      then have "(refcounts s)[pfn_of f := saturating_sub (refcounts s ! pfn_of f) 1] = refcounts s"
        using list_update_id [of "refcounts s" "pfn_of f"] by (simp add: saturating_sub_def)
      then show ?thesis using ok by simp
    next
      case False
      then show ?thesis using buddy_ok_recount [OF ok al [OF _ True]] by blast
    qed
    then show ?thesis using True len sets by (simp add: frame_ref_dec_def ref_dec_def)
  qed (use ok in \<open>simp add: frame_ref_dec_def ref_dec_def\<close>)
qed

lemma buddy_exec_ok:
  assumes ok: "buddy_ok s" and pm: "frame_permitted r s"
  shows "\<exists>s'. buddy_exec r s = Some s' \<and> buddy_ok s' \<and> free_set s' \<union> alloc_set s' = free_set s \<union> alloc_set s"
proof -
  have inv: "buddy_inv s" using ok by (simp add: buddy_ok_def)
  show ?thesis
  proof (cases r)
    case (AllocOrder k)
    then show ?thesis
      using alloc_order_inv [OF ok, of k] alloc_order_large [of k s] ok
      by (cases "k < MAX_ORDER") (auto simp: alloc_set_def)
  next
    case (FreeFrame f)
    obtain b s' where f: "buddy_free f s = Some (b, s')" "buddy_ok s'" "\<not> b \<longrightarrow> s' = s"
      "b \<longleftrightarrow> valid_frame s f \<and> refcounts s ! pfn_of f \<noteq> 0"
      "b \<and> 1 < refcounts s ! pfn_of f \<longrightarrow> s' = s\<lparr>refcounts := (refcounts s)[pfn_of f := refcounts s ! pfn_of f - 1]\<rparr>"
      "b \<and> refcounts s ! pfn_of f = 1 \<longrightarrow> (\<exists>k. (pfn_of f, k) \<in> alloc_blocks s \<and>
        free_set s' = free_set s \<union> frames (pfn_of f, k) \<and> alloc_blocks s' = alloc_blocks s - {(pfn_of f, k)})"
      using buddy_free_inv [OF ok, of f] by blast
    consider "\<not> b" | "b" "1 < refcounts s ! pfn_of f" | "b" "refcounts s ! pfn_of f = 1"
      using f(4) by (metis linorder_neqE word_less_1)
    then have "free_set s' \<union> alloc_set s' = free_set s \<union> alloc_set s"
    proof cases
      case 3
      then obtain k where k: "(pfn_of f, k) \<in> alloc_blocks s" "free_set s' = free_set s \<union> frames (pfn_of f, k)"
        "alloc_blocks s' = alloc_blocks s - {(pfn_of f, k)}" using f(6) by blast
      then show ?thesis
        using alloc_set_remove [OF inv k(1)] alloc_block_subset [OF k(1)] by (auto simp: alloc_set_def [of s'])
    qed (use f in \<open>auto simp: free_set_def alloc_set_def free_blocks_def alloc_blocks_def\<close>)
    then show ?thesis using f FreeFrame by auto
  next
    case (ReserveFrame f)
    then show ?thesis
      using buddy_reserve_inv [OF ok, of f] by (auto simp: alloc_set_def frames_def split: if_splits)
  next
    case (ShareFrame f)
    have "is_alloc (pfn_flags s ! pfn_of f)" if "pfn_of f < max_pfn s"
      using that pm inv buddy_inv_lengths [OF inv] ShareFrame
      by (auto simp: frame_permitted_def frame_refcount_def refcount_def buddy_inv_def)
    then show ?thesis using recount_exec [OF ok, of f] ShareFrame by simp
  next
    case (DropFrame f)
    then show ?thesis using recount_exec [OF ok, of f] by simp
  qed
qed

interpretation pool: frame_pool buddy_ok free_set alloc_set frame_permitted buddy_exec
proof unfold_locales
  show "free_set s \<inter> alloc_set s = {}" if "buddy_ok s" for s
    using that free_alloc_disjoint by (simp add: buddy_ok_def)
qed (rule buddy_exec_ok)

section \<open>Properties\<close>

text \<open>A small pool: fifteen free frames after the null frame.\<close>

definition demo_pool :: buddy_allocator where
  "demo_pool = the (push_range 1 16
     ((fresh_allocator 16)\<lparr>total_usable_frames := 15, free_frames := 15\<rparr>))"

lemma demo_pool_ok: "buddy_ok demo_pool" "free_set demo_pool = {1 ..< 16}" "max_pfn demo_pool = 16"
proof -
  have n: "16 \<le> MAX_SUPPORTED_FRAMES" by (simp add: MAX_SUPPORTED_FRAMES_def)
  note f = fresh_allocator_ok [OF n]
  have inv: "buddy_inv (fresh_allocator 16)" using f(1) by (simp add: buddy_ok_def)
  let ?s = "(fresh_allocator 16)\<lparr>total_usable_frames := 15, free_frames := 15\<rparr>"
  note c = buddy_inv_counters [OF inv, of 15 15]
  have "alloc_set (fresh_allocator 16) = {}" using f(3) by (simp add: alloc_set_def)
  then have "\<exists>s'. push_range 1 16 ?s = Some s' \<and> becomes ?s (free_set ?s \<union> {1 ..< 16}) s'"
    using c f by (intro push_range_inv) (auto simp: fresh_allocator_def)
  then obtain s' where s': "push_range 1 16 ?s = Some s'" "becomes ?s (free_set ?s \<union> {1 ..< 16}) s'" by blast
  then have "demo_pool = s'" by (simp add: demo_pool_def)
  then show "buddy_ok demo_pool" "free_set demo_pool = {1 ..< 16}" "max_pfn demo_pool = 16"
    using becomesD [OF s'(2)] c f by (simp_all add: buddy_ok_def fresh_allocator_def)
qed

text \<open>C1.  Allocation of a block of order \<open>k\<close>.  In every consistent state the allocator either
  reports that no free block of that size or larger exists and changes nothing, or hands out an
  aligned block of \<open>2 ^ k\<close> frames, none of them the null frame, that was entirely free; exactly these
  frames stop being free, the block is recorded with a reference count of one, and the free lists,
  the status bytes and the free counter stay consistent.\<close>

theorem alloc_order_correct:
  assumes "buddy_ok s" "k < MAX_ORDER"
  shows "(alloc_order k s = Some (None, s) \<and> (\<forall>b\<in>free_blocks s. snd b < k)) \<or>
    (\<exists>p s'. alloc_order k s = Some (Some p, s') \<and> buddy_ok s' \<and> 0 < p \<and> 2 ^ k dvd p \<and>
      frames (p, k) \<subseteq> free_set s \<and> free_set s' = free_set s - frames (p, k) \<and>
      alloc_blocks s' = insert (p, k) (alloc_blocks s) \<and> refcounts s' = (refcounts s)[p := 1])"
  using alloc_order_inv [OF assms] by (auto simp: block_ok_def)

theorem alloc_order_correct_witness:
  "buddy_ok demo_pool \<and> 1 < MAX_ORDER \<and> map_option fst (alloc_order 1 demo_pool) = Some (Some 2) \<and>
    (\<exists>s'. alloc_order 1 demo_pool = Some (Some 2, s') \<and> free_set s' = {1 ..< 16} - {2, 3} \<and> buddy_ok s')"
proof -
  have k: "1 < MAX_ORDER" by (simp add: MAX_ORDER_def)
  have v: "map_option fst (alloc_order 1 demo_pool) = Some (Some 2)" by code_simp
  have "frames (2, 1) = {2, 3}" by (auto simp: frames_def)
  then show ?thesis
    using alloc_order_correct [OF demo_pool_ok(1) k] demo_pool_ok k v by auto
qed

text \<open>C10.  Release of a frame.  It is refused, with nothing changed, exactly when the address is null,
  unaligned or untracked, or its count is zero; a shared frame only loses one reference; the last
  reference gives back the whole block that was allocated there.  That block is merged with its free
  buddies as far as this goes: one free block holds it, of the largest order or with a buddy that is not
  a free block of the same order, and the other free blocks are the old ones outside it.  Every list,
  status byte and counter stays consistent.\<close>

theorem buddy_free_correct:
  fixes frame :: phys_frame
  assumes "buddy_ok s"
  defines "p \<equiv> pfn_of frame"
  shows "\<exists>r s'. buddy_free frame s = Some (r, s') \<and> buddy_ok s' \<and>
    (r \<longleftrightarrow> valid_frame s frame \<and> refcounts s ! p \<noteq> 0) \<and> (\<not> r \<longrightarrow> s' = s) \<and>
    (r \<and> 1 < refcounts s ! p \<longrightarrow> s' = s\<lparr>refcounts := (refcounts s)[p := refcounts s ! p - 1]\<rparr>) \<and>
    (r \<and> refcounts s ! p = 1 \<longrightarrow> (\<exists>k. (p, k) \<in> alloc_blocks s \<and> free_set s' = free_set s \<union> frames (p, k) \<and>
      alloc_blocks s' = alloc_blocks s - {(p, k)} \<and> refcounts s' = (refcounts s)[p := 0] \<and>
      (\<exists>b. frames (p, k) \<subseteq> frames b \<and> merged b (free_blocks s') \<and>
        free_blocks s' = insert b {c \<in> free_blocks s. frames c \<inter> frames b = {}})))"
  unfolding p_def by (rule buddy_free_inv [OF assms(1)])

theorem buddy_free_correct_witness:
  "\<exists>s. alloc_order 1 demo_pool = Some (Some 2, s) \<and> buddy_ok s \<and>
    (\<exists>s'. buddy_free (PhysFrame 0x2000) s = Some (True, s') \<and> buddy_ok s' \<and> free_set s' = {1 ..< 16})"
proof -
  have k: "1 < MAX_ORDER" by (simp add: MAX_ORDER_def)
  have "map_option fst (alloc_order 1 demo_pool) = Some (Some 2)" by code_simp
  then obtain s where s: "alloc_order 1 demo_pool = Some (Some 2, s)" "buddy_ok s"
    "free_set s = free_set demo_pool - frames (2, 1)" "alloc_blocks s = insert (2, 1) (alloc_blocks demo_pool)"
    "refcounts s = (refcounts demo_pool)[2 := 1]" "max_pfn s = 16" "frames (2, 1) \<subseteq> free_set demo_pool"
    using alloc_order_inv [OF demo_pool_ok(1) k] demo_pool_ok(3) by auto
  have p: "pfn_of (PhysFrame 0x2000) = 2" by (simp add: pfn_of_def PAGE_SIZE_def)
  have v: "valid_frame s (PhysFrame 0x2000)"
    using s(6) by (simp add: valid_frame_def p page_aligned_def PAGE_SIZE_def)
  have inv: "buddy_inv demo_pool" "buddy_inv s" using demo_pool_ok(1) s(2) by (simp_all add: buddy_ok_def)
  then have rc: "refcounts s ! 2 = 1"
    using s(5) demo_pool_ok(3) buddy_inv_lengths [OF inv(1)] by simp
  obtain r s' where f: "buddy_free (PhysFrame 0x2000) s = Some (r, s')" "buddy_ok s'"
    "r \<longleftrightarrow> valid_frame s (PhysFrame 0x2000) \<and> refcounts s ! 2 \<noteq> 0"
    "r \<and> refcounts s ! 2 = 1 \<longrightarrow> (\<exists>k. (2, k) \<in> alloc_blocks s \<and> free_set s' = free_set s \<union> frames (2, k) \<and>
      alloc_blocks s' = alloc_blocks s - {(2, k)} \<and> refcounts s' = (refcounts s)[2 := 0])"
    using buddy_free_correct [OF s(2), of "PhysFrame 0x2000"] unfolding p by blast
  have r: r using f(3) v rc by simp
  then obtain k where k: "(2, k) \<in> alloc_blocks s" "free_set s' = free_set s \<union> frames (2, k)"
    using f(4) rc by blast
  have "(2, 1) \<in> alloc_blocks s" using s(4) by simp
  then have "k = 1" using k(1) flagged_functional unfolding alloc_blocks_def by blast
  then have "free_set s' = {1 ..< 16}" using k(2) s(3,7) demo_pool_ok(2) by auto
  then show ?thesis using f(1,2) r s(1,2) by auto
qed



text \<open>The contract is needed.  A free frame that is shared and then released is pushed onto its list a
  second time, and the next two allocations hand out the same block.\<close>

definition alloc_twice :: "nat \<Rightarrow> buddy_allocator \<Rightarrow> (nat option \<times> nat option) option" where
  "alloc_twice k s = do {
     (p, s1) \<leftarrow> alloc_order k s;
     (q, s2) \<leftarrow> alloc_order k s1;
     Some (p, q)
   }"

lemma shared_free_frame_twice:
  "Option.bind (run_all buddy_exec [ShareFrame (PhysFrame 0x2000), FreeFrame (PhysFrame 0x2000)] demo_pool)
     (alloc_twice 1) = Some (Some 2, Some 2)"
  by code_simp

text \<open>Reservation of a boot-loader frame.  A tracked frame whose status byte carries no stale
  reservation mark is, after the call, not free: if it was, the block that held it is split so that
  exactly this frame leaves the free frames.\<close>

theorem reserve_correct:
  assumes "buddy_ok s" "valid_frame s frame"
    "pfn_of frame \<in> free_set s \<longrightarrow> pfn_flags s ! pfn_of frame AND FLAG_RESERVED = 0"
  shows "\<exists>s'. buddy_reserve frame s = Some (True, s') \<and> buddy_ok s' \<and> free_set s' = free_set s - {pfn_of frame}"
  using buddy_reserve_inv [OF assms(1), of frame] assms(2,3) by (auto split: if_splits)

theorem reserve_correct_witness:
  "\<exists>s'. buddy_reserve (PhysFrame 0x5000) demo_pool = Some (True, s') \<and> buddy_ok s' \<and>
    free_set s' = {1 ..< 16} - {5}"
proof -
  have p: "pfn_of (PhysFrame 0x5000) = 5" by (simp add: pfn_of_def PAGE_SIZE_def)
  have "valid_frame demo_pool (PhysFrame 0x5000)"
    using demo_pool_ok(3) by (simp add: valid_frame_def p page_aligned_def PAGE_SIZE_def)
  moreover have "pfn_flags demo_pool ! 5 AND FLAG_RESERVED = 0" by code_simp
  ultimately show ?thesis
    using reserve_correct [OF demo_pool_ok(1), of "PhysFrame 0x5000"] demo_pool_ok(2) by (simp add: p)
qed

text \<open>Reserving, releasing and reserving a frame again.\<close>

definition reserve_twice :: "phys_frame \<Rightarrow> buddy_allocator \<Rightarrow> (bool \<times> buddy_allocator) option" where
  "reserve_twice frame s = do {
     (r1, s1) \<leftarrow> buddy_reserve frame s;
     (r2, s2) \<leftarrow> buddy_free frame s1;
     buddy_reserve frame s2
   }"

text \<open>The stale mark is real.  A reserved frame that is released and merges into its lower buddy
  keeps its mark, and a second reservation then reports success although the frame is free.\<close>

theorem stale_reservation:
  "\<exists>s. reserve_twice (PhysFrame 0x5000) demo_pool = Some (True, s) \<and> 5 \<in> free_set s \<and> free_frames s = 15"
proof -
  have "map_option (\<lambda>(r, s). (r, pfn_flags s ! 4, length (pfn_flags s), free_frames s))
      (reserve_twice (PhysFrame 0x5000) demo_pool) = Some (True, 34, 16, 15)" by code_simp
  then obtain s where s: "reserve_twice (PhysFrame 0x5000) demo_pool = Some (True, s)"
    "pfn_flags s ! 4 = 34" "length (pfn_flags s) = 16" "free_frames s = 15" by auto
  then have "(4, 2) \<in> free_blocks s" by (simp add: free_blocks_def flag_defs)
  then have "frames (4, 2) \<subseteq> free_set s" by (auto simp: free_set_def)
  moreover have "5 \<in> frames (4, 2)" by (simp add: frames_def)
  ultimately show ?thesis using s by blast
qed

text \<open>C11.  Boot.  Take a memory map whose usable entries are page-aligned, non-empty, disjoint and inside
  the 64-bit address space, with one of them large enough for the per-frame arrays and a mapping offset
  that leaves the addresses in range.  The arrays go to the start of a largest usable entry.  If they end
  at or below the 64 GiB that are tracked, initialisation does not panic: the free frames are then exactly
  the usable frames below 64 GiB without the null frame and without the frames under the arrays, which are
  allocated; the statistics report the number of free frames, that number plus the frames of the arrays
  as tracked, the saturated byte length of the usable entries, and the number of map entries.
  If the arrays end above 64 GiB, initialisation panics.\<close>

theorem memory_init_correct:
  assumes "boot_map usable es" "\<forall>f\<in>set es. me_type f = usable \<longrightarrow> unat hhdm + entry_end f < 2 ^ 64"
    "e \<in> set es" "me_type e = usable" "meta_bytes_aligned (init_max_pfn usable es) \<le> unat (me_length e)"
  defines "mb \<equiv> meta_bytes_aligned (init_max_pfn usable es)"
  shows "\<exists>c\<in>set es. me_type c = usable \<and> (\<forall>f\<in>set es. me_type f = usable \<longrightarrow> me_length f \<le> me_length c) \<and>
    (if unat (me_base c) + mb \<le> MAX_SUPPORTED_FRAMES * 4096
     then \<exists>st s. memory_init usable es hhdm = Some (st, s) \<and> buddy_ok s \<and> meta_frames c mb \<subseteq> usable_set usable es \<and>
       free_set s = usable_set usable es - {0} - meta_frames c mb \<and>
       alloc_blocks s = (\<lambda>p. (p, 0)) ` meta_frames c mb \<and>
       usable_frames st = card (free_set s) \<and> tracked_frames st = card (free_set s) + card (meta_frames c mb) \<and>
       unat (usable_bytes st) = min (\<Sum>f\<leftarrow>filter (\<lambda>f. me_type f = usable) es. unat (me_length f)) (2 ^ 64 - 1) \<and>
       map_entries st = length es
     else memory_init usable es hhdm = None)"
proof -
  obtain c where c: "c \<in> set es" "me_type c = usable" "\<forall>f\<in>set es. me_type f = usable \<longrightarrow> me_length f \<le> me_length c"
    "chosen_entry usable (of_nat mb) es = Some c" "mb \<le> unat (me_length c)"
    using chosen_largest [OF assms(3-5)] unfolding mb_def by blast
  have hh: "unat hhdm + entry_end c < 2 ^ 64" using assms(2) c(1,2) by simp
  note ok = memory_init_fits [OF assms(1) c(1,2) hh c(4,5) [unfolded mb_def], folded mb_def]
  note no = memory_init_beyond [OF assms(1) c(1,2) hh c(4) [unfolded mb_def], folded mb_def]
  show ?thesis
    by (rule bexI [OF _ c(1)], intro conjI c(2,3)) (use ok no in \<open>simp split: if_split\<close>)
qed

definition demo_map :: "memmap_entry list" where
  "demo_map = [\<lparr>me_base = 0, me_length = 0x9F000, me_type = 0\<rparr>,
     \<lparr>me_base = 0x9F000, me_length = 0x61000, me_type = 1\<rparr>,
     \<lparr>me_base = 0x100000, me_length = 0x700000, me_type = 0\<rparr>]"

lemma demo_map_facts:
  "boot_map 0 demo_map" "init_max_pfn 0 demo_map = 2048" "meta_bytes_aligned 2048 = 24576"
proof -
  have sat: "saturating_add 0 (0x9F000 :: u64) = 0x9F000" "saturating_add 0x100000 (0x700000 :: u64) = 0x800000"
    "saturating_add 0x800000 (0xFFF :: u64) = 0x800FFF"
    by (simp_all add: saturating_add_def)
  have "max_usable_phys 0 demo_map = 0x800000"
    by (simp add: max_usable_phys_def demo_map_def sat)
  then show "init_max_pfn 0 demo_map = 2048"
    by (simp add: init_max_pfn_def PAGE_SIZE_def sat MAX_SUPPORTED_FRAMES_def)
  show "meta_bytes_aligned 2048 = 24576"
    by (simp add: meta_bytes_aligned_def push_bit_eq_mult drop_bit_eq_div PAGE_SIZE_def)
  show "boot_map 0 demo_map"
    by (simp add: boot_map_def demo_map_def entry_end_def page_aligned_def PAGE_SIZE_def)
qed

theorem memory_init_correct_witness:
  "\<exists>st s c. memory_init 0 demo_map 0xFFFF800000000000 = Some (st, s) \<and> buddy_ok s \<and>
    free_set s = usable_set 0 demo_map - {0} - meta_frames c 24576 \<and> unat (usable_bytes st) = 0x79F000"
proof -
  have hh: "\<forall>f\<in>set demo_map. me_type f = 0 \<longrightarrow> unat (0xFFFF800000000000 :: u64) + entry_end f < 2 ^ 64"
    by (simp add: demo_map_def entry_end_def)
  have e: "demo_map ! 2 \<in> set demo_map" "me_type (demo_map ! 2) = 0"
    "meta_bytes_aligned (init_max_pfn 0 demo_map) \<le> unat (me_length (demo_map ! 2))"
    by (simp_all add: demo_map_facts) (simp_all add: demo_map_def)
  have "unat (me_base c) + 24576 \<le> MAX_SUPPORTED_FRAMES * 4096" if "c \<in> set demo_map" for c
    using that by (auto simp: demo_map_def MAX_SUPPORTED_FRAMES_def)
  moreover have "min (\<Sum>f\<leftarrow>filter (\<lambda>f. me_type f = 0) demo_map. unat (me_length f)) (2 ^ 64 - 1) = 0x79F000"
    by (simp add: demo_map_def)
  ultimately show ?thesis
    using memory_init_correct [OF demo_map_facts(1) hh e] unfolding demo_map_facts(2,3) by auto
qed

end
