(* ===== verification/Tmpfs.thy ===== *)
theory Tmpfs
  imports Buddy Btree "HOL-Library.List_Lexorder"
begin

text \<open>
  The in-memory file system (\<open>rust/kernel/src/tmpfs.rs\<close>).  File data lives in physical
  frames reached through the higher-half mapping, so the state holds the byte-addressed
  memory besides the inode table.  Names are UTF-8 byte strings, compared bytewise as
  \<open>BTreeMap<String, _>\<close> does.

  The frame allocator is the argument \<open>alloc\<close> / \<open>release\<close> of the operations that use it; the
  locale \<open>frame_source\<close> is the contract they rely on, interpreted on the buddy allocator.  Every
  operation returns its result together with the new state, since an error may leave changes behind.
\<close>

section \<open>State\<close>

datatype storage_error =
    OutOfBounds | AllocationFailed | DeviceUnavailable | IoFailed | GptMissingRoot | GptInvalid

datatype vfs_error =
    Storage storage_error | InvalidFormat | NotMounted | InvalidPath | NameTooLong | NotFound
  | AlreadyExists | IsDirectory | NotDirectory | NotEmpty | NoSpace | FileTooLarge | RedoxFs
  | PermissionDenied | ReadOnlyFilesystem | Loop

record inode_metadata =
  im_ino :: u64
  im_size :: u64
  im_mode :: u32
  im_uid :: u32
  im_gid :: u32
  im_atime :: u64
  im_mtime :: u64
  im_ctime :: u64

record stat_fs =
  f_type :: u64
  f_bsize :: u64
  f_blocks :: u64
  f_bfree :: u64
  f_bavail :: u64
  f_files :: u64
  f_ffree :: u64

datatype tmp_node_kind =
    is_File: File (pages: "phys_frame list") (file_size: nat)
  | Directory (entries: "(bytes, u64) btree")
  | Symlink (target: bytes)

record tmp_node =
  tn_ino :: u64
  tn_mode :: u32
  tn_uid :: u32
  tn_gid :: u32
  tn_atime :: u64
  tn_mtime :: u64
  tn_ctime :: u64
  nlink :: u32
  open_count :: u32
  node_kind :: tmp_node_kind

text \<open>\<open>paging::HHDM_OFFSET\<close>, the memory it maps, and the frame allocator.\<close>

record 'm tmpfs =
  next_ino :: u64
  nodes :: "(u64, tmp_node) btree"
  hhdm :: "u64 option"
  ram :: "u64 \<Rightarrow> u8"
  pool :: 'm

type_synonym ('a, 'm) fs_result = "(vfs_error, 'a) outcome \<times> 'm tmpfs"

definition phys_to_virt :: "u64 option \<Rightarrow> u64 \<Rightarrow> u64 option" where
  "phys_to_virt hh physical_address =
    (case hh of None \<Rightarrow> None | Some off \<Rightarrow> checked_add off physical_address)"

text \<open>\<open>copy_nonoverlapping\<close> out of and into memory at an address.\<close>

definition load :: "(u64 \<Rightarrow> u8) \<Rightarrow> u64 \<Rightarrow> nat \<Rightarrow> bytes" where
  "load rm a n = map (\<lambda>i. rm (a + of_nat i)) [0..<n]"

definition store :: "(u64 \<Rightarrow> u8) \<Rightarrow> u64 \<Rightarrow> bytes \<Rightarrow> (u64 \<Rightarrow> u8)" where
  "store rm a bs = (\<lambda>x. if unat (x - a) < length bs then bs ! unat (x - a) else rm x)"

definition new_node :: "u64 \<Rightarrow> u32 \<Rightarrow> u32 \<Rightarrow> tmp_node_kind \<Rightarrow> tmp_node" where
  "new_node ino mode links k = \<lparr>tn_ino = ino, tn_mode = mode, tn_uid = 0, tn_gid = 0, tn_atime = 0,
     tn_mtime = 0, tn_ctime = 0, nlink = links, open_count = 0, node_kind = k\<rparr>"

definition TmpFs_new :: "u64 option \<Rightarrow> (u64 \<Rightarrow> u8) \<Rightarrow> 'm \<Rightarrow> 'm tmpfs" where
  "TmpFs_new hh rm m = \<lparr>next_ino = 2, nodes = bt_insert 1 (new_node 1 0x41FF 2 (Directory [])) [],
     hhdm = hh, ram = rm, pool = m\<rparr>"

section \<open>Names\<close>

definition tmpfs_root_inode :: u64 where
  "tmpfs_root_inode = 1"

definition DOT :: bytes where
  "DOT = [0x2E]"

definition DOTDOT :: bytes where
  "DOTDOT = [0x2E, 0x2E]"

definition tmpfs_lookup :: "u64 \<Rightarrow> bytes \<Rightarrow> 'm tmpfs \<Rightarrow> (vfs_error, u64) outcome" where
  "tmpfs_lookup parent name s =
    (if name = DOT \<or> name = [] then Ok parent
     else case bt_get (nodes s) parent of
       None \<Rightarrow> Err NotFound
     | Some node \<Rightarrow>
        (case node_kind node of
          Directory es \<Rightarrow> if name = DOTDOT then Ok parent else ok_or (bt_get es name) NotFound
        | _ \<Rightarrow> Err NotDirectory))"

definition tmpfs_read_inode :: "u64 \<Rightarrow> 'm tmpfs \<Rightarrow> (vfs_error, inode_metadata) outcome" where
  "tmpfs_read_inode ino s =
    (case bt_get (nodes s) ino of
      None \<Rightarrow> Err NotFound
    | Some node \<Rightarrow>
       (let sz = (case node_kind node of
            File ps n \<Rightarrow> of_nat n
          | Directory es \<Rightarrow> of_nat (length es) * 64
          | Symlink t \<Rightarrow> of_nat (length t)) in
        Ok \<lparr>im_ino = tn_ino node, im_size = sz, im_mode = tn_mode node, im_uid = tn_uid node,
            im_gid = tn_gid node, im_atime = tn_atime node, im_mtime = tn_mtime node,
            im_ctime = tn_ctime node\<rparr>))"

text \<open>The common part of \<open>create\<close>, \<open>mkdir\<close> and \<open>symlink\<close>: a fresh inode under a new name.\<close>

definition add_node :: "u64 \<Rightarrow> bytes \<Rightarrow> (u64 \<Rightarrow> tmp_node) \<Rightarrow> 'm tmpfs \<Rightarrow> (u64, 'm) fs_result" where
  "add_node parent name mk s =
    (case bt_get (nodes s) parent of
      None \<Rightarrow> (Err NotFound, s)
    | Some node \<Rightarrow>
       (case node_kind node of
         Directory es \<Rightarrow>
           if bt_contains es name then (Err AlreadyExists, s)
           else
             (let ino = next_ino s;
                  ns = bt_modify parent (\<lambda>n. n\<lparr>node_kind := Directory (bt_insert name ino es)\<rparr>) (nodes s) in
              (Ok ino, s\<lparr>next_ino := ino + 1, nodes := bt_insert ino (mk ino) ns\<rparr>))
       | _ \<Rightarrow> (Err NotDirectory, s)))"

definition tmpfs_create :: "u64 \<Rightarrow> bytes \<Rightarrow> u32 \<Rightarrow> 'm tmpfs \<Rightarrow> (u64, 'm) fs_result" where
  "tmpfs_create parent name mode =
    add_node parent name (\<lambda>ino. new_node ino (0x8000 OR (mode AND 0xFFF)) 1 (File [] 0))"

definition tmpfs_mkdir :: "u64 \<Rightarrow> bytes \<Rightarrow> u32 \<Rightarrow> 'm tmpfs \<Rightarrow> (u64, 'm) fs_result" where
  "tmpfs_mkdir parent name mode =
    add_node parent name (\<lambda>ino. new_node ino (0x4000 OR (mode AND 0xFFF)) 2 (Directory []))"

definition tmpfs_symlink :: "u64 \<Rightarrow> bytes \<Rightarrow> bytes \<Rightarrow> 'm tmpfs \<Rightarrow> (u64, 'm) fs_result" where
  "tmpfs_symlink parent name tgt =
    add_node parent name (\<lambda>ino. new_node ino 0xA1FF 1 (Symlink tgt))"

text \<open>\<open>Drop for TmpNode\<close>: removing a file from the table frees its frames.\<close>

primrec release_all :: "(phys_frame \<Rightarrow> 'm \<Rightarrow> (bool \<times> 'm) option) \<Rightarrow> phys_frame list \<Rightarrow> 'm \<Rightarrow> 'm option" where
  "release_all release [] m = Some m"
| "release_all release (f # fs) m =
    (case release f m of None \<Rightarrow> None | Some (r, m') \<Rightarrow> release_all release fs m')"

definition node_frames :: "tmp_node \<Rightarrow> phys_frame list" where
  "node_frames n = (case node_kind n of File ps _ \<Rightarrow> ps | _ \<Rightarrow> [])"

definition remove_node ::
  "(phys_frame \<Rightarrow> 'm \<Rightarrow> (bool \<times> 'm) option) \<Rightarrow> u64 \<Rightarrow> 'm tmpfs \<Rightarrow> (unit, 'm) fs_result" where
  "remove_node release ino s =
    (let frs = (case bt_get (nodes s) ino of None \<Rightarrow> [] | Some n \<Rightarrow> node_frames n);
         s' = s\<lparr>nodes := bt_remove ino (nodes s)\<rparr> in
     case release_all release frs (pool s) of
       None \<Rightarrow> (Panic, s')
     | Some m \<Rightarrow> (Ok (), s'\<lparr>pool := m\<rparr>))"

text \<open>The common tail of \<open>unlink\<close> and \<open>rmdir\<close>: drop the name, then one link of the target.\<close>

definition drop_entry ::
  "(phys_frame \<Rightarrow> 'm \<Rightarrow> (bool \<times> 'm) option) \<Rightarrow> u64 \<Rightarrow> bytes \<Rightarrow> u64 \<Rightarrow> 'm tmpfs \<Rightarrow> (unit, 'm) fs_result" where
  "drop_entry release parent name target_ino s =
    (case bt_get (nodes s) parent of
      None \<Rightarrow> (Err NotFound, s)
    | Some node \<Rightarrow>
       (let ns = (case node_kind node of
              Directory es \<Rightarrow> bt_modify parent (\<lambda>n. n\<lparr>node_kind := Directory (bt_remove name es)\<rparr>) (nodes s)
            | _ \<Rightarrow> nodes s);
            ns' = bt_modify target_ino (\<lambda>n. n\<lparr>nlink := saturating_sub (nlink n) 1\<rparr>) ns;
            should_remove = (case bt_get ns' target_ino of
                Some n \<Rightarrow> nlink n = 0 \<and> open_count n = 0 | None \<Rightarrow> False);
            s' = s\<lparr>nodes := ns'\<rparr> in
        if should_remove then remove_node release target_ino s' else (Ok (), s')))"

definition tmpfs_unlink ::
  "(phys_frame \<Rightarrow> 'm \<Rightarrow> (bool \<times> 'm) option) \<Rightarrow> u64 \<Rightarrow> bytes \<Rightarrow> 'm tmpfs \<Rightarrow> (unit, 'm) fs_result" where
  "tmpfs_unlink release parent name s =
    (case bt_get (nodes s) parent of
      None \<Rightarrow> (Err NotFound, s)
    | Some node \<Rightarrow>
       (case node_kind node of
         Directory es \<Rightarrow>
          (case bt_get es name of
            None \<Rightarrow> (Err NotFound, s)
          | Some target_ino \<Rightarrow>
             (case bt_get (nodes s) target_ino of
               None \<Rightarrow> (Err NotFound, s)
             | Some target_node \<Rightarrow>
                (case node_kind target_node of
                  Directory _ \<Rightarrow> (Err IsDirectory, s)
                | _ \<Rightarrow> drop_entry release parent name target_ino s)))
       | _ \<Rightarrow> (Err NotDirectory, s)))"

definition tmpfs_rmdir ::
  "(phys_frame \<Rightarrow> 'm \<Rightarrow> (bool \<times> 'm) option) \<Rightarrow> u64 \<Rightarrow> bytes \<Rightarrow> 'm tmpfs \<Rightarrow> (unit, 'm) fs_result" where
  "tmpfs_rmdir release parent name s =
    (case bt_get (nodes s) parent of
      None \<Rightarrow> (Err NotFound, s)
    | Some node \<Rightarrow>
       (case node_kind node of
         Directory es \<Rightarrow>
          (case bt_get es name of
            None \<Rightarrow> (Err NotFound, s)
          | Some target_ino \<Rightarrow>
             (case bt_get (nodes s) target_ino of
               None \<Rightarrow> (Err NotFound, s)
             | Some target_node \<Rightarrow>
                (case node_kind target_node of
                  Directory ts \<Rightarrow>
                    if ts \<noteq> [] then (Err NotEmpty, s) else drop_entry release parent name target_ino s
                | _ \<Rightarrow> (Err NotDirectory, s))))
       | _ \<Rightarrow> (Err NotDirectory, s)))"

definition tmpfs_open_inode :: "u64 \<Rightarrow> 'm tmpfs \<Rightarrow> 'm tmpfs" where
  "tmpfs_open_inode ino s =
    s\<lparr>nodes := bt_modify ino (\<lambda>n. n\<lparr>open_count := saturating_add (open_count n) 1\<rparr>) (nodes s)\<rparr>"

definition tmpfs_close_inode ::
  "(phys_frame \<Rightarrow> 'm \<Rightarrow> (bool \<times> 'm) option) \<Rightarrow> u64 \<Rightarrow> 'm tmpfs \<Rightarrow> (unit, 'm) fs_result" where
  "tmpfs_close_inode release ino s =
    (let ns = bt_modify ino (\<lambda>n. n\<lparr>open_count := saturating_sub (open_count n) 1\<rparr>) (nodes s);
         should_remove = (case bt_get ns ino of
             Some n \<Rightarrow> nlink n = 0 \<and> open_count n = 0 | None \<Rightarrow> False);
         s' = s\<lparr>nodes := ns\<rparr> in
     if should_remove then remove_node release ino s' else (Ok (), s'))"

definition tmpfs_readlink :: "u64 \<Rightarrow> 'm tmpfs \<Rightarrow> (vfs_error, bytes) outcome" where
  "tmpfs_readlink ino s =
    (case bt_get (nodes s) ino of
      None \<Rightarrow> Err NotFound
    | Some node \<Rightarrow> (case node_kind node of Symlink t \<Rightarrow> Ok t | _ \<Rightarrow> Err InvalidPath))"

definition tmpfs_rename :: "u64 \<Rightarrow> bytes \<Rightarrow> u64 \<Rightarrow> bytes \<Rightarrow> 'm tmpfs \<Rightarrow> (unit, 'm) fs_result" where
  "tmpfs_rename old_parent old new_parent new s =
    (case bt_get (nodes s) old_parent of
      None \<Rightarrow> (Err NotFound, s)
    | Some old_node \<Rightarrow>
       (case node_kind old_node of
         Directory es \<Rightarrow>
          (case bt_get es old of
            None \<Rightarrow> (Err NotFound, s)
          | Some target_ino \<Rightarrow>
             (let ns = bt_modify old_parent (\<lambda>n. n\<lparr>node_kind := Directory (bt_remove old es)\<rparr>) (nodes s);
                  s1 = s\<lparr>nodes := ns\<rparr> in
              case bt_get ns new_parent of
                None \<Rightarrow> (Err NotFound, s1)
              | Some dest_node \<Rightarrow>
                 (case node_kind dest_node of
                   Directory es' \<Rightarrow>
                     (Ok (), s\<lparr>nodes := bt_modify new_parent
                        (\<lambda>n. n\<lparr>node_kind := Directory (bt_insert new target_ino es')\<rparr>) ns\<rparr>)
                 | _ \<Rightarrow> (Err NotDirectory, s1))))
       | _ \<Rightarrow> (Err NotDirectory, s)))"

definition tmpfs_read_dir :: "u64 \<Rightarrow> 'm tmpfs \<Rightarrow> (vfs_error, bytes list) outcome" where
  "tmpfs_read_dir ino s =
    (case bt_get (nodes s) ino of
      None \<Rightarrow> Err NotFound
    | Some node \<Rightarrow> (case node_kind node of Directory es \<Rightarrow> Ok (bt_keys es) | _ \<Rightarrow> Err NotDirectory))"

definition tmpfs_statfs :: "memory_stats \<Rightarrow> buddy_allocator \<Rightarrow> (vfs_error, stat_fs) outcome" where
  "tmpfs_statfs stats mem = Ok \<lparr>f_type = 0x01021994, f_bsize = 4096,
     f_blocks = of_nat (tracked_frames stats), f_bfree = of_nat (free_frames mem),
     f_bavail = of_nat (free_frames mem), f_files = 100000, f_ffree = 100000\<rparr>"

section \<open>Data\<close>

text \<open>The copy loop of \<open>read\<close>; the caller's buffer is returned with the result.\<close>

function read_loop ::
  "u64 option \<Rightarrow> (u64 \<Rightarrow> u8) \<Rightarrow> phys_frame list \<Rightarrow> nat \<Rightarrow> nat \<Rightarrow> nat \<Rightarrow> bytes \<Rightarrow> (vfs_error, nat) outcome \<times> bytes" where
  "read_loop hh rm ps offset to_read read_bytes buf =
    (if read_bytes < to_read then
       (let curr_offset = offset + read_bytes;
            page_idx = curr_offset div 4096;
            page_off = curr_offset mod 4096;
            chunk_len = min (to_read - read_bytes) (4096 - page_off) in
        if length ps \<le> page_idx then (Panic, buf)
        else case phys_to_virt hh (start_address (ps ! page_idx)) of
          None \<Rightarrow> (Err (Storage IoFailed), buf)
        | Some virt \<Rightarrow> read_loop hh rm ps offset to_read (read_bytes + chunk_len)
            (splice buf read_bytes (load rm (virt + of_nat page_off) chunk_len)))
     else (Ok to_read, buf))"
  by pat_completeness auto
termination by (relation "measure (\<lambda>(_, _, _, _, t, d, _). t - d)") auto

definition tmpfs_read :: "u64 \<Rightarrow> u64 \<Rightarrow> bytes \<Rightarrow> 'm tmpfs \<Rightarrow> (vfs_error, nat) outcome \<times> bytes" where
  "tmpfs_read ino offset buf s =
    (case bt_get (nodes s) ino of
      None \<Rightarrow> (Err NotFound, buf)
    | Some node \<Rightarrow>
       (case node_kind node of
         File ps sz \<Rightarrow>
          (let off = unat offset in
           if sz \<le> off then (Ok 0, buf)
           else read_loop (hhdm s) (ram s) ps off (min (length buf) (sz - off)) 0 buf)
       | _ \<Rightarrow> (Err IsDirectory, buf)))"

text \<open>The loop of \<open>write\<close> that appends zeroed frames up to the needed number.\<close>

function grow_pages ::
  "('m \<Rightarrow> (phys_frame option \<times> 'm) option) \<Rightarrow> u64 option \<Rightarrow> nat \<Rightarrow> phys_frame list \<Rightarrow> (u64 \<Rightarrow> u8) \<Rightarrow> 'm
    \<Rightarrow> (vfs_error, unit) outcome \<times> phys_frame list \<times> (u64 \<Rightarrow> u8) \<times> 'm" where
  "grow_pages alloc hh needed ps rm m =
    (if length ps < needed then
       (case alloc m of
         None \<Rightarrow> (Panic, ps, rm, m)
       | Some (None, m') \<Rightarrow> (Err NoSpace, ps, rm, m')
       | Some (Some frame, m') \<Rightarrow>
          (case phys_to_virt hh (start_address frame) of
            None \<Rightarrow> (Err NoSpace, ps, rm, m')
          | Some virt \<Rightarrow>
              grow_pages alloc hh needed (ps @ [frame]) (store rm virt (replicate 4096 0)) m'))
     else (Ok (), ps, rm, m))"
  by pat_completeness auto
termination by (relation "measure (\<lambda>(_, _, n, ps, _, _). n - length ps)") auto

text \<open>The copy loop of \<open>write\<close>.\<close>

function write_loop ::
  "u64 option \<Rightarrow> phys_frame list \<Rightarrow> nat \<Rightarrow> bytes \<Rightarrow> nat \<Rightarrow> (u64 \<Rightarrow> u8) \<Rightarrow> (vfs_error, unit) outcome \<times> (u64 \<Rightarrow> u8)" where
  "write_loop hh ps offset buf written rm =
    (if written < length buf then
       (let curr_offset = offset + written;
            page_idx = curr_offset div 4096;
            page_off = curr_offset mod 4096;
            chunk_len = min (length buf - written) (4096 - page_off) in
        if length ps \<le> page_idx then (Panic, rm)
        else case phys_to_virt hh (start_address (ps ! page_idx)) of
          None \<Rightarrow> (Err (Storage IoFailed), rm)
        | Some virt \<Rightarrow> write_loop hh ps offset buf (written + chunk_len)
            (store rm (virt + of_nat page_off) (take chunk_len (drop written buf))))
     else (Ok (), rm))"
  by pat_completeness auto
termination by (relation "measure (\<lambda>(_, _, _, b, w, _). length b - w)") auto

text \<open>\<open>(n + 4095) / 4096\<close> on \<open>usize\<close>: the sum wraps near the top.\<close>

definition pages_for :: "nat \<Rightarrow> nat" where
  "pages_for n = unat ((of_nat n + 4095 :: u64) div 4096)"

definition set_file :: "u64 \<Rightarrow> phys_frame list \<Rightarrow> nat \<Rightarrow> 'm tmpfs \<Rightarrow> 'm tmpfs" where
  "set_file ino ps sz s = s\<lparr>nodes := bt_modify ino (\<lambda>n. n\<lparr>node_kind := File ps sz\<rparr>) (nodes s)\<rparr>"

definition tmpfs_write ::
  "('m \<Rightarrow> (phys_frame option \<times> 'm) option) \<Rightarrow> u64 \<Rightarrow> u64 \<Rightarrow> bytes \<Rightarrow> 'm tmpfs \<Rightarrow> (nat, 'm) fs_result" where
  "tmpfs_write alloc ino offset buf s =
    (case bt_get (nodes s) ino of
      None \<Rightarrow> (Err NotFound, s)
    | Some node \<Rightarrow>
       (case node_kind node of
         File ps sz \<Rightarrow>
          (let off = unat offset; end_off = off + length buf in
           if 2 ^ 64 \<le> end_off then (Err FileTooLarge, s)
           else case grow_pages alloc (hhdm s) (pages_for end_off) ps (ram s) (pool s) of
             (Ok _, ps', rm, m) \<Rightarrow>
               (case write_loop (hhdm s) ps' off buf 0 rm of
                 (Ok _, rm') \<Rightarrow>
                   (Ok (length buf), set_file ino ps' (if sz < end_off then end_off else sz) s\<lparr>ram := rm', pool := m\<rparr>)
               | (Err e, rm') \<Rightarrow> (Err e, set_file ino ps' sz s\<lparr>ram := rm', pool := m\<rparr>)
               | (Panic, rm') \<Rightarrow> (Panic, set_file ino ps' sz s\<lparr>ram := rm', pool := m\<rparr>))
           | (Err e, ps', rm, m) \<Rightarrow> (Err e, set_file ino ps' sz s\<lparr>ram := rm, pool := m\<rparr>)
           | (Panic, ps', rm, m) \<Rightarrow> (Panic, set_file ino ps' sz s\<lparr>ram := rm, pool := m\<rparr>))
       | _ \<Rightarrow> (Err IsDirectory, s)))"

definition tmpfs_truncate ::
  "(phys_frame \<Rightarrow> 'm \<Rightarrow> (bool \<times> 'm) option) \<Rightarrow> u64 \<Rightarrow> u64 \<Rightarrow> 'm tmpfs \<Rightarrow> (unit, 'm) fs_result" where
  "tmpfs_truncate release ino new_size s =
    (case bt_get (nodes s) ino of
      None \<Rightarrow> (Err NotFound, s)
    | Some node \<Rightarrow>
       (case node_kind node of
         File ps sz \<Rightarrow>
          (let needed_pages = pages_for (unat new_size);
               s' = set_file ino (take needed_pages ps) (unat new_size) s in
           if needed_pages < length ps then
             (case release_all release (drop needed_pages ps) (pool s) of
               None \<Rightarrow> (Panic, s')
             | Some m \<Rightarrow> (Ok (), s'\<lparr>pool := m\<rparr>))
           else (Ok (), s'))
       | _ \<Rightarrow> (Err IsDirectory, s)))"

declare read_loop.simps [simp del] write_loop.simps [simp del] grow_pages.simps [simp del]

section \<open>Memory\<close>

lemma length_load [simp]: "length (load rm a n) = n"
  by (simp add: load_def)

lemma load_part:
  assumes "k + n \<le> m"
  shows "load rm (a + of_nat k) n = take n (drop k (load rm a m))"
  using assms by (intro nth_equalityI) (simp_all add: load_def add.assoc)

lemma load_store_inside:
  assumes "k + length bs \<le> n" "n < 2 ^ 64"
  shows "load (store rm (a + of_nat k) bs) a n = splice (load rm a n) k bs"
proof (rule nth_equalityI)
  show "length (load (store rm (a + of_nat k) bs) a n) = length (splice (load rm a n) k bs)"
    using assms by simp
next
  fix i assume "i < length (load (store rm (a + of_nat k) bs) a n)"
  then have i: "i < n" by simp
  have "unat (a + of_nat i - (a + of_nat k)) = (if k \<le> i then i - k else i + 2 ^ 64 - k)"
  proof -
    have eq: "a + of_nat i - (a + of_nat k) = (of_nat i - of_nat k :: u64)" by simp
    have u: "unat (of_nat i :: u64) = i" "unat (of_nat k :: u64) = k"
      using i assms by (simp_all add: unat_of_nat)
    show ?thesis unfolding eq using u i assms by (simp add: unat_sub_if_size word_size)
  qed
  then show "load (store rm (a + of_nat k) bs) a n ! i = splice (load rm a n) k bs ! i"
    using i assms by (auto simp: load_def store_def nth_splice)
qed

definition apart :: "u64 \<Rightarrow> u64 \<Rightarrow> bool" where
  "apart a b \<longleftrightarrow> (\<forall>i<4096. \<forall>j<4096. a + of_nat i \<noteq> b + of_nat j)"

lemma load_store_apart:
  assumes "apart a b" "k + length bs \<le> 4096"
  shows "load (store rm (b + of_nat k) bs) a 4096 = load rm a 4096"
proof -
  have "\<not> unat (a + of_nat i - (b + of_nat k)) < length bs" if i: "i < 4096" for i
  proof
    let ?d = "unat (a + of_nat i - (b + of_nat k))"
    assume d: "?d < length bs"
    then have "b + of_nat (k + ?d) = a + of_nat i" by simp
    moreover have "k + ?d < 4096" using d assms(2) by simp
    ultimately show False using assms(1) i unfolding apart_def by metis
  qed
  then show ?thesis by (simp add: load_def store_def)
qed

lemma apart_frames:
  assumes f: "page_aligned f" "page_aligned g" "f \<noteq> g"
  shows "apart (h + f) (h + g)"
  unfolding apart_def
proof (intro allI impI notI)
  fix i j :: nat
  assume i: "i < 4096" and j: "j < 4096" and "h + f + of_nat i = h + g + of_nat j"
  then have eq: "f + of_nat i = g + of_nat j" by (simp add: add.assoc)
  have split: "unat (a + of_nat n) = unat a + n" if a: "page_aligned a" and n: "n < 4096" for a :: u64 and n
  proof -
    obtain q where q: "unat a = 4096 * q" using a by (metis page_aligned_iff mod_eq_0_iff_dvd dvdE)
    have "unat a < 2 ^ 64" using unsigned_less [of a] by simp
    then have "unat a + n < 2 ^ 64" using q n by simp
    then show ?thesis using n by (subst unat_add_no_overflow) (simp_all add: unat_of_nat)
  qed
  have "unat f + i = unat g + j" using eq split [OF f(1) i] split [OF f(2) j] by simp
  moreover obtain c d where "unat f = 4096 * c" "unat g = 4096 * d"
    using f(1,2) by (metis page_aligned_iff mod_eq_0_iff_dvd dvdE)
  moreover have "(4096 * c + i) div 4096 = c" "(4096 * d + j) div 4096 = d" for c d
    using i j by simp_all
  ultimately have "unat f = unat g" by metis
  then show False using f(3) by (simp add: word_unat_eq_iff)
qed

section \<open>File contents in frames\<close>

definition frame_ok :: "u64 \<Rightarrow> phys_frame \<Rightarrow> bool" where
  "frame_ok h f \<longleftrightarrow> page_aligned (start_address f) \<and> unat h + unat (start_address f) < 2 ^ 64"

definition page :: "u64 \<Rightarrow> (u64 \<Rightarrow> u8) \<Rightarrow> phys_frame \<Rightarrow> bytes" where
  "page h rm f = load rm (h + start_address f) 4096"

definition flat :: "u64 \<Rightarrow> (u64 \<Rightarrow> u8) \<Rightarrow> phys_frame list \<Rightarrow> bytes" where
  "flat h rm ps = concat (map (page h rm) ps)"

lemma length_page [simp]: "length (page h rm f) = 4096"
  by (simp add: page_def)

lemma length_flat [simp]: "length (flat h rm ps) = 4096 * length ps"
  by (induction ps) (simp_all add: flat_def)

lemma flat_append [simp]: "flat h rm (ps @ qs) = flat h rm ps @ flat h rm qs"
  by (simp add: flat_def)

lemma phys_to_virt_ok [simp]:
  "frame_ok h f \<Longrightarrow> phys_to_virt (Some h) (start_address f) = Some (h + start_address f)"
  by (simp add: phys_to_virt_def frame_ok_def checked_add_def)

text \<open>Pages of equal size, one after the other.\<close>

lemma concat_slice:
  assumes "\<forall>xs\<in>set xss. length xs = n" "i < length xss" "k + m \<le> n"
  shows "take m (drop (i * n + k) (concat xss)) = take m (drop k (xss ! i))"
  using assms
proof (induction xss arbitrary: i)
  case (Cons xs xss)
  then show ?case
    by (cases i) (auto simp: add.assoc)
qed simp

lemma concat_splice:
  assumes "\<forall>xs\<in>set xss. length xs = n" "i < length xss" "k + length ys \<le> n"
  shows "concat (xss[i := splice (xss ! i) k ys]) = splice (concat xss) (i * n + k) ys"
  using assms
proof (induction xss arbitrary: i)
  case (Cons xs xss)
  show ?case
  proof (cases i)
    case 0
    then show ?thesis using Cons.prems by (simp add: splice_def)
  next
    case (Suc j)
    then have "concat ((xs # xss)[i := splice ((xs # xss) ! i) k ys]) = xs @ splice (concat xss) (j * n + k) ys"
      using Cons by simp
    then show ?thesis using Cons.prems Suc by (simp add: splice_def add.assoc)
  qed
qed simp

lemma flat_slice:
  assumes "i < length ps" "k + m \<le> 4096"
  shows "take m (drop (i * 4096 + k) (flat h rm ps)) = load rm (h + start_address (ps ! i) + of_nat k) m"
proof -
  have "take m (drop (i * 4096 + k) (flat h rm ps)) = take m (drop k (page h rm (ps ! i)))"
    unfolding flat_def using assms by (subst concat_slice [where n = 4096]) auto
  also have "\<dots> = load rm (h + start_address (ps ! i) + of_nat k) m"
    using assms by (simp add: page_def load_part)
  finally show ?thesis .
qed

lemma page_store_other:
  assumes "page_aligned (start_address f)" "page_aligned (start_address g)" "f \<noteq> g" "k + length bs \<le> 4096"
  shows "page h (store rm (h + start_address g + of_nat k) bs) f = page h rm f"
proof -
  have "start_address f \<noteq> start_address g" using assms(3) by (cases f; cases g) simp
  then have "apart (h + start_address f) (h + start_address g)" using assms by (intro apart_frames)
  then show ?thesis using assms(4) by (simp add: page_def load_store_apart)
qed

lemma flat_store:
  assumes "distinct ps" "\<forall>f\<in>set ps. frame_ok h f" "i < length ps" "k + length bs \<le> 4096"
  shows "flat h (store rm (h + start_address (ps ! i) + of_nat k) bs) ps = splice (flat h rm ps) (i * 4096 + k) bs"
proof -
  let ?rm = "store rm (h + start_address (ps ! i) + of_nat k) bs"
  have "map (page h ?rm) ps = (map (page h rm) ps)[i := splice (page h rm (ps ! i)) k bs]"
  proof (rule nth_equalityI)
    fix j assume "j < length (map (page h ?rm) ps)"
    then have j: "j < length ps" by simp
    show "map (page h ?rm) ps ! j = (map (page h rm) ps)[i := splice (page h rm (ps ! i)) k bs] ! j"
    proof (cases "j = i")
      case True
      then show ?thesis using j assms(4) by (simp add: page_def load_store_inside)
    next
      case False
      then have "ps ! j \<noteq> ps ! i" using assms(1,3) j by (simp add: nth_eq_iff_index_eq)
      then have "page h ?rm (ps ! j) = page h rm (ps ! j)"
        using assms(2-4) j by (intro page_store_other) (auto simp: frame_ok_def)
      then show ?thesis using j False by simp
    qed
  qed simp
  then show ?thesis
    unfolding flat_def using assms(3,4) concat_splice [of "map (page h rm) ps" 4096 i k bs] by simp
qed

section \<open>The copy loops\<close>

lemma read_loop_ok:
  assumes "\<forall>f\<in>set ps. frame_ok h f" "off + n \<le> 4096 * length ps" "d \<le> n" "n \<le> length buf"
  shows "read_loop (Some h) rm ps off n d buf =
    (Ok n, splice buf d (take (n - d) (drop (off + d) (flat h rm ps))))"
  using assms(3,4)
proof (induction "n - d" arbitrary: d buf rule: less_induct)
  case less
  show ?case
  proof (cases "d < n")
    case False
    then show ?thesis using less.prems by (subst read_loop.simps) simp
  next
    case True
    define i where "i = (off + d) div 4096"
    define k where "k = (off + d) mod 4096"
    define c where "c = min (n - d) (4096 - k)"
    have ik: "off + d = i * 4096 + k" "k < 4096" by (simp_all add: i_def k_def)
    have i: "i < length ps" using ik assms(2) True by linarith
    have c: "0 < c" "k + c \<le> 4096" "d + c \<le> n" using ik True by (auto simp: c_def)
    have fr: "frame_ok h (ps ! i)" using assms(1) i by simp
    let ?piece = "load rm (h + start_address (ps ! i) + of_nat k) c"
    have step: "read_loop (Some h) rm ps off n d buf = read_loop (Some h) rm ps off n (d + c) (splice buf d ?piece)"
      using True i fr by (subst read_loop.simps) (simp add: Let_def flip: i_def k_def c_def)
    define X where "X = take c (drop (off + d) (flat h rm ps))"
    define Y where "Y = take (n - (d + c)) (drop (off + (d + c)) (flat h rm ps))"
    have piece: "?piece = X" using flat_slice [OF i c(2)] ik(1) by (simp add: X_def)
    have XY: "X @ Y = take (n - d) (drop (off + d) (flat h rm ps))"
      unfolding X_def Y_def using c(3)
      by (simp add: take_add [symmetric] add.commute add.left_commute flip: drop_drop)
    have lX: "length X = c" using c assms(2) by (simp add: X_def)
    have "length Y \<le> n - (d + c)" by (simp add: Y_def)
    then have "splice (splice buf d X) (d + c) Y = splice buf d (X @ Y)"
      using splice_splice_append [of d X Y buf] lX less.prems c by simp
    moreover have "read_loop (Some h) rm ps off n (d + c) (splice buf d X) = (Ok n, splice (splice buf d X) (d + c) Y)"
      unfolding Y_def using c True less.prems lX by (intro less.hyps) simp_all
    ultimately show ?thesis unfolding step piece XY by simp
  qed
qed

lemma write_loop_ok:
  assumes "\<forall>f\<in>set ps. frame_ok h f" "distinct ps" "off + length buf \<le> 4096 * length ps" "d \<le> length buf"
  shows "\<exists>rm'. write_loop (Some h) ps off buf d rm = (Ok (), rm') \<and>
    flat h rm' ps = splice (flat h rm ps) (off + d) (drop d buf) \<and>
    (\<forall>f. page_aligned (start_address f) \<longrightarrow> f \<notin> set ps \<longrightarrow> page h rm' f = page h rm f)"
  using assms(4)
proof (induction "length buf - d" arbitrary: d rm rule: less_induct)
  case less
  show ?case
  proof (cases "d < length buf")
    case False
    then show ?thesis using less.prems assms(3) by (subst write_loop.simps) auto
  next
    case True
    define i where "i = (off + d) div 4096"
    define k where "k = (off + d) mod 4096"
    define c where "c = min (length buf - d) (4096 - k)"
    have ik: "off + d = i * 4096 + k" "k < 4096" by (simp_all add: i_def k_def)
    have i: "i < length ps" using ik assms(3) True by linarith
    have c: "0 < c" "k + c \<le> 4096" "d + c \<le> length buf" using ik True by (auto simp: c_def)
    have fr: "frame_ok h (ps ! i)" using assms(1) i by simp
    define X where "X = take c (drop d buf)"
    define rm1 where "rm1 = store rm (h + start_address (ps ! i) + of_nat k) X"
    have lX: "length X = c" using c by (simp add: X_def)
    have step: "write_loop (Some h) ps off buf d rm = write_loop (Some h) ps off buf (d + c) rm1"
      using True i fr by (subst write_loop.simps) (simp add: Let_def rm1_def X_def flip: i_def k_def c_def)
    have fl: "flat h rm1 ps = splice (flat h rm ps) (off + d) X"
      unfolding rm1_def using flat_store [OF assms(2,1) i, of k X] c lX ik(1) by simp
    have other: "page h rm1 f = page h rm f" if "page_aligned (start_address f)" "f \<notin> set ps" for f
      unfolding rm1_def using that fr i c lX by (intro page_store_other) (auto simp: frame_ok_def)
    have lt: "length buf - (d + c) < length buf - d" using c True by linarith
    obtain rm2 where rm2: "write_loop (Some h) ps off buf (d + c) rm1 = (Ok (), rm2)"
      "flat h rm2 ps = splice (flat h rm1 ps) (off + (d + c)) (drop (d + c) buf)"
      "\<forall>f. page_aligned (start_address f) \<longrightarrow> f \<notin> set ps \<longrightarrow> page h rm2 f = page h rm1 f"
      using less.hyps [OF lt c(3), of rm1] by auto
    have "X @ drop (d + c) buf = drop d buf" by (simp add: X_def add.commute [of d] flip: drop_drop)
    then have "flat h rm2 ps = splice (flat h rm ps) (off + d) (drop d buf)"
      using rm2(2) fl splice_splice_append [of "off + d" X "drop (d + c) buf" "flat h rm ps"] lX c assms(3)
      by (simp add: add.assoc)
    then show ?thesis using step rm2 other by auto
  qed
qed

section \<open>The frame allocator as its clients see it\<close>

definition phys_limit :: nat where
  "phys_limit = 2 ^ 36"

locale frame_source =
  fixes inv :: "'m \<Rightarrow> bool"
    and held :: "'m \<Rightarrow> phys_frame set"
    and alloc :: "'m \<Rightarrow> (phys_frame option \<times> 'm) option"
    and release :: "phys_frame \<Rightarrow> 'm \<Rightarrow> (bool \<times> 'm) option"
  assumes alloc_ok: "inv m \<Longrightarrow> \<exists>r m'. alloc m = Some (r, m') \<and> inv m' \<and>
      (case r of None \<Rightarrow> held m' = held m
       | Some f \<Rightarrow> f \<notin> held m \<and> held m' = insert f (held m) \<and> page_aligned (start_address f) \<and>
           unat (start_address f) < phys_limit)"
    and release_ok: "inv m \<Longrightarrow> f \<in> held m \<Longrightarrow>
      \<exists>m'. release f m = Some (True, m') \<and> inv m' \<and> held m' = held m - {f}"
begin

lemma release_all_ok:
  "inv m \<Longrightarrow> distinct fs \<Longrightarrow> set fs \<subseteq> held m \<Longrightarrow>
    \<exists>m'. release_all release fs m = Some m' \<and> inv m' \<and> held m' = held m - set fs"
proof (induction fs arbitrary: m)
  case (Cons f fs)
  obtain m1 where m1: "release f m = Some (True, m1)" "inv m1" "held m1 = held m - {f}"
    using release_ok [OF Cons.prems(1), of f] Cons.prems(3) by auto
  have "set fs \<subseteq> held m1" using Cons.prems m1(3) by auto
  with Cons.IH [OF m1(2)] Cons.prems m1 show ?case by auto
qed simp

text \<open>Growing a file appends fresh zeroed frames and leaves all others alone.\<close>

lemma grow_pages_ok:
  assumes h: "unat h + phys_limit \<le> 2 ^ 64"
  shows "inv m \<Longrightarrow> \<exists>r qs rm' m'. grow_pages alloc (Some h) needed ps rm m = (r, ps @ qs, rm', m') \<and> inv m' \<and>
    held m' = held m \<union> set qs \<and> distinct qs \<and> set qs \<inter> held m = {} \<and> (\<forall>f\<in>set qs. frame_ok h f) \<and>
    flat h rm' qs = replicate (4096 * length qs) 0 \<and>
    (\<forall>f. page_aligned (start_address f) \<longrightarrow> f \<notin> set qs \<longrightarrow> page h rm' f = page h rm f) \<and>
    (r = Ok () \<and> needed \<le> length (ps @ qs) \<or> r = Err NoSpace)"
proof (induction "needed - length ps" arbitrary: ps rm m)
  case 0
  then show ?case by (subst grow_pages.simps) (auto simp: flat_def intro!: exI [of _ "[]"])
next
  case (Suc n)
  then have lt: "length ps < needed" by simp
  obtain r m1 where al: "alloc m = Some (r, m1)" "inv m1"
    "case r of None \<Rightarrow> held m1 = held m
       | Some f \<Rightarrow> f \<notin> held m \<and> held m1 = insert f (held m) \<and> page_aligned (start_address f) \<and>
           unat (start_address f) < phys_limit"
    using alloc_ok [OF Suc.prems] by blast
  show ?case
  proof (cases r)
    case None
    then have "grow_pages alloc (Some h) needed ps rm m = (Err NoSpace, ps @ [], rm, m1)"
      using lt al(1) by (subst grow_pages.simps) simp
    then show ?thesis using al None by (auto simp: flat_def)
  next
    case (Some f)
    have f: "f \<notin> held m" "held m1 = insert f (held m)" "page_aligned (start_address f)" "frame_ok h f"
      using al(3) h Some by (auto simp: frame_ok_def)
    let ?rm = "store rm (h + start_address f) (replicate 4096 0)"
    have step: "grow_pages alloc (Some h) needed ps rm m = grow_pages alloc (Some h) needed (ps @ [f]) ?rm m1"
      using lt al(1) Some f(4) by (subst grow_pages.simps) simp
    have zero: "page h ?rm f = replicate 4096 0"
      using load_store_inside [of 0 "replicate 4096 0" 4096 rm "h + start_address f"] by (simp add: page_def splice_def)
    have other: "page h ?rm g = page h rm g" if "page_aligned (start_address g)" "g \<noteq> f" for g
      using page_store_other [OF that(1) f(3) that(2), of 0] by simp
    have n: "n = needed - length (ps @ [f])" using Suc.hyps(2) by simp
    obtain r' qs rm' m' where ih: "grow_pages alloc (Some h) needed (ps @ [f]) ?rm m1 = (r', (ps @ [f]) @ qs, rm', m')"
      "inv m'" "held m' = held m1 \<union> set qs" "distinct qs" "set qs \<inter> held m1 = {}" "\<forall>f\<in>set qs. frame_ok h f"
      "flat h rm' qs = replicate (4096 * length qs) 0"
      "\<forall>g. page_aligned (start_address g) \<longrightarrow> g \<notin> set qs \<longrightarrow> page h rm' g = page h ?rm g"
      "r' = Ok () \<and> needed \<le> length ((ps @ [f]) @ qs) \<or> r' = Err NoSpace"
      using Suc.hyps(1) [OF n al(2), of ?rm] by blast
    have fq: "f \<notin> set qs" using ih(5) f(2) by auto
    have "flat h rm' (f # qs) = replicate (4096 * length (f # qs)) 0"
      using ih(7,8) fq f(3) zero by (simp add: flat_def replicate_add)
    moreover have "\<forall>g. page_aligned (start_address g) \<longrightarrow> g \<notin> set (f # qs) \<longrightarrow> page h rm' g = page h rm g"
      using ih(8) other by auto
    ultimately show ?thesis
      using step ih f fq by (intro exI [of _ r'] exI [of _ "f # qs"] exI [of _ rm'] exI [of _ m']) auto
  qed
qed

end

text \<open>The buddy allocator keeps the contract: a frame is held while it is an allocated block of order
  zero with one reference.\<close>

definition held_pfns :: "buddy_allocator \<Rightarrow> nat set" where
  "held_pfns s = {p. 0 < p \<and> (p, 0) \<in> alloc_blocks s \<and> refcounts s ! p = 1}"

definition buddy_held :: "buddy_allocator \<Rightarrow> phys_frame set" where
  "buddy_held s = frame_of ` held_pfns s"

lemma frame_of_inj:
  "p < MAX_SUPPORTED_FRAMES \<Longrightarrow> q < MAX_SUPPORTED_FRAMES \<Longrightarrow> frame_of p = frame_of q \<Longrightarrow> p = q"
  by (metis pfn_of_frame_of)

lemma alloc_block_tracked:
  assumes "buddy_inv s" "(p, k) \<in> alloc_blocks s"
  shows "p < max_pfn s" "p < MAX_SUPPORTED_FRAMES" "p \<in> alloc_set s"
proof -
  show "p < max_pfn s" using assms by (simp add: alloc_blocks_def buddy_inv_lengths)
  then show "p < MAX_SUPPORTED_FRAMES" using buddy_inv_lengths(4) [OF assms(1)] by simp
  show "p \<in> alloc_set s" using alloc_block_subset [OF assms(2)] fst_in_frames [of "(p, k)"] by auto
qed

lemma buddy_alloc_held:
  assumes ok: "buddy_ok s"
  shows "\<exists>r s'. buddy_alloc s = Some (r, s') \<and> buddy_ok s' \<and>
    (case r of None \<Rightarrow> buddy_held s' = buddy_held s
     | Some f \<Rightarrow> f \<notin> buddy_held s \<and> buddy_held s' = insert f (buddy_held s) \<and>
         page_aligned (start_address f) \<and> unat (start_address f) < phys_limit)"
proof -
  have inv: "buddy_inv s" using ok by (simp add: buddy_ok_def)
  note len = buddy_inv_lengths [OF inv]
  consider "alloc_order 0 s = Some (None, s)"
    | p s' where "alloc_order 0 s = Some (Some p, s')" "buddy_ok s'" "0 < p" "block_ok (max_pfn s) (p, 0)"
      "frames (p, 0) \<subseteq> free_set s" "alloc_blocks s' = insert (p, 0) (alloc_blocks s)" "refcounts s' = (refcounts s)[p := 1]"
    using alloc_order_inv [OF ok, of 0] by (auto simp: MAX_ORDER_def)
  then show ?thesis
  proof cases
    case 1
    then show ?thesis using ok by (simp add: buddy_alloc_def)
  next
    case 2
    have p: "p < max_pfn s" "p < MAX_SUPPORTED_FRAMES" using block_ok_less [OF 2(4)] len(4) by simp_all
    have "p \<notin> alloc_set s" using 2(5) free_alloc_disjoint [OF inv] fst_in_frames [of "(p, 0)"] by auto
    then have q: "q \<noteq> p" "q < MAX_SUPPORTED_FRAMES" if "(q, 0) \<in> alloc_blocks s" for q
      using alloc_block_tracked [OF inv that] by auto
    then have "frame_of p \<notin> buddy_held s"
      using p frame_of_inj by (auto simp: buddy_held_def held_pfns_def)
    moreover have "held_pfns s' = insert p (held_pfns s)"
    proof (rule set_eqI)
      fix x
      show "x \<in> held_pfns s' \<longleftrightarrow> x \<in> insert p (held_pfns s)"
        using 2(3,6,7) p(1) len(3) by (cases "x = p") (simp_all add: held_pfns_def)
    qed
    then have "buddy_held s' = insert (frame_of p) (buddy_held s)" by (simp add: buddy_held_def)
    moreover have "page_aligned (start_address (frame_of p))" "unat (start_address (frame_of p)) < phys_limit"
      using p unat_frame_of [of p] by (simp_all add: page_simps phys_limit_def MAX_SUPPORTED_FRAMES_def)
    ultimately show ?thesis using 2(1,2) by (simp add: buddy_alloc_def)
  qed
qed

lemma buddy_free_held:
  assumes ok: "buddy_ok s" and f: "f \<in> buddy_held s"
  shows "\<exists>s'. buddy_free f s = Some (True, s') \<and> buddy_ok s' \<and> buddy_held s' = buddy_held s - {f}"
proof -
  have inv: "buddy_inv s" using ok by (simp add: buddy_ok_def)
  note len = buddy_inv_lengths [OF inv]
  obtain p where p: "f = frame_of p" "0 < p" "(p, 0) \<in> alloc_blocks s" "refcounts s ! p = 1"
    using f by (auto simp: buddy_held_def held_pfns_def)
  note t = alloc_block_tracked [OF inv p(3)]
  have pf: "pfn_of f = p" using t(2) p(1) by simp
  have v: "valid_frame s f" unfolding p(1) using t(1) p(2) by (rule valid_frame_of [OF inv])
  obtain r s' where s': "buddy_free f s = Some (r, s')" "buddy_ok s'" "r \<longleftrightarrow> valid_frame s f \<and> refcounts s ! p \<noteq> 0"
    "r \<and> refcounts s ! p = 1 \<longrightarrow> (\<exists>k. (p, k) \<in> alloc_blocks s \<and> free_set s' = free_set s \<union> frames (p, k) \<and>
      alloc_blocks s' = alloc_blocks s - {(p, k)} \<and> refcounts s' = (refcounts s)[p := 0])"
    using buddy_free_inv [OF ok, of f] unfolding pf by blast
  have r: r using s'(3) v p(4) by simp
  obtain k where k: "(p, k) \<in> alloc_blocks s" "alloc_blocks s' = alloc_blocks s - {(p, k)}"
    "refcounts s' = (refcounts s)[p := 0]" using s'(4) r p(4) by blast
  have "k = 0" using k(1) p(3) flagged_functional unfolding alloc_blocks_def by blast
  have hp: "held_pfns s' = held_pfns s - {p}"
  proof (rule set_eqI)
    fix x
    show "x \<in> held_pfns s' \<longleftrightarrow> x \<in> held_pfns s - {p}"
      using k(2,3) \<open>k = 0\<close> t(1) len(3) by (cases "x = p") (simp_all add: held_pfns_def)
  qed
  have "inj_on frame_of (held_pfns s)"
    using alloc_block_tracked(2) [OF inv] by (intro inj_onI frame_of_inj) (auto simp: held_pfns_def)
  moreover have "{p} \<subseteq> held_pfns s" using p by (simp add: held_pfns_def)
  ultimately have "buddy_held s' = buddy_held s - {f}"
    unfolding buddy_held_def hp p(1) by (subst inj_on_image_set_diff) auto
  then show ?thesis using s'(1,2) r by simp
qed

interpretation frames: frame_source buddy_ok buddy_held buddy_alloc buddy_free
  by unfold_locales (rule buddy_alloc_held, assumption, rule buddy_free_held)

section \<open>The invariant and the abstract files\<close>

definition all_frames :: "'m tmpfs \<Rightarrow> phys_frame list" where
  "all_frames s = concat (map (\<lambda>e. node_frames (snd e)) (nodes s))"

text \<open>A file fits its pages, and the rest of its last page is zero.\<close>

definition file_ok :: "u64 \<Rightarrow> (u64 \<Rightarrow> u8) \<Rightarrow> tmp_node \<Rightarrow> bool" where
  "file_ok h rm n \<longleftrightarrow> (case node_kind n of
      File ps sz \<Rightarrow> sz \<le> 4096 * length ps \<and> (\<forall>x\<in>set (drop sz (flat h rm ps)). x = 0)
    | _ \<Rightarrow> True)"

definition tmpfs_ok :: "('m \<Rightarrow> bool) \<Rightarrow> ('m \<Rightarrow> phys_frame set) \<Rightarrow> 'm tmpfs \<Rightarrow> bool" where
  "tmpfs_ok minv held s \<longleftrightarrow> bt_inv (nodes s) \<and> minv (pool s) \<and> distinct (all_frames s) \<and>
    set (all_frames s) \<subseteq> held (pool s) \<and>
    (\<exists>h. hhdm s = Some h \<and> unat h + phys_limit \<le> 2 ^ 64 \<and> (\<forall>f\<in>set (all_frames s). frame_ok h f) \<and>
      (\<forall>e\<in>set (nodes s). file_ok h (ram s) (snd e)))"

text \<open>What a file holds, as a flat byte sequence.\<close>

definition fdata :: "'m tmpfs \<Rightarrow> u64 \<Rightarrow> bytes option" where
  "fdata s ino = (case bt_get (nodes s) ino of
      Some n \<Rightarrow> (case node_kind n of File ps sz \<Rightarrow> Some (take sz (flat (the (hhdm s)) (ram s) ps)) | _ \<Rightarrow> None)
    | None \<Rightarrow> None)"

definition write_at :: "bytes \<Rightarrow> nat \<Rightarrow> bytes \<Rightarrow> bytes" where
  "write_at d off buf =
    splice (d @ replicate (max (length d) (off + length buf) - length d) 0) off buf"

lemma fdata_Some:
  "fdata s ino = Some d \<longleftrightarrow> (\<exists>n ps sz. bt_get (nodes s) ino = Some n \<and> node_kind n = File ps sz \<and>
    d = take sz (flat (the (hhdm s)) (ram s) ps))"
  by (auto simp: fdata_def split: option.splits tmp_node_kind.splits)

lemma nodes_split:
  assumes "bt_inv m" "bt_get m k = Some v"
  obtains xs ys where "m = xs @ (k, v) # ys" "k \<notin> fst ` set xs" "k \<notin> fst ` set ys"
proof -
  obtain xs ys where m: "m = xs @ (k, v) # ys"
    using bt_get_in [OF assms(2)] by (auto simp: in_set_conv_decomp)
  have "distinct (map fst m)" by (rule bt_inv_distinct [OF assms(1)])
  then show ?thesis using that m by auto
qed

lemma bt_modify_other [simp]: "k \<notin> fst ` set m \<Longrightarrow> bt_modify k f m = m"
  by (induction m) (auto simp: bt_modify_def)

lemma bt_modify_append [simp]: "bt_modify k f (xs @ ys) = bt_modify k f xs @ bt_modify k f ys"
  by (simp add: bt_modify_def)

lemma bt_modify_here [simp]: "bt_modify k f ((k, v) # ys) = (k, f v) # bt_modify k f ys"
  by (simp add: bt_modify_def)

lemma flat_cong: "\<forall>f\<in>set ps. page h rm f = page h rm' f \<Longrightarrow> flat h rm ps = flat h rm' ps"
  by (auto simp: flat_def intro!: arg_cong [where f = concat])

text \<open>Replacing one file's pages: the other files do not change.\<close>

lemma set_file_ok:
  assumes ok: "tmpfs_ok minv held s" and get: "bt_get (nodes s) ino = Some n" and k: "node_kind n = File ps sz"
    and h: "hhdm s = Some h" and m: "minv m" and ps': "distinct ps'" "\<forall>f\<in>set ps'. frame_ok h f"
    and fresh: "set ps' \<inter> (set (all_frames s) - set ps) = {}"
    and hld: "set ps' \<union> (set (all_frames s) - set ps) \<subseteq> held m"
    and same: "\<forall>f\<in>set (all_frames s) - set ps. page h rm f = page h (ram s) f"
    and new: "sz' \<le> 4096 * length ps'" "\<forall>x\<in>set (drop sz' (flat h rm ps')). x = 0"
  defines "s' \<equiv> set_file ino ps' sz' (s\<lparr>ram := rm, pool := m\<rparr>)"
  shows "tmpfs_ok minv held s'" "fdata s' = (fdata s)(ino \<mapsto> take sz' (flat h rm ps'))"
proof -
  have inv: "bt_inv (nodes s)" and dis: "distinct (all_frames s)" and hh: "unat h + phys_limit \<le> 2 ^ 64"
    and fo: "\<forall>f\<in>set (all_frames s). frame_ok h f" and fk: "\<forall>e\<in>set (nodes s). file_ok h (ram s) (snd e)"
    using ok h by (auto simp: tmpfs_ok_def)
  obtain xs ys where nd: "nodes s = xs @ (ino, n) # ys" "ino \<notin> fst ` set xs" "ino \<notin> fst ` set ys"
    using nodes_split [OF inv get] by blast
  let ?fr = "\<lambda>es. concat (map (\<lambda>e. node_frames (snd e)) es)"
  have af: "all_frames s = ?fr xs @ ps @ ?fr ys" by (simp add: all_frames_def nd(1) node_frames_def k)
  have nd': "nodes s' = xs @ (ino, n\<lparr>node_kind := File ps' sz'\<rparr>) # ys"
    using nd by (simp add: s'_def set_file_def)
  have fd': "all_frames s' = ?fr xs @ ps' @ ?fr ys" by (simp add: all_frames_def nd' node_frames_def)
  have oth: "set (all_frames s) - set ps = set (?fr xs) \<union> set (?fr ys)" using dis unfolding af by auto
  have rest: "set (?fr xs) \<subseteq> set (all_frames s) - set ps" "set (?fr ys) \<subseteq> set (all_frames s) - set ps"
    unfolding oth by blast+
  have keep: "flat h rm (node_frames (snd e)) = flat h (ram s) (node_frames (snd e))" if "e \<in> set xs \<union> set ys" for e
    using that same unfolding oth by (intro flat_cong) auto
  have sel: "hhdm s' = Some h" "ram s' = rm" "pool s' = m" by (simp_all add: s'_def set_file_def h)
  have "bt_inv (nodes s')" using inv by (simp add: s'_def set_file_def)
  moreover have "distinct (all_frames s')"
    using dis ps'(1) fresh unfolding fd' oth unfolding af by auto
  moreover have "set (all_frames s') \<subseteq> held m" using hld unfolding fd' oth by auto
  moreover have "\<forall>f\<in>set (all_frames s'). frame_ok h f" using ps'(2) fo unfolding fd' af by auto
  moreover have "file_ok h rm (snd e)" if e: "e \<in> set (nodes s')" for e
  proof (cases "e \<in> set xs \<union> set ys")
    case True
    then show ?thesis using fk keep [OF True] nd(1)
      by (auto simp: file_ok_def node_frames_def split: tmp_node_kind.splits)
  next
    case False
    then show ?thesis using e new by (auto simp: nd' file_ok_def)
  qed
  ultimately show "tmpfs_ok minv held s'" using m hh by (auto simp: tmpfs_ok_def sel)
  show "fdata s' = (fdata s)(ino \<mapsto> take sz' (flat h rm ps'))"
  proof (rule ext)
    fix i
    show "fdata s' i = ((fdata s)(ino \<mapsto> take sz' (flat h rm ps'))) i"
    proof (cases "i = ino")
      case True
      have "bt_get (nodes s') ino = Some (n\<lparr>node_kind := File ps' sz'\<rparr>)"
        using get by (simp add: s'_def set_file_def bt_get_modify)
      then show ?thesis using True by (simp add: fdata_def sel)
    next
      case False
      have eq: "bt_get (nodes s') i = bt_get (nodes s) i" using False by (simp add: s'_def set_file_def bt_get_modify)
      have "flat h rm (node_frames v) = flat h (ram s) (node_frames v)" if "bt_get (nodes s) i = Some v" for v
        using keep [of "(i, v)"] bt_get_in [OF that] False unfolding nd(1) by auto
      then show ?thesis using False eq
        by (auto simp: fdata_def sel h node_frames_def split: option.splits tmp_node_kind.splits)
    qed
  qed
qed

section \<open>Reading and writing\<close>

lemma splice_append_left:
  "off + length ys \<le> length xs \<Longrightarrow> splice (xs @ zs) off ys = splice xs off ys @ zs"
  by (simp add: splice_def)

lemma length_write_at: "length (write_at d off buf) = max (length d) (off + length buf)"
  by (simp add: write_at_def)

lemma write_at_zeros:
  assumes "\<forall>x\<in>set zs. x = 0" "off + length buf \<le> length d + length zs"
  defines "n \<equiv> max (length d) (off + length buf)"
  shows "take n (splice (d @ zs) off buf) = write_at d off buf"
    "\<forall>x\<in>set (drop n (splice (d @ zs) off buf)). x = 0"
proof -
  let ?a = "take (n - length d) zs" and ?b = "drop (n - length d) zs"
  have a: "?a = replicate (n - length d) 0"
    using assms by (intro replicate_eqI) (auto dest: in_set_takeD)
  have "splice (d @ zs) off buf = splice ((d @ ?a) @ ?b) off buf" by simp
  also have "\<dots> = splice (d @ ?a) off buf @ ?b"
    using assms(2) by (intro splice_append_left) (auto simp: n_def)
  also have "splice (d @ ?a) off buf = write_at d off buf" unfolding a by (simp add: write_at_def n_def)
  finally have eq: "splice (d @ zs) off buf = write_at d off buf @ ?b" .
  then show "take n (splice (d @ zs) off buf) = write_at d off buf" by (simp add: length_write_at n_def)
  show "\<forall>x\<in>set (drop n (splice (d @ zs) off buf)). x = 0"
    unfolding eq using assms(1) by (auto simp: length_write_at n_def dest: in_set_dropD)
qed

lemma pages_for_enough:
  assumes "n + 4095 < 2 ^ 64"
  shows "pages_for n = (n + 4095) div 4096" "n \<le> 4096 * pages_for n"
proof -
  have "unat (of_nat n + 4095 :: u64) = n + 4095"
    using assms by (subst unat_add_no_overflow) (simp_all add: unat_of_nat)
  then show eq: "pages_for n = (n + 4095) div 4096" by (simp add: pages_for_def unat_div)
  show "n \<le> 4096 * pages_for n" unfolding eq by linarith
qed

lemma set_file_commute:
  "(set_file ino ps sz s)\<lparr>ram := rm, pool := m\<rparr> = set_file ino ps sz (s\<lparr>ram := rm, pool := m\<rparr>)"
  unfolding set_file_def by (cases s) simp

text \<open>A file of a consistent state, opened up.\<close>

lemma file_viewE:
  assumes ok: "tmpfs_ok minv held s" and d: "fdata s ino = Some d"
  obtains h n ps zs where "hhdm s = Some h" "unat h + phys_limit \<le> 2 ^ 64" "bt_get (nodes s) ino = Some n"
    "node_kind n = File ps (length d)" "flat h (ram s) ps = d @ zs" "\<forall>x\<in>set zs. x = 0"
    "set ps \<subseteq> set (all_frames s)" "distinct ps" "\<forall>f\<in>set (all_frames s). frame_ok h f"
proof -
  obtain h where h: "hhdm s = Some h" "unat h + phys_limit \<le> 2 ^ 64" and fo: "\<forall>f\<in>set (all_frames s). frame_ok h f"
    and fk: "\<forall>e\<in>set (nodes s). file_ok h (ram s) (snd e)" and dis: "distinct (all_frames s)"
    using ok by (auto simp: tmpfs_ok_def)
  obtain n ps sz where n: "bt_get (nodes s) ino = Some n" "node_kind n = File ps sz"
    and dd: "d = take sz (flat h (ram s) ps)" using d h by (auto simp: fdata_Some)
  have mem: "(ino, n) \<in> set (nodes s)" by (rule bt_get_in [OF n(1)])
  then have sz: "sz \<le> 4096 * length ps" "\<forall>x\<in>set (drop sz (flat h (ram s) ps)). x = 0"
    using fk n(2) by (auto simp: file_ok_def)
  moreover have "set ps \<subseteq> set (all_frames s)" "distinct ps"
    using mem n(2) dis by (force simp: all_frames_def node_frames_def distinct_concat_iff)+
  moreover have "length d = sz" using sz(1) by (simp add: dd)
  moreover have "flat h (ram s) ps = d @ drop sz (flat h (ram s) ps)" by (simp add: dd)
  ultimately show ?thesis using that [of h n ps] h n fo by auto
qed

lemma tmpfs_read_ok:
  assumes "tmpfs_ok minv held s" "fdata s ino = Some d"
  shows "tmpfs_read ino off buf s =
    (Ok (min (length buf) (length d - unat off)), splice buf 0 (take (length buf) (drop (unat off) d)))"
proof -
  obtain h n ps zs where v: "hhdm s = Some h" "bt_get (nodes s) ino = Some n" "node_kind n = File ps (length d)"
    "flat h (ram s) ps = d @ zs" "set ps \<subseteq> set (all_frames s)" "\<forall>f\<in>set (all_frames s). frame_ok h f"
    using assms by (rule file_viewE)
  have fr: "\<forall>f\<in>set ps. frame_ok h f" using v(5,6) by blast
  have le: "length d \<le> 4096 * length ps" using v(4) by (metis le_add1 length_append length_flat)
  show ?thesis
  proof (cases "length d \<le> unat off")
    case True
    then show ?thesis using v by (simp add: tmpfs_read_def)
  next
    case False
    let ?k = "min (length buf) (length d - unat off)"
    have "read_loop (Some h) (ram s) ps (unat off) ?k 0 buf = (Ok ?k, splice buf 0 (take ?k (drop (unat off) (d @ zs))))"
      using read_loop_ok [OF fr, of "unat off" ?k 0 buf "ram s"] False le v(4) by simp
    moreover have "take ?k (drop (unat off) (d @ zs)) = take (length buf) (drop (unat off) d)"
      using False by (simp add: min_def)
    ultimately show ?thesis using v False by (simp add: tmpfs_read_def Let_def)
  qed
qed

context frame_source
begin

text \<open>The pages after growing: the old data, then zeroes; nothing else moved.\<close>

lemma grow_file:
  assumes ok: "tmpfs_ok inv held s" and v: "hhdm s = Some h" "unat h + phys_limit \<le> 2 ^ 64"
    "flat h (ram s) ps = d @ zs" "\<forall>x\<in>set zs. x = 0" "set ps \<subseteq> set (all_frames s)" "distinct ps"
    "\<forall>f\<in>set (all_frames s). frame_ok h f"
  shows "\<exists>r qs rm m zs'. grow_pages alloc (Some h) needed ps (ram s) (pool s) = (r, ps @ qs, rm, m) \<and> inv m \<and>
    distinct (ps @ qs) \<and> (\<forall>f\<in>set (ps @ qs). frame_ok h f) \<and>
    set (ps @ qs) \<inter> (set (all_frames s) - set ps) = {} \<and>
    set (ps @ qs) \<union> (set (all_frames s) - set ps) \<subseteq> held m \<and>
    (\<forall>f\<in>set (all_frames s). page_aligned (start_address f) \<and> page h rm f = page h (ram s) f) \<and>
    flat h rm (ps @ qs) = d @ zs' \<and> (\<forall>x\<in>set zs'. x = 0) \<and>
    (r = Ok () \<and> needed \<le> length (ps @ qs) \<or> r = Err NoSpace)"
proof -
  have inv: "inv (pool s)" and hl: "set (all_frames s) \<subseteq> held (pool s)" using ok by (auto simp: tmpfs_ok_def)
  obtain r qs rm m where g: "grow_pages alloc (Some h) needed ps (ram s) (pool s) = (r, ps @ qs, rm, m)"
    "inv m" "held m = held (pool s) \<union> set qs" "distinct qs" "set qs \<inter> held (pool s) = {}" "\<forall>f\<in>set qs. frame_ok h f"
    "flat h rm qs = replicate (4096 * length qs) 0"
    "\<forall>f. page_aligned (start_address f) \<longrightarrow> f \<notin> set qs \<longrightarrow> page h rm f = page h (ram s) f"
    "r = Ok () \<and> needed \<le> length (ps @ qs) \<or> r = Err NoSpace"
    using grow_pages_ok [OF v(2) inv] by metis
  have al: "\<forall>f\<in>set (all_frames s). page_aligned (start_address f) \<and> f \<notin> set qs"
    using v(7) hl g(5) by (auto simp: frame_ok_def)
  then have keep: "\<forall>f\<in>set (all_frames s). page h rm f = page h (ram s) f" using g(8) by blast
  then have "flat h rm ps = flat h (ram s) ps" using v(5) by (intro flat_cong) auto
  then have "flat h rm (ps @ qs) = d @ (zs @ replicate (4096 * length qs) 0)" by (simp add: g(7) v(3))
  moreover have "\<forall>x\<in>set (zs @ replicate (4096 * length qs) 0). x = 0" using v(4) by auto
  moreover have "distinct (ps @ qs)" "\<forall>f\<in>set (ps @ qs). frame_ok h f" using v(5-7) g(4,6) al by auto
  moreover have "set (ps @ qs) \<inter> (set (all_frames s) - set ps) = {}" using al by auto
  moreover have "set (ps @ qs) \<union> (set (all_frames s) - set ps) \<subseteq> held m" using g(3) hl v(5) by auto
  ultimately show ?thesis using g(1,2,9) keep al by blast
qed

lemma write_refines:
  assumes ok: "tmpfs_ok inv held s" and d: "fdata s ino = Some d"
    and b: "unat off + length buf + 4095 < 2 ^ 64"
  shows "\<exists>r s'. tmpfs_write alloc ino off buf s = (r, s') \<and> tmpfs_ok inv held s' \<and>
    (r = Ok (length buf) \<and> fdata s' = (fdata s)(ino \<mapsto> write_at d (unat off) buf) \<or>
     r = Err NoSpace \<and> fdata s' = fdata s)"
proof -
  obtain h n ps zs0 where h: "hhdm s = Some h" "unat h + phys_limit \<le> 2 ^ 64" and n: "bt_get (nodes s) ino = Some n"
    "node_kind n = File ps (length d)" and v: "flat h (ram s) ps = d @ zs0" "\<forall>x\<in>set zs0. x = 0"
    "set ps \<subseteq> set (all_frames s)" "distinct ps" "\<forall>f\<in>set (all_frames s). frame_ok h f"
    using ok d by (rule file_viewE)
  define e where "e = unat off + length buf"
  note pf = pages_for_enough [of e, unfolded e_def, OF b, folded e_def]
  obtain r qs rm m zs where g: "grow_pages alloc (Some h) (pages_for e) ps (ram s) (pool s) = (r, ps @ qs, rm, m)"
    "inv m" and pq: "distinct (ps @ qs)" "\<forall>f\<in>set (ps @ qs). frame_ok h f"
    "set (ps @ qs) \<inter> (set (all_frames s) - set ps) = {}" "set (ps @ qs) \<union> (set (all_frames s) - set ps) \<subseteq> held m"
    and keep: "\<forall>f\<in>set (all_frames s). page_aligned (start_address f) \<and> page h rm f = page h (ram s) f"
    and fl: "flat h rm (ps @ qs) = d @ zs" and zs: "\<forall>x\<in>set zs. x = 0"
    and r: "r = Ok () \<and> pages_for e \<le> length (ps @ qs) \<or> r = Err NoSpace"
    using grow_file [OF ok h v, of "pages_for e"] by (elim exE conjE) (rule that)
  have tot: "length d + length zs = 4096 * length (ps @ qs)" using fl by (metis length_append length_flat)
  note upd = set_file_ok [OF ok n h(1) g(2) pq]
  show ?thesis
  proof (cases "r = Err NoSpace")
    case True
    have "tmpfs_write alloc ino off buf s =
        (Err NoSpace, set_file ino (ps @ qs) (length d) (s\<lparr>ram := rm, pool := m\<rparr>))"
      using n h(1) b g(1) True by (simp add: tmpfs_write_def Let_def set_file_commute flip: e_def)
    then show ?thesis
      using upd [of rm "length d"] keep d tot zs unfolding fl by (auto simp: fun_upd_idem)
  next
    case False
    then have ok': "r = Ok ()" and fit: "e \<le> 4096 * length (ps @ qs)" using r pf(2) by auto
    obtain rm' where w: "write_loop (Some h) (ps @ qs) (unat off) buf 0 rm = (Ok (), rm')"
      "flat h rm' (ps @ qs) = splice (d @ zs) (unat off) buf"
      "\<forall>f. page_aligned (start_address f) \<longrightarrow> f \<notin> set (ps @ qs) \<longrightarrow> page h rm' f = page h rm f"
      using write_loop_ok [OF pq(2,1), of "unat off" buf 0 rm] fit fl by (auto simp: e_def)
    let ?n = "if length d < e then e else length d"
    have n': "?n = max (length d) (unat off + length buf)" by (simp add: e_def max_def)
    have "unat off + length buf \<le> length d + length zs" using fit tot by (simp add: e_def)
    note wz = write_at_zeros [OF zs this]
    have "tmpfs_write alloc ino off buf s = (Ok (length buf), set_file ino (ps @ qs) ?n (s\<lparr>ram := rm', pool := m\<rparr>))"
      using n h(1) b g(1) ok' w(1) by (simp add: tmpfs_write_def Let_def set_file_commute flip: e_def)
    moreover have "?n \<le> 4096 * length (ps @ qs)" using fit tot by simp
    moreover have "\<forall>f\<in>set (all_frames s) - set ps. page h rm' f = page h (ram s) f"
      using keep w(3) pq(3) by auto
    ultimately show ?thesis
      using upd [of rm' ?n] wz unfolding w(2) n' by auto
  qed
qed

end

section \<open>Names\<close>

text \<open>Directories are well-formed maps and every inode number in use is below the next one.\<close>

definition names_ok :: "'m tmpfs \<Rightarrow> bool" where
  "names_ok s \<longleftrightarrow> bt_inv (nodes s) \<and>
    (\<forall>e\<in>set (nodes s). fst e < next_ino s \<and>
      (case node_kind (snd e) of Directory es \<Rightarrow> bt_inv es | _ \<Rightarrow> True))"

definition dir :: "'m tmpfs \<Rightarrow> u64 \<Rightarrow> (bytes \<rightharpoonup> u64) option" where
  "dir s i = (case bt_get (nodes s) i of
      Some n \<Rightarrow> (case node_kind n of Directory es \<Rightarrow> Some (bt_get es) | _ \<Rightarrow> None)
    | None \<Rightarrow> None)"

lemma dir_Some:
  "dir s i = Some m \<longleftrightarrow> (\<exists>n es. bt_get (nodes s) i = Some n \<and> node_kind n = Directory es \<and> m = bt_get es)"
  by (auto simp: dir_def split: option.splits tmp_node_kind.splits)

lemma tmpfs_lookup_dir:
  assumes "dir s p = Some m" "name \<noteq> []" "name \<noteq> DOT" "name \<noteq> DOTDOT"
  shows "tmpfs_lookup p name s = ok_or (m name) NotFound"
  using assms by (auto simp: dir_Some tmpfs_lookup_def)

text \<open>A new inode under a new name.\<close>

lemma add_node_ok:
  assumes ok: "names_ok s" and p: "dir s p = Some m" "m name = None" and room: "next_ino s \<noteq> - 1"
    and k: "case node_kind (mk (next_ino s)) of Directory es \<Rightarrow> bt_inv es | _ \<Rightarrow> True"
  defines "s' \<equiv> snd (add_node p name mk s)"
  shows "fst (add_node p name mk s) = Ok (next_ino s)" "names_ok s'"
    "bt_get (nodes s') (next_ino s) = Some (mk (next_ino s))" "bt_get (nodes s) (next_ino s) = None"
    "dir s' p = Some (m(name \<mapsto> next_ino s))"
    "i \<noteq> p \<Longrightarrow> i \<noteq> next_ino s \<Longrightarrow> bt_get (nodes s') i = bt_get (nodes s) i"
    "\<exists>n n'. bt_get (nodes s) p = Some n \<and> bt_get (nodes s') p = Some n' \<and> node_frames n = [] \<and> node_frames n' = []"
    "hhdm s' = hhdm s" "ram s' = ram s" "pool s' = pool s"
proof -
  let ?i = "next_ino s"
  obtain n es where n: "bt_get (nodes s) p = Some n" "node_kind n = Directory es" "m = bt_get es"
    using p(1) by (auto simp: dir_Some)
  have inv: "bt_inv (nodes s)" and lt: "\<forall>e\<in>set (nodes s). fst e < ?i"
    and ds: "\<forall>e\<in>set (nodes s). case node_kind (snd e) of Directory es \<Rightarrow> bt_inv es | _ \<Rightarrow> True"
    using ok by (auto simp: names_ok_def)
  have es: "bt_inv es" using ds bt_get_in [OF n(1)] n(2) by auto
  have "p < ?i" using lt bt_get_in [OF n(1)] by auto
  then have pi: "p \<noteq> ?i" by auto
  let ?ns = "bt_modify p (\<lambda>n. n\<lparr>node_kind := Directory (bt_insert name ?i es)\<rparr>) (nodes s)"
  have step: "add_node p name mk s = (Ok ?i, s\<lparr>next_ino := ?i + 1, nodes := bt_insert ?i (mk ?i) ?ns\<rparr>)"
    using n p(2) by (simp add: add_node_def bt_contains_def Let_def)
  have s': "s' = s\<lparr>next_ino := ?i + 1, nodes := bt_insert ?i (mk ?i) ?ns\<rparr>" by (simp add: s'_def step)
  have inv': "bt_inv ?ns" using inv by simp
  have get: "bt_get (nodes s') i = (if i = ?i then Some (mk ?i) else bt_get ?ns i)" for i
    by (simp add: s' bt_get_insert [OF inv'])
  show "fst (add_node p name mk s) = Ok ?i" by (simp add: step)
  show "bt_get (nodes s') ?i = Some (mk ?i)" by (simp add: get)
  show "bt_get (nodes s) ?i = None" using lt by (auto simp: bt_get_None)
  show "dir s' p = Some (m(name \<mapsto> ?i))"
    using pi n es by (simp add: dir_def get bt_get_modify bt_get_insert)
  show "bt_get (nodes s') i = bt_get (nodes s) i" if "i \<noteq> p" "i \<noteq> ?i" for i
    using that by (simp add: get bt_get_modify)
  show "\<exists>n n'. bt_get (nodes s) p = Some n \<and> bt_get (nodes s') p = Some n' \<and> node_frames n = [] \<and> node_frames n' = []"
    using pi n by (auto simp: get bt_get_modify node_frames_def)
  show "hhdm s' = hhdm s" "ram s' = ram s" "pool s' = pool s" by (simp_all add: s')
  have "1 + ?i \<noteq> 0" using room by (metis add.commute add_eq_0_iff2)
  then have up: "?i < ?i + 1" using unatSuc [of ?i] by (simp add: word_less_nat_alt add.commute)
  have "fst e < ?i + 1 \<and> (case node_kind (snd e) of Directory es \<Rightarrow> bt_inv es | _ \<Rightarrow> True)" if e: "e \<in> set (nodes s')" for e
  proof -
    have "e = (?i, mk ?i) \<or> e \<in> set ?ns" using e set_bt_insert [OF inv'] by (auto simp: s')
    then show ?thesis
    proof
      assume "e = (?i, mk ?i)"
      then show ?thesis using k up by simp
    next
      assume "e \<in> set ?ns"
      then obtain x where "x \<in> set (nodes s)" "fst e = fst x"
        "snd e = snd x \<or> node_kind (snd e) = Directory (bt_insert name ?i es)"
        unfolding bt_modify_def by (cases "e \<in> set (nodes s)") (auto split: if_splits)
      then show ?thesis using lt ds up bt_inv_insert [OF es] by (auto dest: order.strict_trans)
    qed
  qed
  then show "names_ok s'" using bt_inv_insert [OF inv'] by (simp add: names_ok_def s')
qed

section \<open>Consistency of the namespace operations\<close>

text \<open>Changing a node but not its file content keeps everything about the data.\<close>

definition same_data :: "tmp_node \<Rightarrow> tmp_node \<Rightarrow> bool" where
  "same_data n n' \<longleftrightarrow> node_kind n' = node_kind n \<or> \<not> is_File (node_kind n) \<and> \<not> is_File (node_kind n')"

lemma same_data_simps:
  assumes "same_data n n'"
  shows "node_frames n' = node_frames n" "file_ok h rm n' = file_ok h rm n"
  using assms by (auto simp: same_data_def node_frames_def file_ok_def split: tmp_node_kind.splits)

lemma modify_ok:
  assumes ok: "tmpfs_ok minv held s" and f: "\<And>n. bt_get (nodes s) k = Some n \<Longrightarrow> same_data n (f n)"
  defines "s' \<equiv> s\<lparr>nodes := bt_modify k f (nodes s)\<rparr>"
  shows "tmpfs_ok minv held s'" "fdata s' = fdata s" "all_frames s' = all_frames s"
proof -
  have inv: "bt_inv (nodes s)" using ok by (simp add: tmpfs_ok_def)
  have f': "same_data (snd e) (f (snd e))" if "e \<in> set (nodes s)" "fst e = k" for e
    using that f [of "snd e"] bt_get_iff [OF inv, of k "snd e"] by auto
  have nf: "node_frames (snd (if fst e = k then (fst e, f (snd e)) else e)) = node_frames (snd e)"
    if "e \<in> set (nodes s)" for e
    using f' [OF that] by (auto dest: same_data_simps(1))
  show fr: "all_frames s' = all_frames s"
    unfolding all_frames_def s'_def bt_modify_def
    by (simp add: comp_def case_prod_beta nf cong: map_cong)
  have fo: "\<forall>e\<in>set (nodes s'). file_ok h (ram s) (snd e)" if "\<forall>e\<in>set (nodes s). file_ok h (ram s) (snd e)" for h
    using that f' by (force simp: s'_def bt_modify_def same_data_simps(2))
  have sel: "hhdm s' = hhdm s" "ram s' = ram s" "pool s' = pool s" "bt_inv (nodes s')"
    using inv by (simp_all add: s'_def)
  show "tmpfs_ok minv held s'" using ok fo unfolding tmpfs_ok_def sel fr by (auto simp: sel(4))
  show "fdata s' = fdata s"
    using f by (intro ext) (force simp: fdata_def s'_def bt_get_modify same_data_def split: option.splits tmp_node_kind.splits)
qed

lemma fdata_next_ino [simp]: "fdata (s\<lparr>next_ino := x\<rparr>) = fdata s"
  by (intro ext) (simp add: fdata_def cong: option.case_cong tmp_node_kind.case_cong)

lemma frames_insert_fresh:
  "k \<notin> fst ` set m \<Longrightarrow> g v = [] \<Longrightarrow>
    concat (map (\<lambda>e. g (snd e)) (bt_insert k v m)) = concat (map (\<lambda>e. g (snd e)) m)"
  by (induction k v m rule: bt_insert.induct) auto

lemma insert_ok:
  assumes ok: "tmpfs_ok minv held s" and i: "bt_get (nodes s) i = None" and n: "node_frames n = []"
    "\<And>h rm. file_ok h rm n"
  defines "s' \<equiv> s\<lparr>nodes := bt_insert i n (nodes s)\<rparr>"
  shows "tmpfs_ok minv held s'" 
    "fdata s' = (fdata s)(i := (case node_kind n of File ps sz \<Rightarrow> Some [] | _ \<Rightarrow> None))"
proof -
  have inv: "bt_inv (nodes s)" using ok by (simp add: tmpfs_ok_def)
  have fr: "all_frames s' = all_frames s"
    using i n(1) by (simp add: all_frames_def s'_def frames_insert_fresh bt_get_None)
  have mem: "set (nodes s') \<subseteq> insert (i, n) (set (nodes s))"
    by (auto simp: s'_def set_bt_insert [OF inv])
  have sel: "hhdm s' = hhdm s" "ram s' = ram s" "pool s' = pool s" "bt_inv (nodes s')"
    using bt_inv_insert [OF inv] by (simp_all add: s'_def)
  show "tmpfs_ok minv held s'" using ok n(2) mem unfolding tmpfs_ok_def sel fr by (fastforce simp: sel(4))
  show "fdata s' = (fdata s)(i := (case node_kind n of File ps sz \<Rightarrow> Some [] | _ \<Rightarrow> None))"
    using n(1) unfolding fdata_def sel
    by (intro ext) (auto simp: s'_def bt_get_insert [OF inv] node_frames_def flat_def split: tmp_node_kind.splits)
qed

text \<open>Only the directory of the new name and the new inode change.\<close>

lemma add_node_refines:
  assumes ok: "tmpfs_ok minv held s" "names_ok s" and p: "dir s p = Some m" "m name = None"
    and room: "next_ino s \<noteq> - 1"
    and k: "mk (next_ino s) = new_node ino mode links k" "node_frames (mk (next_ino s)) = []"
    "k = File [] 0 \<or> k = Directory [] \<or> (\<exists>t. k = Symlink t)"
  shows "\<exists>s'. add_node p name mk s = (Ok (next_ino s), s') \<and> tmpfs_ok minv held s' \<and> names_ok s' \<and>
    dir s' = (dir s)(p \<mapsto> m(name \<mapsto> next_ino s), next_ino s := (if k = Directory [] then Some Map.empty else None)) \<and>
    fdata s' = (fdata s)(next_ino s := (if k = File [] 0 then Some [] else None))"
proof -
  let ?i = "next_ino s" and ?s = "snd (add_node p name mk s)"
  have kk: "node_kind (mk ?i) = k" by (simp add: k(1) new_node_def)
  have wf: "case node_kind (mk ?i) of Directory es \<Rightarrow> bt_inv es | _ \<Rightarrow> True" using k(3) by (auto simp: kk)
  note a = add_node_ok [where mk = mk, OF ok(2) p room wf]
  obtain n es where n: "bt_get (nodes s) p = Some n" "node_kind n = Directory es" "m = bt_get es"
    using p(1) by (auto simp: dir_Some)
  have pi: "p \<noteq> ?i" using a(4) n(1) by auto
  let ?s1 = "s\<lparr>nodes := bt_modify p (\<lambda>n. n\<lparr>node_kind := Directory (bt_insert name ?i es)\<rparr>) (nodes s)\<rparr>"
  have sd: "same_data n' (n'\<lparr>node_kind := Directory (bt_insert name ?i es)\<rparr>)" if "bt_get (nodes s) p = Some n'" for n'
    using that n by (simp add: same_data_def)
  note m1 = modify_ok [OF ok(1) sd]
  have g: "bt_get (nodes ?s1) ?i = None" using a(4) pi by (auto simp: bt_get_modify)
  have fo: "file_ok h rm (mk ?i)" for h rm using k(3) by (auto simp: file_ok_def kk flat_def)
  note m2 = insert_ok [OF m1(1) g k(2) fo]
  have s: "?s = (?s1\<lparr>nodes := bt_insert ?i (mk ?i) (nodes ?s1)\<rparr>)\<lparr>next_ino := ?i + 1\<rparr>"
    using n p(2) by (simp add: add_node_def bt_contains_def Let_def)
  have "tmpfs_ok minv held ?s" using m2(1) unfolding s by (simp add: tmpfs_ok_def all_frames_def)
  moreover have "fdata ?s = (fdata s)(?i := (if k = File [] 0 then Some [] else None))"
    using m2(2) m1(2) k(3) unfolding s fdata_next_ino kk by auto
  moreover have "dir ?s j = ((dir s)(p \<mapsto> m(name \<mapsto> ?i), ?i := (if k = Directory [] then Some Map.empty else None))) j" for j
    using a(3,5,6) pi k(3) by (cases "j = p"; cases "j = ?i") (auto simp: dir_def kk fun_eq_iff bt_get_def)
  ultimately show ?thesis using a(1,2) by (intro exI [of _ ?s]) (auto simp: prod_eq_iff fun_eq_iff)
qed

context frame_source
begin

lemma remove_node_ok:
  assumes ok: "tmpfs_ok inv held s" and n: "bt_get (nodes s) i = Some n"
  shows "\<exists>m. remove_node release i s = (Ok (), s\<lparr>nodes := bt_remove i (nodes s), pool := m\<rparr>) \<and>
    tmpfs_ok inv held (s\<lparr>nodes := bt_remove i (nodes s), pool := m\<rparr>) \<and>
    held m = held (pool s) - set (node_frames n)"
proof -
  have bi: "bt_inv (nodes s)" and inv: "inv (pool s)" and dis: "distinct (all_frames s)"
    and hl: "set (all_frames s) \<subseteq> held (pool s)" using ok by (auto simp: tmpfs_ok_def)
  obtain xs ys where nd: "nodes s = xs @ (i, n) # ys" "i \<notin> fst ` set xs" "i \<notin> fst ` set ys"
    using nodes_split [OF bi n] by blast
  let ?fr = "\<lambda>es. concat (map (\<lambda>e. node_frames (snd e)) es)"
  have af: "all_frames s = ?fr xs @ node_frames n @ ?fr ys" by (simp add: all_frames_def nd(1))
  have rm: "bt_remove i (nodes s) = xs @ ys"
  proof -
    have "filter (\<lambda>e. fst e \<noteq> i) zs = zs" if "i \<notin> fst ` set zs" for zs :: "(u64, tmp_node) btree"
      using that by (intro filter_True) auto
    then show ?thesis using nd(2,3) unfolding nd(1) bt_remove_def by simp
  qed
  obtain m where m: "release_all release (node_frames n) (pool s) = Some m" "inv m"
    "held m = held (pool s) - set (node_frames n)"
    using release_all_ok [OF inv, of "node_frames n"] dis hl by (auto simp: af)
  let ?s = "s\<lparr>nodes := bt_remove i (nodes s), pool := m\<rparr>"
  have af': "all_frames ?s = ?fr xs @ ?fr ys" by (simp add: all_frames_def rm)
  have sub: "set (nodes ?s) \<subseteq> set (nodes s)" by (auto simp: set_bt_remove)
  have "distinct (all_frames ?s)" "set (all_frames ?s) \<subseteq> set (all_frames s)" "set (all_frames ?s) \<subseteq> held m"
    using dis hl unfolding af' m(3) unfolding af by auto
  then have "tmpfs_ok inv held ?s"
    using ok m(2) sub bt_inv_remove [OF bi, of i] unfolding tmpfs_ok_def
    by (elim conjE exE) (simp add: subset_eq del: ex_simps)
  then show ?thesis using n m by (auto simp: remove_node_def)
qed

end

lemma fdata_removed:
  "fdata (s\<lparr>nodes := bt_remove i (nodes s), pool := m\<rparr>) = (fdata s)(i := None)"
  by (intro ext) (simp add: fdata_def bt_get_remove cong: option.case_cong tmp_node_kind.case_cong)

lemma dir_removed:
  "dir s i = None \<Longrightarrow> dir (s\<lparr>nodes := bt_remove i (nodes s), pool := m\<rparr>) = dir s"
  by (intro ext) (auto simp: dir_def bt_get_remove)

context frame_source
begin

text \<open>Dropping the last link of a closed file frees it; an open one stays until the last close.\<close>

lemma unlink_file:
  assumes ok: "tmpfs_ok inv held s" and p: "dir s p = Some m" "m name = Some i"
    and n: "bt_get (nodes s) i = Some n" "is_File (node_kind n)" "nlink n = 1"
  shows "\<exists>s1. tmpfs_unlink release p name s = (Ok (), s1) \<and> tmpfs_ok inv held s1 \<and>
    dir s1 = (dir s)(p \<mapsto> m(name := None)) \<and>
    (if open_count n = 0 then fdata s1 = (fdata s)(i := None) \<and> held (pool s1) = held (pool s) - set (node_frames n)
     else fdata s1 = fdata s \<and> pool s1 = pool s \<and> bt_get (nodes s1) i = Some (n\<lparr>nlink := 0\<rparr>))"
proof -
  obtain pn es where pn: "bt_get (nodes s) p = Some pn" "node_kind pn = Directory es" "m = bt_get es"
    using p(1) by (auto simp: dir_Some)
  have ip: "i \<noteq> p" using pn n by auto
  let ?f = "\<lambda>n. n\<lparr>node_kind := Directory (bt_remove name es)\<rparr>" and ?g = "\<lambda>n. n\<lparr>nlink := saturating_sub (nlink n) 1\<rparr>"
  let ?s1 = "s\<lparr>nodes := bt_modify p ?f (nodes s)\<rparr>"
  have "same_data v (?f v)" if "bt_get (nodes s) p = Some v" for v
    using that pn by (simp add: same_data_def)
  note m1 = modify_ok [OF ok this]
  have "same_data v (?g v)" if "bt_get (nodes ?s1) i = Some v" for v by (simp add: same_data_def)
  note m2 = modify_ok [OF m1(1) this]
  let ?s2 = "s\<lparr>nodes := bt_modify i ?g (bt_modify p ?f (nodes s))\<rparr>"
  have s2: "tmpfs_ok inv held ?s2" "fdata ?s2 = fdata s" using m2(1,2) m1(2) by simp_all
  have g2: "bt_get (nodes ?s2) i = Some (n\<lparr>nlink := 0\<rparr>)"
    using n ip by (simp add: bt_get_modify saturating_sub_def)
  have d2: "dir ?s2 = (dir s)(p \<mapsto> m(name := None))"
    using pn ip n by (intro ext) (auto simp: dir_def bt_get_modify bt_get_remove fun_eq_iff split: option.splits)
  have un: "tmpfs_unlink release p name s = (if open_count n = 0 then remove_node release i ?s2 else (Ok (), ?s2))"
    using pn p(2) n g2 by (auto simp: tmpfs_unlink_def drop_entry_def Let_def split: tmp_node_kind.splits)
  show ?thesis
  proof (cases "open_count n = 0")
    case True
    obtain m' where r: "remove_node release i ?s2 = (Ok (), ?s2\<lparr>nodes := bt_remove i (nodes ?s2), pool := m'\<rparr>)"
      "tmpfs_ok inv held (?s2\<lparr>nodes := bt_remove i (nodes ?s2), pool := m'\<rparr>)"
      "held m' = held (pool s) - set (node_frames n)"
      using remove_node_ok [OF s2(1) g2] by (auto simp: node_frames_def)
    have "dir ?s2 i = None" using g2 n(2) by (auto simp: dir_def split: tmp_node_kind.splits)
    then show ?thesis
      using True un r d2 s2(2) fdata_removed [where s = ?s2 and i = i and m = m'] dir_removed [where s = ?s2 and i = i and m = m'] by auto
  next
    case False
    then show ?thesis using un s2 g2 d2 by auto
  qed
qed

lemma close_last:
  assumes ok: "tmpfs_ok inv held s" and n: "bt_get (nodes s) i = Some n" "is_File (node_kind n)"
    "nlink n = 0" "open_count n = 1"
  shows "\<exists>s1. tmpfs_close_inode release i s = (Ok (), s1) \<and> tmpfs_ok inv held s1 \<and> dir s1 = dir s \<and>
    fdata s1 = (fdata s)(i := None) \<and> held (pool s1) = held (pool s) - set (node_frames n)"
proof -
  let ?g = "\<lambda>n. n\<lparr>open_count := saturating_sub (open_count n) 1\<rparr>"
  let ?s = "s\<lparr>nodes := bt_modify i ?g (nodes s)\<rparr>"
  have "same_data v (?g v)" if "bt_get (nodes s) i = Some v" for v by (simp add: same_data_def)
  note m1 = modify_ok [OF ok this]
  have g: "bt_get (nodes ?s) i = Some (n\<lparr>open_count := 0\<rparr>)"
    using n by (simp add: bt_get_modify saturating_sub_def)
  obtain m' where r: "remove_node release i ?s = (Ok (), ?s\<lparr>nodes := bt_remove i (nodes ?s), pool := m'\<rparr>)"
    "tmpfs_ok inv held (?s\<lparr>nodes := bt_remove i (nodes ?s), pool := m'\<rparr>)"
    "held m' = held (pool s) - set (node_frames n)"
    using remove_node_ok [OF m1(1) g] by (auto simp: node_frames_def)
  have cl: "tmpfs_close_inode release i s = remove_node release i ?s"
    using n g by (simp add: tmpfs_close_inode_def Let_def)
  have "dir ?s = dir s" by (intro ext) (auto simp: dir_def bt_get_modify split: option.splits)
  moreover from this have "dir ?s i = None" using n by (auto simp: dir_def split: tmp_node_kind.splits)
  ultimately show ?thesis
    using cl r m1(2) fdata_removed [where s = ?s and i = i and m = m'] dir_removed [where s = ?s and i = i and m = m'] by auto
qed

end

section \<open>Properties of the file system on the buddy allocator\<close>

text \<open>A fresh file system over the demonstration pool, with one open empty file named \<open>a\<close>.\<close>

definition demo_fs :: "buddy_allocator tmpfs" where
  "demo_fs = TmpFs_new (Some 0xFFFF800000000000) (\<lambda>_. 0) demo_pool"

definition demo_file :: "buddy_allocator tmpfs" where
  "demo_file = tmpfs_open_inode 2 (snd (tmpfs_create 1 [0x61] 0x1A4 demo_fs))"

lemma demo_fs_ok: "tmpfs_ok buddy_ok buddy_held demo_fs" "names_ok demo_fs"
  "dir demo_fs 1 = Some Map.empty" "next_ino demo_fs = 2"
  using demo_pool_ok
  by (simp_all add: demo_fs_def TmpFs_new_def new_node_def tmpfs_ok_def names_ok_def all_frames_def
      node_frames_def file_ok_def phys_limit_def bt_inv_Cons dir_def bt_get_def fun_eq_iff)

lemma demo_file_nodes: "nodes demo_file =
  [(1, new_node 1 0x41FF 2 (Directory [([0x61], 2)])), (2, (new_node 2 0x81A4 1 (File [] 0))\<lparr>open_count := 1\<rparr>)]"
  by (simp add: demo_file_def demo_fs_def TmpFs_new_def tmpfs_create_def add_node_def bt_get_def bt_contains_def
      tmpfs_open_inode_def bt_modify_def new_node_def Let_def saturating_add_def)

lemma demo_file_view: "bt_get (nodes demo_file) 2 = Some ((new_node 2 0x81A4 1 (File [] 0))\<lparr>open_count := 1\<rparr>)"
  "fdata demo_file 2 = Some []" "dir demo_file 1 = Some [[0x61] \<mapsto> 2]"
  by (simp_all add: demo_file_nodes bt_get_def fdata_def dir_def new_node_def flat_def fun_eq_iff)

lemma demo_file_ok: "tmpfs_ok buddy_ok buddy_held demo_file"
proof -
  have "hhdm demo_file = Some 0xFFFF800000000000" "pool demo_file = demo_pool"
    by (simp_all add: demo_file_def demo_fs_def TmpFs_new_def tmpfs_create_def add_node_def bt_get_def
        bt_contains_def tmpfs_open_inode_def new_node_def Let_def)
  then show ?thesis using demo_pool_ok
    by (simp add: tmpfs_ok_def all_frames_def demo_file_nodes node_frames_def new_node_def file_ok_def
        phys_limit_def bt_inv_Cons flat_def)
qed

text \<open>C2.  A write below the wrapping page count never panics and never disturbs another file: either
  it returns the whole length and the file holds the old bytes with the buffer written at the offset
  (any hole reads as zeroes), or the allocator is exhausted, it returns \<open>NoSpace\<close> and no file changes;
  the frames of all files stay distinct, owned and zero-padded.\<close>

theorem tmpfs_write_refines:
  assumes "tmpfs_ok buddy_ok buddy_held s" "fdata s ino = Some d" "unat off + length buf + 4095 < 2 ^ 64"
  shows "\<exists>r s'. tmpfs_write buddy_alloc ino off buf s = (r, s') \<and> tmpfs_ok buddy_ok buddy_held s' \<and>
    (r = Ok (length buf) \<and> fdata s' = (fdata s)(ino \<mapsto> write_at d (unat off) buf) \<or>
     r = Err NoSpace \<and> fdata s' = fdata s)"
  using assms by (rule frames.write_refines)

theorem tmpfs_write_refines_witness:
  "\<exists>r s'. tmpfs_write buddy_alloc 2 1 [7, 8] demo_file = (r, s') \<and> tmpfs_ok buddy_ok buddy_held s' \<and>
    (r = Ok 2 \<and> fdata s' 2 = Some [0, 7, 8] \<or> r = Err NoSpace \<and> fdata s' 2 = Some [])"
proof -
  have "write_at [] 1 [7, 8] = [0, 7, 8]" by (simp add: write_at_def splice_def numeral_2_eq_2 numeral_3_eq_3)
  then show ?thesis
    using tmpfs_write_refines [OF demo_file_ok demo_file_view(2), of 1 "[7, 8]"] by (auto simp: demo_file_view)
qed

lemma write_at_read: "take (length buf) (drop off (write_at d off buf)) = buf"
  by (simp add: write_at_def splice_def min_def)

text \<open>C26.  Reading a range right after writing it returns the bytes written, across page boundaries
  and into a file grown by the write.\<close>

theorem tmpfs_read_back:
  assumes "tmpfs_ok buddy_ok buddy_held s" "fdata s ino = Some d" "unat off + length buf + 4095 < 2 ^ 64"
    "tmpfs_write buddy_alloc ino off buf s = (Ok n, s')" "length out = length buf"
  shows "n = length buf \<and> tmpfs_read ino off out s' = (Ok (length buf), buf)"
proof -
  have ok: "tmpfs_ok buddy_ok buddy_held s'" and n: "n = length buf"
    and d: "fdata s' ino = Some (write_at d (unat off) buf)"
    using frames.write_refines [OF assms(1-3)] assms(4) by auto
  have "tmpfs_read ino off out s' = (Ok (length buf), buf)"
    using tmpfs_read_ok [OF ok d, of off out] assms(5)
    by (simp add: write_at_read length_write_at splice_def)
  with n show ?thesis by blast
qed

lemma demo_write: "\<exists>n s'. tmpfs_write buddy_alloc 2 1 [7, 8] demo_file = (Ok n, s')"
proof -
  have "map_option fst (buddy_alloc demo_pool) = Some (Some (PhysFrame 0x1000))" by code_simp
  then obtain m where m: "buddy_alloc demo_pool = Some (Some (PhysFrame 0x1000), m)" by auto
  have st: "hhdm demo_file = Some 0xFFFF800000000000" "pool demo_file = demo_pool"
    by (simp_all add: demo_file_def demo_fs_def TmpFs_new_def tmpfs_create_def add_node_def bt_get_def
        bt_contains_def tmpfs_open_inode_def new_node_def Let_def)
  have p: "phys_to_virt (Some 0xFFFF800000000000) 0x1000 = Some 0xFFFF800000001000"
    by (simp add: phys_to_virt_def checked_add_def)
  have "\<exists>rm. grow_pages buddy_alloc (Some 0xFFFF800000000000) 1 [] (ram demo_file) demo_pool =
      (Ok (), [PhysFrame 0x1000], rm, m)"
    by (simp add: grow_pages.simps m p)
  then obtain rm where g: "grow_pages buddy_alloc (Some 0xFFFF800000000000) 1 [] (ram demo_file) demo_pool =
      (Ok (), [PhysFrame 0x1000], rm, m)" by blast
  have pf: "pages_for (Suc (Suc (Suc 0))) = Suc 0" by (simp add: pages_for_def)
  have "\<exists>rm'. write_loop (Some 0xFFFF800000000000) [PhysFrame 0x1000] 1 [7, 8] 0 rm = (Ok (), rm')"
    by (simp add: write_loop.simps p)
  then show ?thesis
    using g by (auto simp: tmpfs_write_def demo_file_view new_node_def st Let_def pf split: outcome.splits)
qed

theorem tmpfs_read_back_witness:
  "\<exists>s'. tmpfs_write buddy_alloc 2 1 [7, 8] demo_file = (Ok 2, s') \<and> tmpfs_read 2 1 [0, 0] s' = (Ok 2, [7, 8])"
proof -
  obtain n s' where w: "tmpfs_write buddy_alloc 2 1 [7, 8] demo_file = (Ok n, s')" using demo_write by blast
  show ?thesis
    using tmpfs_read_back [OF demo_file_ok demo_file_view(2) _ w, of "[0, 0]"] w by simp
qed

text \<open>Creating a file under a name its directory does not have returns a fresh inode, adds exactly
  that name to exactly that directory, and makes an empty file without touching any other.\<close>

theorem tmpfs_create_correct:
  assumes "tmpfs_ok buddy_ok buddy_held s" "names_ok s" "dir s p = Some m" "m name = None" "next_ino s \<noteq> - 1"
  shows "\<exists>s'. tmpfs_create p name mode s = (Ok (next_ino s), s') \<and> tmpfs_ok buddy_ok buddy_held s' \<and>
    names_ok s' \<and> dir s' = (dir s)(p \<mapsto> m(name \<mapsto> next_ino s), next_ino s := None) \<and>
    fdata s' = (fdata s)(next_ino s \<mapsto> [])"
  using add_node_refines [OF assms, of "\<lambda>ino. new_node ino (0x8000 OR (mode AND 0xFFF)) 1 (File [] 0)", OF refl]
  by (simp add: tmpfs_create_def node_frames_def new_node_def)

theorem tmpfs_create_correct_witness:
  "\<exists>s'. tmpfs_create 1 [0x61] 0x1A4 demo_fs = (Ok 2, s') \<and> tmpfs_ok buddy_ok buddy_held s' \<and>
    dir s' 1 = Some [[0x61] \<mapsto> 2] \<and> fdata s' 2 = Some []"
  using tmpfs_create_correct [OF demo_fs_ok(1-3), of "[0x61]" "0x1A4"] by (auto simp: demo_fs_ok)



text \<open>C38.  Growing a file with \<open>truncate\<close> adds no pages, so the next read in the new range indexes past the
  page vector and panics.\<close>

theorem truncate_grow_panics:
  assumes "bt_get (nodes s) i = Some n" "node_kind n = File ps sz"
    "4096 * length ps < unat new" "unat new + 4095 < 2 ^ 64" "buf \<noteq> []"
  shows "\<exists>s'. tmpfs_truncate buddy_free i new s = (Ok (), s') \<and>
    tmpfs_read i (of_nat (4096 * length ps)) buf s' = (Panic, buf)"
proof -
  have "4096 * length ps < 4096 * pages_for (unat new)"
    using assms(3) pages_for_enough(2) [OF assms(4)] by (rule less_le_trans)
  then have t: "tmpfs_truncate buddy_free i new s = (Ok (), set_file i ps (unat new) s)"
    using assms(1,2) by (simp add: tmpfs_truncate_def Let_def)
  have off: "unat (of_nat (4096 * length ps) :: u64) = 4096 * length ps"
    using assms(3,4) by (simp add: unat_of_nat del: of_nat_mult)
  have "read_loop hh rm ps (4096 * length ps) k 0 buf = (Panic, buf)" if "0 < k" for hh rm k
    using that by (subst read_loop.simps) simp
  then show ?thesis
    using t assms(1,2,3,5) by (simp add: tmpfs_read_def set_file_def bt_get_modify off Let_def del: of_nat_mult)
qed

theorem truncate_grow_panics_witness:
  "\<exists>s'. tmpfs_truncate buddy_free 2 1 demo_file = (Ok (), s') \<and> tmpfs_read 2 0 [9] s' = (Panic, [9])"
  using truncate_grow_panics [OF demo_file_view(1), of "[]" 0 1 "[9]"] by (simp add: new_node_def)

text \<open>Shrinking inside the last page and growing back brings the cut bytes back instead of zeroes.\<close>

lemma truncate_regrow:
  assumes "bt_get (nodes s) i = Some n" "node_kind n = File ps (unat sz)"
    "length ps \<le> pages_for (unat new)" "length ps \<le> pages_for (unat sz)"
  shows "\<exists>s1 s2. tmpfs_truncate buddy_free i new s = (Ok (), s1) \<and>
    tmpfs_truncate buddy_free i sz s1 = (Ok (), s2) \<and> fdata s2 i = fdata s i"
  using assms by (simp add: tmpfs_truncate_def Let_def set_file_def bt_get_modify fdata_def)

text \<open>Renaming into something that is not a directory fails after the old name is already gone.\<close>

lemma rename_loses_entry:
  assumes "dir s p = Some m" "m old = Some i" "bt_get (nodes s) q = Some n" "\<nexists>es. node_kind n = Directory es"
  shows "\<exists>s'. tmpfs_rename p old q new s = (Err NotDirectory, s') \<and> dir s' p = Some (m(old := None))"
proof -
  obtain pn es where pn: "bt_get (nodes s) p = Some pn" "node_kind pn = Directory es" "m = bt_get es"
    using assms(1) by (auto simp: dir_Some)
  have "p \<noteq> q" using pn assms(3,4) by auto
  then show ?thesis
    using pn assms by (auto simp: tmpfs_rename_def Let_def bt_get_modify dir_def bt_get_remove split: tmp_node_kind.splits)
qed

text \<open>A directory keeps one of its two links when it is removed, so its inode is never dropped.\<close>

lemma rmdir_keeps_inode:
  assumes "dir s p = Some m" "m name = Some i" "bt_get (nodes s) i = Some n" "node_kind n = Directory []"
    "nlink n = 2" "i \<noteq> p"
  shows "\<exists>s'. tmpfs_rmdir buddy_free p name s = (Ok (), s') \<and> dir s' p = Some (m(name := None)) \<and>
    bt_get (nodes s') i = Some (n\<lparr>nlink := 1\<rparr>)"
proof -
  obtain pn es where pn: "bt_get (nodes s) p = Some pn" "node_kind pn = Directory es" "m = bt_get es"
    using assms(1) by (auto simp: dir_Some)
  then show ?thesis
    using assms by (simp add: tmpfs_rmdir_def drop_entry_def Let_def bt_get_modify dir_def bt_get_remove saturating_sub_def)
qed

end
