(* ===== verification/Byte_Queue.thy ===== *)
theory Byte_Queue
  imports Prelude
begin

text \<open>
  The contract of a byte stream between two ends of a kernel object: what is put in one end
  comes out of the other in order, once, however the two ends interleave.  It is provided by
  both directions of a pseudo-terminal and by pipes.
\<close>

datatype io = Put bytes | Get nat

text \<open>The bytes all reads return, and the state after a sequence of writes and reads.\<close>

primrec run_io ::
  "(bytes \<Rightarrow> 's \<Rightarrow> 's) \<Rightarrow> (nat \<Rightarrow> 's \<Rightarrow> bytes \<times> 's) \<Rightarrow> io list \<Rightarrow> 's \<Rightarrow> bytes \<times> 's" where
  "run_io put get [] s = ([], s)"
| "run_io put get (x # xs) s =
    (case x of
      Put bs \<Rightarrow> run_io put get xs (put bs s)
    | Get n \<Rightarrow> (let (out, s') = get n s; (outs, s'') = run_io put get xs s' in (out @ outs, s'')))"

definition sent :: "(bytes \<Rightarrow> bytes) \<Rightarrow> io list \<Rightarrow> bytes" where
  "sent enc xs = concat (map (\<lambda>x. case x of Put bs \<Rightarrow> enc bs | Get n \<Rightarrow> []) xs)"

locale byte_queue =
  fixes ok :: "'s \<Rightarrow> bool"
    and queue :: "'s \<Rightarrow> bytes"
    and enc :: "bytes \<Rightarrow> bytes"
    and put :: "bytes \<Rightarrow> 's \<Rightarrow> 's"
    and get :: "nat \<Rightarrow> 's \<Rightarrow> bytes \<times> 's"
  assumes put_ok: "ok s \<Longrightarrow> ok (put bs s)"
    and get_ok: "ok s \<Longrightarrow> ok (snd (get n s))"
    and queue_put: "ok s \<Longrightarrow> queue (put bs s) = queue s @ enc bs"
    and get_fst: "ok s \<Longrightarrow> fst (get n s) = take n (queue s)"
    and queue_get: "ok s \<Longrightarrow> queue (snd (get n s)) = drop n (queue s)"
begin

lemma stream_in_order:
  "ok s \<Longrightarrow> ok (snd (run_io put get xs s)) \<and>
    fst (run_io put get xs s) @ queue (snd (run_io put get xs s)) = queue s @ sent enc xs"
proof (induction xs arbitrary: s)
  case (Cons x xs)
  show ?case
  proof (cases x)
    case (Put bs)
    then show ?thesis using Cons.IH [OF put_ok [OF Cons.prems]] queue_put [OF Cons.prems] by (simp add: sent_def)
  next
    case (Get n)
    obtain out s' where g: "get n s = (out, s')" by (cases "get n s")
    then have s': "ok s'" "out = take n (queue s)" "queue s' = drop n (queue s)"
      using get_ok [OF Cons.prems, of n] get_fst [OF Cons.prems, of n] queue_get [OF Cons.prems, of n] by simp_all
    show ?thesis using Cons.IH [OF s'(1)] Get g s' by (simp add: split_beta sent_def)
  qed
qed (simp add: sent_def)

end

end
