(* ===== verification/Pty.thy ===== *)
theory Pty
  imports Btree Byte_Queue
begin

text \<open>
  Pseudo-terminals (\<open>rust/kernel/src/pty.rs\<close>) and their \<open>ioctl\<close> handler
  (\<open>pty_ioctl_current\<close> of \<open>rust/kernel/src/scheduler.rs\<close>): the line discipline that
  \<open>write_master\<close> applies to each byte, the two queues, and the table of live pairs.  An
  \<open>Arc<Mutex<PtyState>>\<close> is an index into a list of states, so that the table and the
  descriptors share one state.  Signals sent to the foreground group are the list of
  \<open>(group, signal)\<close> pairs in the order of the calls of \<open>signal_pgrp\<close>.
\<close>

section \<open>State\<close>

definition ICRNL :: u32 where
  "ICRNL = 0x0100"
definition IXON :: u32 where
  "IXON = 0x0400"
definition OPOST :: u32 where
  "OPOST = 0x0001"
definition ONLCR :: u32 where
  "ONLCR = 0x0004"
definition CS8 :: u32 where
  "CS8 = 0x0030"
definition CREAD :: u32 where
  "CREAD = 0x0080"
definition B38400 :: u32 where
  "B38400 = 0x000f"
definition ISIG :: u32 where
  "ISIG = 0x0001"
definition ICANON :: u32 where
  "ICANON = 0x0002"
definition ECHO :: u32 where
  "ECHO = 0x0008"
definition ECHOE :: u32 where
  "ECHOE = 0x0010"
definition ECHOK :: u32 where
  "ECHOK = 0x0020"
definition ECHOCTL :: u32 where
  "ECHOCTL = 0x0200"
definition ECHOKE :: u32 where
  "ECHOKE = 0x0800"
definition IEXTEN :: u32 where
  "IEXTEN = 0x8000"

record termios =
  c_iflag :: u32
  c_oflag :: u32
  c_cflag :: u32
  c_lflag :: u32
  c_line :: u8
  c_cc :: bytes
  c_ispeed :: u32
  c_ospeed :: u32

definition termios_default :: termios where
  "termios_default = \<lparr>c_iflag = ICRNL OR IXON, c_oflag = OPOST OR ONLCR, c_cflag = B38400 OR CS8 OR CREAD,
     c_lflag = ISIG OR ICANON OR ECHO OR ECHOE OR ECHOK OR ECHOCTL OR ECHOKE OR IEXTEN, c_line = 0,
     c_cc = [3, 28, 127, 21, 4, 0, 1, 0, 17, 19, 26, 0, 18, 15, 23, 22, 0] @ replicate 15 0,
     c_ispeed = 38400, c_ospeed = 38400\<rparr>"

record winsize =
  ws_row :: u16
  ws_col :: u16
  ws_xpixel :: u16
  ws_ypixel :: u16

definition winsize_default :: winsize where
  "winsize_default = \<lparr>ws_row = 24, ws_col = 80, ws_xpixel = 1280, ws_ypixel = 800\<rparr>"

record pty_state =
  pty_id :: u32
  master_open :: bool
  slave_open :: bool
  pty_locked :: bool
  master_to_slave :: bytes
  line_buf :: bytes
  slave_to_master :: bytes
  pty_termios :: termios
  pty_winsize :: winsize
  fg_pgrp :: u32
  session_id :: u32

definition PtyState_new :: "u32 \<Rightarrow> pty_state" where
  "PtyState_new i = \<lparr>pty_id = i, master_open = True, slave_open = False, pty_locked = True,
     master_to_slave = [], line_buf = [], slave_to_master = [], pty_termios = termios_default,
     pty_winsize = winsize_default, fg_pgrp = 0, session_id = 0\<rparr>"

section \<open>Line discipline\<close>

abbreviation LF :: u8 where
  "LF \<equiv> 0x0A"
abbreviation CR :: u8 where
  "CR \<equiv> 0x0D"

type_synonym signals = "(u32 \<times> u64) list"

definition to_master :: "bytes \<Rightarrow> pty_state \<Rightarrow> pty_state" where
  "to_master bs s = s\<lparr>slave_to_master := slave_to_master s @ bs\<rparr>"

definition to_slave :: "bytes \<Rightarrow> pty_state \<Rightarrow> pty_state" where
  "to_slave bs s = s\<lparr>master_to_slave := master_to_slave s @ bs\<rparr>"

text \<open>A signal character: its echo, then the signal if there is a foreground group.\<close>

definition raise_signal :: "bool \<Rightarrow> bytes \<Rightarrow> u64 \<Rightarrow> pty_state \<times> signals \<Rightarrow> pty_state \<times> signals" where
  "raise_signal echo shown sig p =
    (let s = (if echo then to_master shown (fst p) else fst p) in
     (s, if fg_pgrp s \<noteq> 0 then snd p @ [(fg_pgrp s, sig)] else snd p))"

definition nl_echo :: "bool \<Rightarrow> u8 \<Rightarrow> bytes" where
  "nl_echo onlcr ch = (if ch = LF \<and> onlcr then [CR, LF] else [ch])"

text \<open>One iteration of the loop of \<open>write_master\<close>, with the settings read before the loop: the
  canonical branch, the raw branch, and the signal characters in front of both.\<close>

definition canon_byte :: "termios \<Rightarrow> u8 \<Rightarrow> pty_state \<Rightarrow> pty_state" where
  "canon_byte t raw_byte s =
    (let echo = c_lflag t AND ECHO \<noteq> 0;
         echoe = c_lflag t AND ECHOE \<noteq> 0;
         onlcr = c_oflag t AND ONLCR \<noteq> 0;
         icrnl = c_iflag t AND ICRNL \<noteq> 0;
         verase = c_cc t ! 2;
         veof = c_cc t ! 4 in
     if raw_byte = verase \<and> verase \<noteq> 0 \<or> raw_byte = 0x7F \<or> raw_byte = 0x08 then
       (if line_buf s = [] then s
        else
          (let s' = s\<lparr>line_buf := butlast (line_buf s)\<rparr> in
           if echo \<and> echoe then to_master [0x08, 0x20, 0x08] s' else s'))
     else if raw_byte = veof \<and> veof \<noteq> 0 then
       (if line_buf s = [] then s else (to_slave (line_buf s) s)\<lparr>line_buf := []\<rparr>)
     else if raw_byte = CR \<or> raw_byte = LF then
       (let ch = (if raw_byte = CR \<and> icrnl then LF else raw_byte);
            s1 = s\<lparr>line_buf := line_buf s @ [ch]\<rparr>;
            s2 = (if echo then to_master (nl_echo onlcr ch) s1 else s1) in
        (to_slave (line_buf s2) s2)\<lparr>line_buf := []\<rparr>)
     else
       (let s' = s\<lparr>line_buf := line_buf s @ [raw_byte]\<rparr> in
        if echo then to_master [raw_byte] s' else s'))"

definition raw_mode_byte :: "termios \<Rightarrow> u8 \<Rightarrow> pty_state \<Rightarrow> pty_state" where
  "raw_mode_byte t raw_byte s =
    (let echo = c_lflag t AND ECHO \<noteq> 0;
         onlcr = c_oflag t AND ONLCR \<noteq> 0;
         icrnl = c_iflag t AND ICRNL \<noteq> 0;
         ch = (if raw_byte = CR \<and> icrnl then LF else raw_byte);
         s' = to_slave [ch] s in
     if echo then to_master (nl_echo onlcr ch) s' else s')"

definition master_byte :: "termios \<Rightarrow> u8 \<Rightarrow> pty_state \<times> signals \<Rightarrow> pty_state \<times> signals" where
  "master_byte t raw_byte p =
    (let isig = c_lflag t AND ISIG \<noteq> 0;
         icanon = c_lflag t AND ICANON \<noteq> 0;
         echo = c_lflag t AND ECHO \<noteq> 0;
         vintr = c_cc t ! 0;
         vquit = c_cc t ! 1;
         vsusp = c_cc t ! 10 in
     if isig \<and> raw_byte = vintr \<and> vintr \<noteq> 0 then
       raise_signal echo [0x5E, 0x43, LF] 2 ((fst p)\<lparr>line_buf := []\<rparr>, snd p)
     else if isig \<and> raw_byte = vsusp \<and> vsusp \<noteq> 0 then raise_signal echo [0x5E, 0x5A, LF] 20 p
     else if isig \<and> raw_byte = vquit \<and> vquit \<noteq> 0 then raise_signal echo [0x5E, 0x5C, LF] 3 p
     else if icanon then (canon_byte t raw_byte (fst p), snd p)
     else (raw_mode_byte t raw_byte (fst p), snd p))"

definition write_master :: "bytes \<Rightarrow> pty_state \<Rightarrow> pty_state \<times> signals" where
  "write_master bs s = fold (master_byte (pty_termios s)) bs (s, [])"

definition read_slave :: "nat \<Rightarrow> pty_state \<Rightarrow> (unit, bytes) outcome \<times> pty_state" where
  "read_slave n s =
    (if master_to_slave s = [] then (if \<not> master_open s then (Ok [], s) else (Err (), s))
     else
       (let count = min (length (master_to_slave s)) n in
        (Ok (take count (master_to_slave s)), s\<lparr>master_to_slave := drop count (master_to_slave s)\<rparr>)))"

definition slave_byte :: "bool \<Rightarrow> u8 \<Rightarrow> pty_state \<Rightarrow> pty_state" where
  "slave_byte onlcr b s = (if b = LF \<and> onlcr then to_master [CR, LF] s else to_master [b] s)"

definition write_slave :: "bytes \<Rightarrow> pty_state \<Rightarrow> (unit, nat) outcome \<times> pty_state" where
  "write_slave bs s =
    (if \<not> master_open s then (Err (), s)
     else (Ok (length bs), fold (slave_byte (c_oflag (pty_termios s) AND ONLCR \<noteq> 0)) bs s))"

definition read_master :: "nat \<Rightarrow> pty_state \<Rightarrow> (unit, bytes) outcome \<times> pty_state" where
  "read_master n s =
    (if slave_to_master s = [] then (if \<not> slave_open s then (Ok [], s) else (Err (), s))
     else
       (let count = min (length (slave_to_master s)) n in
        (Ok (take count (slave_to_master s)), s\<lparr>slave_to_master := drop count (slave_to_master s)\<rparr>)))"

section \<open>The table of pairs\<close>

record pty_world =
  PTY_TABLE :: "(u32, nat) btree"
  NEXT_PTY_ID :: u32
  ptys :: "pty_state list"

definition modify_pty :: "nat \<Rightarrow> (pty_state \<Rightarrow> pty_state) \<Rightarrow> pty_world \<Rightarrow> pty_world" where
  "modify_pty r f w = w\<lparr>ptys := (ptys w)[r := f (ptys w ! r)]\<rparr>"

definition create_pty :: "pty_world \<Rightarrow> (u32 \<times> nat) \<times> pty_world" where
  "create_pty w =
    (let i = NEXT_PTY_ID w; r = length (ptys w) in
     ((i, r), w\<lparr>NEXT_PTY_ID := i + 1, ptys := ptys w @ [PtyState_new i], PTY_TABLE := bt_insert i r (PTY_TABLE w)\<rparr>))"

definition get_pty :: "u32 \<Rightarrow> pty_world \<Rightarrow> nat option" where
  "get_pty i w = bt_get (PTY_TABLE w) i"

definition has_pty :: "u32 \<Rightarrow> pty_world \<Rightarrow> bool" where
  "has_pty i w = bt_contains (PTY_TABLE w) i"

definition list_ptys :: "pty_world \<Rightarrow> u32 list" where
  "list_ptys w = bt_keys (PTY_TABLE w)"

definition close_master :: "u32 \<Rightarrow> pty_world \<Rightarrow> pty_world" where
  "close_master i w =
    (case bt_get (PTY_TABLE w) i of
      None \<Rightarrow> w
    | Some r \<Rightarrow>
       (let w' = modify_pty r (\<lambda>p. p\<lparr>master_open := False\<rparr>) w in
        if \<not> slave_open (ptys w' ! r) then w'\<lparr>PTY_TABLE := bt_remove i (PTY_TABLE w')\<rparr> else w'))"

definition close_slave :: "u32 \<Rightarrow> pty_world \<Rightarrow> pty_world" where
  "close_slave i w =
    (case bt_get (PTY_TABLE w) i of
      None \<Rightarrow> w
    | Some r \<Rightarrow>
       (let w' = modify_pty r (\<lambda>p. p\<lparr>slave_open := False\<rparr>) w in
        if \<not> master_open (ptys w' ! r) then w'\<lparr>PTY_TABLE := bt_remove i (PTY_TABLE w')\<rparr> else w'))"

section \<open>Control operations\<close>

text \<open>The C layout of the two structures.  The three padding bytes before \<open>c_ispeed\<close> are not
  set by the code; \<open>pad\<close> is what the copy finds there.\<close>

definition winsize_bytes :: "winsize \<Rightarrow> bytes" where
  "winsize_bytes w = to_le 2 (ws_row w) @ to_le 2 (ws_col w) @ to_le 2 (ws_xpixel w) @ to_le 2 (ws_ypixel w)"

definition winsize_of :: "bytes \<Rightarrow> winsize" where
  "winsize_of bs = \<lparr>ws_row = u16_at bs 0, ws_col = u16_at bs 2, ws_xpixel = u16_at bs 4, ws_ypixel = u16_at bs 6\<rparr>"

definition termios_bytes :: "bytes \<Rightarrow> termios \<Rightarrow> bytes" where
  "termios_bytes pad t = to_le 4 (c_iflag t) @ to_le 4 (c_oflag t) @ to_le 4 (c_cflag t) @ to_le 4 (c_lflag t) @
     [c_line t] @ c_cc t @ pad @ to_le 4 (c_ispeed t) @ to_le 4 (c_ospeed t)"

definition termios_of :: "bytes \<Rightarrow> termios" where
  "termios_of bs = \<lparr>c_iflag = u32_at bs 0, c_oflag = u32_at bs 4, c_cflag = u32_at bs 8, c_lflag = u32_at bs 12,
     c_line = bs ! 16, c_cc = take 32 (drop 17 bs), c_ispeed = u32_at bs 52, c_ospeed = u32_at bs 56\<rparr>"

text \<open>\<open>pty_ioctl_current\<close> once the descriptor is known to be a terminal.  User memory is reached
  through \<open>copy_from\<close> and \<open>copy_to\<close>; \<open>ids\<close> is the session and group of the running task, if any.\<close>

definition put_user ::
  "('u \<Rightarrow> u64 \<Rightarrow> bytes \<Rightarrow> 'u option) \<Rightarrow> u64 \<Rightarrow> bytes \<Rightarrow> pty_state \<Rightarrow> 'u \<Rightarrow>
    (unit, u64) outcome \<times> pty_state \<times> 'u \<times> signals" where
  "put_user copy_to arg bs s u = (case copy_to u arg bs of Some u' \<Rightarrow> (Ok 0, s, u', []) | None \<Rightarrow> (Err (), s, u, []))"

definition pty_ioctl ::
  "('u \<Rightarrow> u64 \<Rightarrow> nat \<Rightarrow> bytes option) \<Rightarrow> ('u \<Rightarrow> u64 \<Rightarrow> bytes \<Rightarrow> 'u option) \<Rightarrow> (u32 \<times> u32) option \<Rightarrow> bytes \<Rightarrow>
    bool \<Rightarrow> u64 \<Rightarrow> u64 \<Rightarrow> pty_state \<Rightarrow> 'u \<Rightarrow> (unit, u64) outcome \<times> pty_state \<times> 'u \<times> signals" where
  "pty_ioctl copy_from copy_to ids pad is_master cmd arg s u =
    (let cmd32 = (ucast cmd :: u32); fail = (Err (), s, u, []) in
     if cmd32 = 0x80045430 then
       (if \<not> is_master \<or> arg = 0 then fail else put_user copy_to arg (to_le 4 (pty_id s)) s u)
     else if cmd32 = 0x40045431 then
       (if \<not> is_master \<or> arg = 0 then fail
        else case copy_from u arg 4 of
          None \<Rightarrow> fail
        | Some bs \<Rightarrow> (Ok 0, s\<lparr>pty_locked := (from_le bs :: u32) \<noteq> 0\<rparr>, u, []))
     else if cmd32 = 0x5413 then
       (if arg = 0 then fail else put_user copy_to arg (winsize_bytes (pty_winsize s)) s u)
     else if cmd32 = 0x5414 then
       (if arg = 0 then fail
        else case copy_from u arg 8 of
          None \<Rightarrow> fail
        | Some bs \<Rightarrow>
            (Ok 0, s\<lparr>pty_winsize := winsize_of bs\<rparr>, u, if fg_pgrp s \<noteq> 0 then [(fg_pgrp s, 28)] else []))
     else if cmd32 = 0x5401 then
       (if arg = 0 then fail else put_user copy_to arg (termios_bytes pad (pty_termios s)) s u)
     else if cmd32 = 0x5402 \<or> cmd32 = 0x5403 \<or> cmd32 = 0x5404 then
       (if arg = 0 then fail
        else case copy_from u arg 60 of
          None \<Rightarrow> fail
        | Some bs \<Rightarrow> (Ok 0, s\<lparr>pty_termios := termios_of bs\<rparr>, u, []))
     else if cmd32 = 0x540E then
       (case ids of
         None \<Rightarrow> fail
       | Some (sid, pgid) \<Rightarrow> (Ok 0, s\<lparr>session_id := sid, fg_pgrp := pgid\<rparr>, u, []))
     else if cmd32 = 0x540F then
       (if arg = 0 then fail else put_user copy_to arg (to_le 4 (fg_pgrp s)) s u)
     else if cmd32 = 0x5410 then
       (if arg = 0 then fail
        else case copy_from u arg 4 of
          None \<Rightarrow> fail
        | Some bs \<Rightarrow> (Ok 0, s\<lparr>fg_pgrp := from_le bs\<rparr>, u, []))
     else if cmd32 = 0x5429 then
       (if arg = 0 then fail else put_user copy_to arg (to_le 4 (session_id s)) s u)
     else if cmd32 = 0x541B then
       (if arg = 0 then fail
        else put_user copy_to arg (to_le 4 (of_nat (length (if is_master then slave_to_master s else master_to_slave s)) :: u32)) s u)
     else if cmd32 = 0x540B then (Ok 0, s, u, [])
     else fail)"

section \<open>Invariant\<close>

text \<open>There are thirty-two control characters, so the indexing is in range, and the line being edited holds
  no line end.\<close>

definition pty_ok :: "pty_state \<Rightarrow> bool" where
  "pty_ok s \<longleftrightarrow> length (c_cc (pty_termios s)) = 32 \<and> CR \<notin> set (line_buf s) \<and> LF \<notin> set (line_buf s)"

text \<open>Signals go to an existing foreground group and are one of the three of the terminal.\<close>

definition signals_ok :: "signals \<Rightarrow> bool" where
  "signals_ok sg \<longleftrightarrow> (\<forall>e\<in>set sg. fst e \<noteq> 0 \<and> snd e \<in> {2, 3, 20})"

lemma to_master_sel [simp]:
  "pty_termios (to_master bs s) = pty_termios s" "line_buf (to_master bs s) = line_buf s"
  "master_to_slave (to_master bs s) = master_to_slave s" "fg_pgrp (to_master bs s) = fg_pgrp s"
  "slave_to_master (to_master bs s) = slave_to_master s @ bs" "master_open (to_master bs s) = master_open s"
  by (simp_all add: to_master_def)

lemma to_slave_sel [simp]:
  "pty_termios (to_slave bs s) = pty_termios s" "line_buf (to_slave bs s) = line_buf s"
  "master_to_slave (to_slave bs s) = master_to_slave s @ bs" "fg_pgrp (to_slave bs s) = fg_pgrp s"
  "slave_to_master (to_slave bs s) = slave_to_master s" "master_open (to_slave bs s) = master_open s"
  by (simp_all add: to_slave_def)

lemma raise_signal_ok:
  assumes "pty_ok (fst p)" "signals_ok (snd p)" "sig \<in> {2, 3, 20}"
  shows "pty_ok (fst (raise_signal echo shown sig p))" "signals_ok (snd (raise_signal echo shown sig p))"
    "pty_termios (fst (raise_signal echo shown sig p)) = pty_termios (fst p)"
  using assms by (auto simp: raise_signal_def Let_def pty_ok_def signals_ok_def)

lemma canon_byte_ok: "pty_ok s \<Longrightarrow> pty_ok (canon_byte t b s) \<and> pty_termios (canon_byte t b s) = pty_termios s"
  unfolding canon_byte_def Let_def pty_ok_def by (auto dest: in_set_butlastD)

lemma raw_mode_byte_ok:
  "pty_ok s \<Longrightarrow> pty_ok (raw_mode_byte t b s) \<and> pty_termios (raw_mode_byte t b s) = pty_termios s"
  unfolding raw_mode_byte_def Let_def pty_ok_def by auto

lemma master_byte_ok:
  assumes "pty_ok (fst p)" "signals_ok (snd p)"
  shows "pty_ok (fst (master_byte t b p)) \<and> signals_ok (snd (master_byte t b p)) \<and>
    pty_termios (fst (master_byte t b p)) = pty_termios (fst p)"
proof -
  have c: "pty_ok ((fst p)\<lparr>line_buf := []\<rparr>)" using assms(1) by (simp add: pty_ok_def)
  show ?thesis
    unfolding master_byte_def Let_def using assms c
    by (simp add: raise_signal_ok canon_byte_ok raw_mode_byte_ok)
qed

lemma fold_inv: "(\<And>b s. I s \<Longrightarrow> I (f b s)) \<Longrightarrow> I s \<Longrightarrow> I (fold f bs s)"
  by (induction bs arbitrary: s) auto

lemma write_master_ok:
  assumes "pty_ok s"
  shows "pty_ok (fst (write_master bs s))" "signals_ok (snd (write_master bs s))"
    "pty_termios (fst (write_master bs s)) = pty_termios s"
proof -
  let ?I = "\<lambda>p. pty_ok (fst p) \<and> signals_ok (snd p) \<and> pty_termios (fst p) = pty_termios s"
  have "signals_ok []" by (simp add: signals_ok_def)
  note e = this
  have "?I (fold (master_byte (pty_termios s)) bs (s, []))"
    by (rule fold_inv [where I = ?I]) (simp_all add: assms e master_byte_ok)
  then show "pty_ok (fst (write_master bs s))" "signals_ok (snd (write_master bs s))"
    "pty_termios (fst (write_master bs s)) = pty_termios s"
    unfolding write_master_def by blast+
qed

lemma write_slave_sel [simp]:
  "pty_termios (snd (write_slave bs s)) = pty_termios s" "line_buf (snd (write_slave bs s)) = line_buf s"
  "master_open (snd (write_slave bs s)) = master_open s"
proof -
  have "pty_termios (fold (slave_byte on) bs s) = pty_termios s \<and> line_buf (fold (slave_byte on) bs s) = line_buf s \<and>
      master_open (fold (slave_byte on) bs s) = master_open s" for on
    by (induction bs arbitrary: s) (simp_all add: slave_byte_def)
  then show "pty_termios (snd (write_slave bs s)) = pty_termios s" "line_buf (snd (write_slave bs s)) = line_buf s"
    "master_open (snd (write_slave bs s)) = master_open s" by (simp_all add: write_slave_def)
qed

lemma read_sel [simp]:
  "pty_termios (snd (read_slave n s)) = pty_termios s" "line_buf (snd (read_slave n s)) = line_buf s"
  "pty_termios (snd (read_master n s)) = pty_termios s" "line_buf (snd (read_master n s)) = line_buf s"
  "master_open (snd (read_master n s)) = master_open s" "slave_open (snd (read_slave n s)) = slave_open s"
  by (simp_all add: read_slave_def read_master_def Let_def)

lemma put_user_state [simp]: "fst (snd (put_user ct a bs s u)) = s"
  by (simp add: put_user_def split: option.splits)

lemma pty_ok_update [simp]:
  "pty_ok (s\<lparr>pty_locked := l\<rparr>) = pty_ok s" "pty_ok (s\<lparr>pty_winsize := w\<rparr>) = pty_ok s"
  "pty_ok (s\<lparr>session_id := i\<rparr>) = pty_ok s" "pty_ok (s\<lparr>fg_pgrp := g\<rparr>) = pty_ok s"
  "pty_ok (s\<lparr>slave_open := o1\<rparr>) = pty_ok s" "pty_ok (s\<lparr>master_open := o2\<rparr>) = pty_ok s"
  by (simp_all add: pty_ok_def)

lemma pty_ioctl_ok:
  assumes "pty_ok s" "\<And>u a n bs. cf u a n = Some bs \<Longrightarrow> length bs = n"
  shows "pty_ok (fst (snd (pty_ioctl cf ct ids pad m cmd arg s u)))"
proof -
  have t: "pty_ok (s\<lparr>pty_termios := termios_of bs\<rparr>)" if "cf u arg 60 = Some bs" for bs
    using assms that by (fastforce simp: pty_ok_def termios_of_def)
  let ?P = "\<lambda>r. pty_ok (fst (snd r))"
  have f: "?P (Err (), s, u, [])" using assms(1) by simp
  have c: "?P (case cf u arg n of None \<Rightarrow> (Err (), s, u, []) | Some bs \<Rightarrow> g bs)"
    if "\<And>bs. cf u arg n = Some bs \<Longrightarrow> ?P (g bs)" for n g
    using that f by (simp split: option.split)
  have i: "?P (if b then x else y)" if "?P x" "?P y" for b x y using that by simp
  show ?thesis unfolding pty_ioctl_def Let_def
    by (intro i c f) (use assms(1) t in \<open>simp_all split: option.split prod.split\<close>)
qed

text \<open>Everything that happens to a pair between its creation and its end.\<close>

type_synonym user_mem = "u64 \<Rightarrow> u8 option"

inductive pty_reachable :: "pty_state \<Rightarrow> bool" where
  created: "pty_reachable (PtyState_new i)"
| master_writes: "pty_reachable s \<Longrightarrow> pty_reachable (fst (write_master bs s))"
| slave_writes: "pty_reachable s \<Longrightarrow> pty_reachable (snd (write_slave bs s))"
| master_reads: "pty_reachable s \<Longrightarrow> pty_reachable (snd (read_master n s))"
| slave_reads: "pty_reachable s \<Longrightarrow> pty_reachable (snd (read_slave n s))"
| slave_opens: "pty_reachable s \<Longrightarrow> pty_reachable (s\<lparr>slave_open := True\<rparr>)"
| slave_closes: "pty_reachable s \<Longrightarrow> pty_reachable (s\<lparr>slave_open := False\<rparr>)"
| master_closes: "pty_reachable s \<Longrightarrow> pty_reachable (s\<lparr>master_open := False\<rparr>)"
| controls: "pty_reachable s \<Longrightarrow> (\<forall>u a n bs. cf u a n = Some bs \<longrightarrow> length bs = n) \<Longrightarrow>
    pty_reachable (fst (snd (pty_ioctl cf ct ids pad m cmd arg s (u :: user_mem))))"

lemma pty_reachable_inv: "pty_reachable s \<Longrightarrow> pty_ok s"
proof (induction rule: pty_reachable.induct)
  case (created i)
  then show ?case by (simp add: PtyState_new_def pty_ok_def termios_default_def)
next
  case (controls s cf ct ids pad m cmd arg u)
  then show ?case by (intro pty_ioctl_ok) auto
qed (simp_all add: write_master_ok, simp_all add: pty_ok_def)

section \<open>Line editing\<close>

definition erase_char :: "termios \<Rightarrow> u8 \<Rightarrow> bool" where
  "erase_char t b \<longleftrightarrow> b = c_cc t ! 2 \<and> c_cc t ! 2 \<noteq> 0 \<or> b = 0x7F \<or> b = 0x08"

definition eof_char :: "termios \<Rightarrow> u8 \<Rightarrow> bool" where
  "eof_char t b \<longleftrightarrow> b = c_cc t ! 4 \<and> c_cc t ! 4 \<noteq> 0"

definition sig_char :: "termios \<Rightarrow> u8 \<Rightarrow> bool" where
  "sig_char t b \<longleftrightarrow> c_lflag t AND ISIG \<noteq> 0 \<and> (\<exists>i\<in>{0, 1, 10}. b = c_cc t ! i \<and> c_cc t ! i \<noteq> 0)"

definition plain :: "termios \<Rightarrow> u8 \<Rightarrow> bool" where
  "plain t b \<longleftrightarrow> b \<noteq> CR \<and> b \<noteq> LF \<and> \<not> sig_char t b \<and> (erase_char t b \<or> \<not> eof_char t b)"

text \<open>The text a line stands for, read from its end: every erase character cancels the nearest
  character before it that is still there.  The number counts the erases left over at the start.\<close>

primrec edited :: "(u8 \<Rightarrow> bool) \<Rightarrow> bytes \<Rightarrow> nat \<times> bytes" where
  "edited er [] = (0, [])"
| "edited er (b # bs) =
    (case edited er bs of (k, out) \<Rightarrow>
       if er b then (Suc k, out) else if 0 < k then (k - 1, out) else (0, b # out))"

lemma master_byte_canon:
  assumes "c_lflag t AND ICANON \<noteq> 0" "\<not> sig_char t b"
  shows "master_byte t b p = (canon_byte t b (fst p), snd p)"
  using assms by (auto simp: master_byte_def sig_char_def Let_def)

lemma canon_byte_plain:
  assumes "plain t b"
  shows "line_buf (canon_byte t b s) = (if erase_char t b then butlast (line_buf s) else line_buf s @ [b])"
    "master_to_slave (canon_byte t b s) = master_to_slave s"
  using assms unfolding canon_byte_def Let_def plain_def erase_char_def eof_char_def by auto

lemma canon_byte_newline:
  assumes "\<not> erase_char t LF" "\<not> eof_char t LF"
  shows "line_buf (canon_byte t LF s) = []"
    "master_to_slave (canon_byte t LF s) = master_to_slave s @ line_buf s @ [LF]"
  using assms unfolding canon_byte_def Let_def erase_char_def eof_char_def by auto

lemma take_snoc_less: "0 < k \<Longrightarrow> take (Suc (length xs) - k) (xs @ [b]) = take (length xs - (k - 1)) xs"
  by (cases k) auto

lemma take_butlast_less: "take (length xs - Suc k) (butlast xs) = take (length xs - Suc k) xs"
  by (cases xs rule: rev_cases) auto

lemma edit_line:
  assumes "c_lflag t AND ICANON \<noteq> 0"
  shows "\<forall>b\<in>set bs. plain t b \<Longrightarrow> \<exists>s'. fold (master_byte t) bs (s, sg) = (s', sg) \<and>
    master_to_slave s' = master_to_slave s \<and>
    line_buf s' = take (length (line_buf s) - fst (edited (erase_char t) bs)) (line_buf s) @ snd (edited (erase_char t) bs)"
proof (induction bs arbitrary: s)
  case (Cons b bs)
  have pl: "plain t b" and rest: "\<forall>b\<in>set bs. plain t b" using Cons.prems by auto
  let ?s = "canon_byte t b s"
  have "master_byte t b (s, sg) = (?s, sg)"
    using master_byte_canon [OF assms] pl by (auto simp: plain_def)
  moreover obtain s' where "fold (master_byte t) bs (?s, sg) = (s', sg)" "master_to_slave s' = master_to_slave ?s"
    "line_buf s' = take (length (line_buf ?s) - fst (edited (erase_char t) bs)) (line_buf ?s) @ snd (edited (erase_char t) bs)"
    using Cons.IH [OF rest, of ?s] by blast
  ultimately show ?case
    using canon_byte_plain [OF pl, of s]
    by (cases "edited (erase_char t) bs"; cases "erase_char t b")
      (auto simp: take_snoc_less take_butlast_less simp del: take_append)
qed simp

text \<open>C21.  In canonical mode, typing a line of ordinary and erase characters and then a newline hands
  the reader exactly the text the line stands for when read from its end, each erase cancelling the
  nearest character before it and the ones left over eating into what was typed earlier, followed by
  the newline; nothing stays in the editing buffer and no signal is sent.\<close>

theorem canonical_line_edit:
  fixes s bs
  defines "t \<equiv> pty_termios s" and "k \<equiv> fst (edited (erase_char (pty_termios s)) bs)"
  assumes "c_lflag t AND ICANON \<noteq> 0" "\<forall>b\<in>set bs. plain t b"
    "\<not> sig_char t LF" "\<not> erase_char t LF" "\<not> eof_char t LF"
  shows "master_to_slave (fst (write_master (bs @ [LF]) s)) =
      master_to_slave s @ take (length (line_buf s) - k) (line_buf s) @ snd (edited (erase_char t) bs) @ [LF] \<and>
    line_buf (fst (write_master (bs @ [LF]) s)) = [] \<and> snd (write_master (bs @ [LF]) s) = []"
proof -
  obtain s' where s': "fold (master_byte t) bs (s, []) = (s', [])" "master_to_slave s' = master_to_slave s"
    "line_buf s' = take (length (line_buf s) - k) (line_buf s) @ snd (edited (erase_char t) bs)"
    using edit_line [OF assms(3,4), of s "[]"] unfolding k_def t_def by blast
  have "write_master (bs @ [LF]) s = (canon_byte t LF s', [])"
    using s'(1) master_byte_canon [OF assms(3,5), of "(s', [])"] by (simp add: write_master_def t_def)
  then show ?thesis using canon_byte_newline [OF assms(6,7), of s'] s'(2,3) by simp
qed

lemma default_specials:
  "sig_char termios_default b \<longleftrightarrow> b = 3 \<or> b = 28 \<or> b = 26" "erase_char termios_default b \<longleftrightarrow> b = 0x7F \<or> b = 8"
  "eof_char termios_default b \<longleftrightarrow> b = 4" "c_lflag termios_default AND ICANON \<noteq> 0"
  by (auto simp: sig_char_def erase_char_def eof_char_def termios_default_def ISIG_def ICANON_def ECHO_def
      ECHOE_def ECHOK_def ECHOCTL_def ECHOKE_def IEXTEN_def nth_append)

theorem canonical_line_edit_witness:
  "master_to_slave (fst (write_master [0x6C, 0x78, 0x7F, 0x73, LF] (PtyState_new 0))) = [0x6C, 0x73, LF]"
  using canonical_line_edit [of "PtyState_new 0" "[0x6C, 0x78, 0x7F, 0x73]"]
  by (simp add: PtyState_new_def default_specials plain_def)

text \<open>An end-of-file character on an empty line does nothing, so a waiting reader keeps waiting.\<close>

lemma eof_on_empty_line_ignored:
  assumes "c_lflag (pty_termios s) AND ICANON \<noteq> 0" "eof_char (pty_termios s) b"
    "\<not> sig_char (pty_termios s) b" "\<not> erase_char (pty_termios s) b" "line_buf s = []"
  shows "write_master [b] s = (s, [])"
  using assms by (simp add: write_master_def master_byte_canon)
    (simp add: canon_byte_def Let_def erase_char_def eof_char_def)

text \<open>The kill character of the default settings is entered into the line instead of erasing it.\<close>

lemma kill_char_inserted: "line_buf (fst (write_master [0x61, 21] (PtyState_new i))) = [0x61, 21]"
proof -
  have "\<forall>b\<in>set [0x61, 21]. plain termios_default b" by (simp add: plain_def default_specials)
  from edit_line [OF default_specials(4) this, of "PtyState_new i" "[]"] show ?thesis
    by (auto simp: write_master_def PtyState_new_def default_specials)
qed

section \<open>Streams\<close>

definition slave_put :: "bytes \<Rightarrow> pty_state \<Rightarrow> pty_state" where
  "slave_put bs s = snd (write_slave bs s)"

definition master_put :: "bytes \<Rightarrow> pty_state \<Rightarrow> pty_state" where
  "master_put bs s = fst (write_master bs s)"

text \<open>A read that would block returns no bytes.\<close>

definition master_get :: "nat \<Rightarrow> pty_state \<Rightarrow> bytes \<times> pty_state" where
  "master_get n s = (case read_master n s of (Ok bs, s') \<Rightarrow> (bs, s') | (_, s') \<Rightarrow> ([], s'))"

definition slave_get :: "nat \<Rightarrow> pty_state \<Rightarrow> bytes \<times> pty_state" where
  "slave_get n s = (case read_slave n s of (Ok bs, s') \<Rightarrow> (bs, s') | (_, s') \<Rightarrow> ([], s'))"

definition output_enc :: "bool \<Rightarrow> bytes \<Rightarrow> bytes" where
  "output_enc onlcr bs = concat (map (nl_echo onlcr) bs)"

definition input_enc :: "bool \<Rightarrow> bytes \<Rightarrow> bytes" where
  "input_enc icrnl bs = map (\<lambda>b. if b = CR \<and> icrnl then LF else b) bs"

definition output_ok :: "bool \<Rightarrow> pty_state \<Rightarrow> bool" where
  "output_ok onlcr s \<longleftrightarrow> master_open s \<and> (c_oflag (pty_termios s) AND ONLCR \<noteq> 0) = onlcr"

definition raw_input_ok :: "bool \<Rightarrow> pty_state \<Rightarrow> bool" where
  "raw_input_ok icrnl s \<longleftrightarrow> c_lflag (pty_termios s) AND ICANON = 0 \<and> c_lflag (pty_termios s) AND ISIG = 0 \<and>
    (c_iflag (pty_termios s) AND ICRNL \<noteq> 0) = icrnl"

lemma write_slave_queue:
  "slave_to_master (fold (slave_byte on) bs s) = slave_to_master s @ output_enc on bs"
  by (induction bs arbitrary: s) (auto simp: slave_byte_def output_enc_def nl_echo_def)

interpretation output_stream: byte_queue "output_ok on" slave_to_master "output_enc on" slave_put master_get for on
proof
  fix s :: pty_state and bs n
  assume s: "output_ok on s"
  show "output_ok on (slave_put bs s)" using s by (simp add: output_ok_def slave_put_def)
  show "slave_to_master (slave_put bs s) = slave_to_master s @ output_enc on bs"
    using s by (auto simp: output_ok_def slave_put_def write_slave_def write_slave_queue)
  show "output_ok on (snd (master_get n s))" "fst (master_get n s) = take n (slave_to_master s)"
    "slave_to_master (snd (master_get n s)) = drop n (slave_to_master s)"
    using s by (auto simp: output_ok_def master_get_def read_master_def Let_def min_def)
qed

lemma raw_byte_queue:
  assumes "c_lflag t AND ICANON = 0" "c_lflag t AND ISIG = 0"
  shows "pty_termios (fst (fold (master_byte t) bs p)) = pty_termios (fst p) \<and>
    master_to_slave (fst (fold (master_byte t) bs p)) =
      master_to_slave (fst p) @ input_enc (c_iflag t AND ICRNL \<noteq> 0) bs"
  using assms
  by (induction bs arbitrary: p) (simp_all add: master_byte_def raw_mode_byte_def input_enc_def Let_def)

interpretation raw_input: byte_queue "raw_input_ok on" master_to_slave "input_enc on" master_put slave_get for on
proof
  fix s :: pty_state and bs n
  assume s: "raw_input_ok on s"
  then have w: "pty_termios (master_put bs s) = pty_termios s"
    "master_to_slave (master_put bs s) = master_to_slave s @ input_enc on bs"
    using raw_byte_queue [of "pty_termios s" bs "(s, [])"]
    by (auto simp: raw_input_ok_def master_put_def write_master_def)
  then show "raw_input_ok on (master_put bs s)" using s by (simp add: raw_input_ok_def)
  show "master_to_slave (master_put bs s) = master_to_slave s @ input_enc on bs" by (rule w(2))
  show "raw_input_ok on (snd (slave_get n s))" "fst (slave_get n s) = take n (master_to_slave s)"
    "master_to_slave (snd (slave_get n s)) = drop n (master_to_slave s)"
    using s by (auto simp: raw_input_ok_def slave_get_def read_slave_def Let_def min_def)
qed





section \<open>Settings and table\<close>

lemma winsize_roundtrip: "winsize_of (winsize_bytes w) = w"
  by (cases w) (simp add: winsize_of_def winsize_bytes_def le_simps)

lemma termios_roundtrip:
  assumes "length (c_cc t) = 32" "length pad = 3"
  shows "termios_of (termios_bytes pad t) = t"
  using assms by (cases t) (simp add: termios_of_def termios_bytes_def le_simps nth_append)

text \<open>Every entry of the table refers to its own state, and that state has an open end.\<close>

definition world_ok :: "pty_world \<Rightarrow> bool" where
  "world_ok w \<longleftrightarrow> bt_inv (PTY_TABLE w) \<and>
    (\<forall>i r. get_pty i w = Some r \<longrightarrow> r < length (ptys w) \<and> pty_id (ptys w ! r) = i \<and>
      (master_open (ptys w ! r) \<or> slave_open (ptys w ! r)))"

lemma create_pty_ok:
  assumes "world_ok w" "get_pty (NEXT_PTY_ID w) w = None"
  shows "\<exists>w'. create_pty w = ((NEXT_PTY_ID w, length (ptys w)), w') \<and> world_ok w' \<and>
    (\<forall>j. get_pty j w' = ((\<lambda>j. get_pty j w)(NEXT_PTY_ID w \<mapsto> length (ptys w))) j) \<and>
    (\<forall>r < length (ptys w). ptys w' ! r = ptys w ! r)"
  using assms unfolding create_pty_def Let_def
  by (auto simp: world_ok_def get_pty_def bt_get_insert bt_inv_insert nth_append PtyState_new_def less_Suc_eq)

text \<open>Closing one end removes the pair exactly when the other end is closed, and touches no other pair.\<close>

lemma close_master_ok:
  assumes w: "world_ok w" and i: "get_pty i w = Some r"
  shows "world_ok (close_master i w)" "ptys (close_master i w) = (ptys w)[r := (ptys w ! r)\<lparr>master_open := False\<rparr>]"
    "get_pty j (close_master i w) = (if j = i \<and> \<not> slave_open (ptys w ! r) then None else get_pty j w)"
proof -
  have r: "r < length (ptys w)" "pty_id (ptys w ! r) = i" using w i by (auto simp: world_ok_def)
  show p: "ptys (close_master i w) = (ptys w)[r := (ptys w ! r)\<lparr>master_open := False\<rparr>]"
    using i by (simp add: close_master_def get_pty_def modify_pty_def Let_def)
  show g: "get_pty j (close_master i w) = (if j = i \<and> \<not> slave_open (ptys w ! r) then None else get_pty j w)" for j
    using i r by (auto simp: close_master_def get_pty_def modify_pty_def Let_def bt_get_remove)
  have "bt_inv (PTY_TABLE (close_master i w))"
    using w i by (auto simp: world_ok_def close_master_def get_pty_def modify_pty_def Let_def intro: bt_inv_remove)
  then show "world_ok (close_master i w)"
    using w i r by (auto simp: world_ok_def g p nth_list_update split: if_splits)
qed

lemma close_slave_ok:
  assumes w: "world_ok w" and i: "get_pty i w = Some r"
  shows "world_ok (close_slave i w)" "ptys (close_slave i w) = (ptys w)[r := (ptys w ! r)\<lparr>slave_open := False\<rparr>]"
    "get_pty j (close_slave i w) = (if j = i \<and> \<not> master_open (ptys w ! r) then None else get_pty j w)"
proof -
  have r: "r < length (ptys w)" "pty_id (ptys w ! r) = i" using w i by (auto simp: world_ok_def)
  show p: "ptys (close_slave i w) = (ptys w)[r := (ptys w ! r)\<lparr>slave_open := False\<rparr>]"
    using i by (simp add: close_slave_def get_pty_def modify_pty_def Let_def)
  show g: "get_pty j (close_slave i w) = (if j = i \<and> \<not> master_open (ptys w ! r) then None else get_pty j w)" for j
    using i r by (auto simp: close_slave_def get_pty_def modify_pty_def Let_def bt_get_remove)
  have "bt_inv (PTY_TABLE (close_slave i w))"
    using w i by (auto simp: world_ok_def close_slave_def get_pty_def modify_pty_def Let_def intro: bt_inv_remove)
  then show "world_ok (close_slave i w)"
    using w i r by (auto simp: world_ok_def g p nth_list_update split: if_splits)
qed

lemma close_both:
  assumes "world_ok w" "get_pty i w = Some r" "slave_open (ptys w ! r)"
  shows "get_pty j (close_slave i (close_master i w)) = (if j = i then None else get_pty j w)"
proof -
  note m = close_master_ok [OF assms(1,2)]
  have g: "get_pty i (close_master i w) = Some r" using m(3) assms by simp
  have r: "r < length (ptys w)" using assms(1,2) by (auto simp: world_ok_def)
  show ?thesis using close_slave_ok(3) [OF m(1) g, of j] m(2,3) r assms(3) by simp
qed

end
