(* ===== verification/Timer.thy ===== *)
theory Timer
  imports Prelude "HOL-Library.Multiset"
begin

text \<open>
  The timer wheel and the clocks (\<open>rust/kernel/src/timer.rs\<close>).  Timers hang in one of four
  levels of slots or in an overflow list, by distance to their target tick, and cascade towards
  level 0 as time advances.  The abstract view is the multiset of pending timers: a tick takes out
  exactly those whose target is the new tick.  The registers of the real-time clock are an argument
  of the function that decodes them.
\<close>

section \<open>State\<close>

definition LVL0_SPAN :: u64 where
  "LVL0_SPAN = 256"
definition LVL1_SPAN :: u64 where
  "LVL1_SPAN = 16384"
definition LVL2_SPAN :: u64 where
  "LVL2_SPAN = 1048576"
definition LVL3_SPAN :: u64 where
  "LVL3_SPAN = 67108864"

datatype timer_kind = Sleep (sleep_tid: u64) | ITimerReal (it_pid: u64) (interval_ticks: u64)

record timer_entry =
  te_id :: u64
  target_tick :: u64
  te_kind :: timer_kind

type_synonym slots = "timer_entry list list"

record timer_wheel =
  current_tick :: u64
  level0 :: slots
  level1 :: slots
  level2 :: slots
  level3 :: slots
  overflow :: "timer_entry list"
  next_timer_id :: u64

definition TimerWheel_new :: timer_wheel where
  "TimerWheel_new = \<lparr>current_tick = 0, level0 = replicate 256 [], level1 = replicate 64 [],
     level2 = replicate 64 [], level3 = replicate 64 [], overflow = [], next_timer_id = 1\<rparr>"

section \<open>The wheel\<close>

definition slot0 :: "u64 \<Rightarrow> nat" where
  "slot0 t = unat (t AND 0xFF)"
definition slot1 :: "u64 \<Rightarrow> nat" where
  "slot1 t = unat (drop_bit 8 t AND 0x3F)"
definition slot2 :: "u64 \<Rightarrow> nat" where
  "slot2 t = unat (drop_bit 14 t AND 0x3F)"
definition slot3 :: "u64 \<Rightarrow> nat" where
  "slot3 t = unat (drop_bit 20 t AND 0x3F)"

definition push_slot :: "nat \<Rightarrow> timer_entry \<Rightarrow> slots \<Rightarrow> slots" where
  "push_slot i e ls = ls[i := ls ! i @ [e]]"

definition reinsert :: "timer_entry \<Rightarrow> timer_wheel \<Rightarrow> timer_wheel" where
  "reinsert e w =
    (let t = target_tick e; delta = saturating_sub t (current_tick w) in
     if delta < LVL0_SPAN then w\<lparr>level0 := push_slot (slot0 t) e (level0 w)\<rparr>
     else if delta < LVL1_SPAN then w\<lparr>level1 := push_slot (slot1 t) e (level1 w)\<rparr>
     else if delta < LVL2_SPAN then w\<lparr>level2 := push_slot (slot2 t) e (level2 w)\<rparr>
     else if delta < LVL3_SPAN then w\<lparr>level3 := push_slot (slot3 t) e (level3 w)\<rparr>
     else w\<lparr>overflow := overflow w @ [e]\<rparr>)"

definition add_timer :: "u64 \<Rightarrow> timer_kind \<Rightarrow> timer_wheel \<Rightarrow> u64 \<times> timer_wheel" where
  "add_timer target k w =
    (let i = next_timer_id w in
     (i, reinsert \<lparr>te_id = i, target_tick = target, te_kind = k\<rparr> (w\<lparr>next_timer_id := i + 1\<rparr>)))"

text \<open>\<open>Vec::swap_remove\<close>: the last element takes the place of the removed one.\<close>

definition swap_remove :: "nat \<Rightarrow> 'a list \<Rightarrow> 'a list" where
  "swap_remove i xs = (if Suc i = length xs then butlast xs else (butlast xs)[i := last xs])"

lemma length_swap_remove [simp]: "length (swap_remove i xs) = length xs - 1"
  by (simp add: swap_remove_def)

lemma overflow_reinsert:
  "saturating_sub (target_tick e) (current_tick w) < LVL3_SPAN \<Longrightarrow> overflow (reinsert e w) = overflow w"
  by (auto simp: reinsert_def Let_def)

text \<open>The promotion loop over the overflow list.\<close>

function promote :: "nat \<Rightarrow> timer_wheel \<Rightarrow> timer_wheel" where
  "promote i w =
    (if i < length (overflow w) then
       (let e = overflow w ! i in
        if saturating_sub (target_tick e) (current_tick w) < LVL3_SPAN
        then promote i (reinsert e (w\<lparr>overflow := swap_remove i (overflow w)\<rparr>))
        else promote (i + 1) w)
     else w)"
  by pat_completeness auto
termination
  by (relation "measure (\<lambda>(i, w). length (overflow w) - i)") (auto simp: overflow_reinsert)

declare promote.simps [simp del]

definition cascade1 :: "timer_wheel \<Rightarrow> timer_wheel" where
  "cascade1 w =
    (let t = current_tick w; s = slot1 t in
     if t AND 0xFF = 0 then fold reinsert (level1 w ! s) (w\<lparr>level1 := (level1 w)[s := []]\<rparr>) else w)"

definition cascade2 :: "timer_wheel \<Rightarrow> timer_wheel" where
  "cascade2 w =
    (let t = current_tick w; s = slot2 t in
     if t AND 0x3FFF = 0 then fold reinsert (level2 w ! s) (w\<lparr>level2 := (level2 w)[s := []]\<rparr>) else w)"

definition cascade3 :: "timer_wheel \<Rightarrow> timer_wheel" where
  "cascade3 w =
    (let t = current_tick w; s = slot3 t in
     if t AND 0xFFFFF = 0
     then promote 0 (fold reinsert (level3 w ! s) (w\<lparr>level3 := (level3 w)[s := []]\<rparr>)) else w)"

definition advance_tick :: "timer_wheel \<Rightarrow> timer_entry list \<times> timer_wheel" where
  "advance_tick w0 =
    (let w = cascade3 (cascade2 (cascade1 (w0\<lparr>current_tick := current_tick w0 + 1\<rparr>)));
         t = current_tick w; s = slot0 t; due = level0 w ! s in
     (filter (\<lambda>e. target_tick e \<le> t) due,
      w\<lparr>level0 := (level0 w)[s := filter (\<lambda>e. \<not> target_tick e \<le> t) due]\<rparr>))"

section \<open>Cancelling and inspecting\<close>

text \<open>\<open>position\<close> and \<open>remove\<close> on the slots of a level, in order.\<close>

fun take_first :: "('a \<Rightarrow> bool) \<Rightarrow> 'a list \<Rightarrow> ('a \<times> 'a list) option" where
  "take_first P [] = None"
| "take_first P (x # xs) =
    (if P x then Some (x, xs) else map_option (\<lambda>(y, ys). (y, x # ys)) (take_first P xs))"

fun take_slots :: "('a \<Rightarrow> bool) \<Rightarrow> 'a list list \<Rightarrow> ('a \<times> 'a list list) option" where
  "take_slots P [] = None"
| "take_slots P (s # ss) =
    (case take_first P s of
      Some (x, s') \<Rightarrow> Some (x, s' # ss)
    | None \<Rightarrow> map_option (\<lambda>(y, ys). (y, s # ys)) (take_slots P ss))"

definition take_timer :: "(timer_entry \<Rightarrow> bool) \<Rightarrow> timer_wheel \<Rightarrow> (timer_entry \<times> timer_wheel) option" where
  "take_timer P w =
    (case take_slots P (level0 w) of Some (e, l) \<Rightarrow> Some (e, w\<lparr>level0 := l\<rparr>)
     | None \<Rightarrow> (case take_slots P (level1 w) of Some (e, l) \<Rightarrow> Some (e, w\<lparr>level1 := l\<rparr>)
     | None \<Rightarrow> (case take_slots P (level2 w) of Some (e, l) \<Rightarrow> Some (e, w\<lparr>level2 := l\<rparr>)
     | None \<Rightarrow> (case take_slots P (level3 w) of Some (e, l) \<Rightarrow> Some (e, w\<lparr>level3 := l\<rparr>)
     | None \<Rightarrow> (case take_first P (overflow w) of Some (e, l) \<Rightarrow> Some (e, w\<lparr>overflow := l\<rparr>)
     | None \<Rightarrow> None)))))"

definition is_sleep :: "u64 \<Rightarrow> timer_entry \<Rightarrow> bool" where
  "is_sleep i e = (case te_kind e of Sleep t \<Rightarrow> t = i | _ \<Rightarrow> False)"

definition is_itimer :: "u64 \<Rightarrow> timer_entry \<Rightarrow> bool" where
  "is_itimer i e = (case te_kind e of ITimerReal p _ \<Rightarrow> p = i | _ \<Rightarrow> False)"

definition itimer_left :: "timer_wheel \<Rightarrow> timer_entry \<Rightarrow> u64 \<times> u64" where
  "itimer_left w e = (interval_ticks (te_kind e), saturating_sub (target_tick e) (current_tick w))"

definition wheel_cancel_sleep_timer :: "u64 \<Rightarrow> timer_wheel \<Rightarrow> u64 option \<times> timer_wheel" where
  "wheel_cancel_sleep_timer i w =
    (case take_timer (is_sleep i) w of Some (e, w') \<Rightarrow> (Some (target_tick e), w') | None \<Rightarrow> (None, w))"

definition wheel_cancel_itimer :: "u64 \<Rightarrow> timer_wheel \<Rightarrow> (u64 \<times> u64) option \<times> timer_wheel" where
  "wheel_cancel_itimer i w =
    (case take_timer (is_itimer i) w of Some (e, w') \<Rightarrow> (Some (itimer_left w e), w') | None \<Rightarrow> (None, w))"

definition wheel_get_itimer :: "u64 \<Rightarrow> timer_wheel \<Rightarrow> (u64 \<times> u64) option" where
  "wheel_get_itimer i w = map_option (itimer_left w)
    (find (is_itimer i) (concat (level0 w @ level1 w @ level2 w @ level3 w) @ overflow w))"

definition rearm_itimer_entry :: "u64 \<Rightarrow> u64 \<Rightarrow> timer_wheel \<Rightarrow> timer_wheel" where
  "rearm_itimer_entry entry_id target w =
    (case take_slots (\<lambda>e. te_id e = entry_id) (level0 w) of
      Some (e, l) \<Rightarrow> reinsert (e\<lparr>target_tick := target\<rparr>) (w\<lparr>level0 := l\<rparr>)
    | None \<Rightarrow>
       (case take_slots (\<lambda>e. te_id e = entry_id) (level1 w) of
         Some (e, l) \<Rightarrow> reinsert (e\<lparr>target_tick := target\<rparr>) (w\<lparr>level1 := l\<rparr>)
       | None \<Rightarrow> w))"

section \<open>Clocks\<close>

text \<open>The global timer state; \<open>REALTIME_BASE_SEC\<close> is an \<open>i64\<close>, kept as its bits.\<close>

record timer_state =
  WHEEL :: timer_wheel
  GLOBAL_TICKS :: u64
  REALTIME_BASE_SEC :: u64
  RTC_INITIALIZED :: bool

definition timer_init :: timer_state where
  "timer_init = \<lparr>WHEEL = TimerWheel_new, GLOBAL_TICKS = 0, REALTIME_BASE_SEC = 1789100000, RTC_INITIALIZED = False\<rparr>"

definition tick :: "timer_state \<Rightarrow> timer_entry list \<times> timer_state" where
  "tick s = (let (es, w) = advance_tick (WHEEL s) in (es, s\<lparr>GLOBAL_TICKS := GLOBAL_TICKS s + 1, WHEEL := w\<rparr>))"

definition add_sleep_timer :: "u64 \<Rightarrow> u64 \<Rightarrow> timer_state \<Rightarrow> u64 \<times> timer_state" where
  "add_sleep_timer i duration_ms s =
    (let target = saturating_add (current_tick (WHEEL s)) (max duration_ms 1) in
     (target, s\<lparr>WHEEL := snd (add_timer target (Sleep i) (WHEEL s))\<rparr>))"

definition cancel_sleep_timer :: "u64 \<Rightarrow> timer_state \<Rightarrow> u64 option \<times> timer_state" where
  "cancel_sleep_timer i s = (let (r, w) = wheel_cancel_sleep_timer i (WHEEL s) in (r, s\<lparr>WHEEL := w\<rparr>))"

definition set_itimer :: "u64 \<Rightarrow> u32 \<Rightarrow> u64 \<Rightarrow> u64 \<Rightarrow> timer_state \<Rightarrow> (u64 \<times> u64) \<times> timer_state" where
  "set_itimer p which interval_ms value_ms s =
    (let (r, w) = wheel_cancel_itimer p (WHEEL s);
         old = (case r of Some x \<Rightarrow> x | None \<Rightarrow> (0, 0));
         w' = (if 0 < value_ms \<and> which = 0
               then snd (add_timer (saturating_add (current_tick w) value_ms) (ITimerReal p interval_ms) w)
               else w) in
     (old, s\<lparr>WHEEL := w'\<rparr>))"

definition get_itimer :: "u64 \<Rightarrow> u32 \<Rightarrow> timer_state \<Rightarrow> u64 \<times> u64" where
  "get_itimer p which s =
    (if which \<noteq> 0 then (0, 0) else case wheel_get_itimer p (WHEEL s) of Some x \<Rightarrow> x | None \<Rightarrow> (0, 0))"

definition rearm_itimer :: "u64 \<Rightarrow> u64 \<Rightarrow> timer_state \<Rightarrow> timer_state" where
  "rearm_itimer entry_id interval s =
    s\<lparr>WHEEL := rearm_itimer_entry entry_id (saturating_add (current_tick (WHEEL s)) interval) (WHEEL s)\<rparr>"

text \<open>The registers of the real-time clock.  \<open>busy\<close> tells, for each poll, whether an update is in progress;
  the wait gives up after 10001 polls.\<close>

record rtc_regs =
  rtc_sec :: u8
  rtc_min :: u8
  rtc_hour :: u8
  rtc_day :: u8
  rtc_month :: u8
  rtc_year :: u8
  rtc_century :: u8
  reg_b :: u8

definition rtc_decode :: "bool \<Rightarrow> u8 \<Rightarrow> u32" where
  "rtc_decode is_bcd v = (if is_bcd then ucast (drop_bit 4 v * 10 + (v AND 0x0F)) else ucast v)"

definition year_days :: "nat \<Rightarrow> u64" where
  "year_days y = (if y mod 4 = 0 \<and> (y mod 100 \<noteq> 0 \<or> y mod 400 = 0) then 366 else 365)"

definition days_before :: "u32 \<Rightarrow> u32 \<Rightarrow> u32" where
  "days_before month leap =
    (if month = 1 then 0 else if month = 2 then 31 else if month = 3 then 59 + leap
     else if month = 4 then 90 + leap else if month = 5 then 120 + leap else if month = 6 then 151 + leap
     else if month = 7 then 181 + leap else if month = 8 then 212 + leap else if month = 9 then 243 + leap
     else if month = 10 then 273 + leap else if month = 11 then 304 + leap else if month = 12 then 334 + leap
     else 0)"

definition rtc_seconds :: "rtc_regs \<Rightarrow> u64 option" where
  "rtc_seconds r =
    (let is_bcd = reg_b r AND 0x04 = 0;
         sec = rtc_decode is_bcd (rtc_sec r);
         mn = rtc_decode is_bcd (rtc_min r);
         hour0 = rtc_decode is_bcd (rtc_hour r AND 0x7F);
         hour = (if reg_b r AND 0x02 = 0 \<and> hour0 AND 0x80 \<noteq> 0 then ((hour0 AND 0x7F) + 12) mod 24 else hour0);
         day = rtc_decode is_bcd (rtc_day r);
         month = rtc_decode is_bcd (rtc_month r);
         year = rtc_decode is_bcd (rtc_year r);
         century = rtc_decode is_bcd (rtc_century r);
         full_year = (if 19 \<le> century \<and> century \<le> 22 then century * 100 + year
                      else if 70 \<le> year then 1900 + year else 2000 + year) in
     if month < 1 \<or> 12 < month \<or> day < 1 \<or> 31 < day \<or> 23 < hour \<or> 59 < mn \<or> 59 < sec then None
     else
       (let leap = (if year_days (unat full_year) = 366 then 1 else 0);
            days = sum_list (map year_days [1970..<unat full_year]) + ucast (days_before month leap) + ucast (day - 1) in
        Some (days * 86400 + ucast hour * 3600 + ucast mn * 60 + ucast sec)))"

definition read_rtc_seconds :: "(nat \<Rightarrow> bool) \<Rightarrow> rtc_regs \<Rightarrow> u64 option" where
  "read_rtc_seconds busy r = (if list_ex (\<lambda>i. \<not> busy i) [0..<10001] then rtc_seconds r else None)"

definition sync_rtc_if_needed :: "u64 option \<Rightarrow> timer_state \<Rightarrow> timer_state" where
  "sync_rtc_if_needed rtc s =
    (if RTC_INITIALIZED s then s
     else
       (case rtc of
         Some sec \<Rightarrow>
           if 1700000000 \<le> sec then s\<lparr>RTC_INITIALIZED := True, REALTIME_BASE_SEC := sec\<rparr>
           else s\<lparr>RTC_INITIALIZED := True\<rparr>
       | None \<Rightarrow> s\<lparr>RTC_INITIALIZED := True\<rparr>))"

definition get_clock_time :: "u64 option \<Rightarrow> u64 \<Rightarrow> u64 \<Rightarrow> timer_state \<Rightarrow> (u64 \<times> u64) \<times> timer_state" where
  "get_clock_time rtc cpu_ms clock_id s =
    (let ms = GLOBAL_TICKS s; sec = ms div 1000; nsec = (ms mod 1000) * 1000000 in
     if clock_id = 0 then
       (let s' = sync_rtc_if_needed rtc s in ((REALTIME_BASE_SEC s' + sec, nsec), s'))
     else if clock_id = 2 \<or> clock_id = 3 then ((cpu_ms div 1000, (cpu_ms mod 1000) * 1000000), s)
     else ((sec, nsec), s))"

definition set_clock_time :: "u64 \<Rightarrow> u64 \<Rightarrow> timer_state \<Rightarrow> (unit, unit) outcome \<times> timer_state" where
  "set_clock_time clock_id sec s =
    (if clock_id \<noteq> 0 then (Err (), s)
     else (Ok (), s\<lparr>REALTIME_BASE_SEC := sec - GLOBAL_TICKS s div 1000\<rparr>))"

section \<open>Invariant\<close>

abbreviation due_at :: "timer_entry \<Rightarrow> nat" where
  "due_at e \<equiv> unat (target_tick e)"

text \<open>Slots are residues of the target.\<close>

lemma unat_and_mask: "unat (x AND mask n :: 'a::len word) = unat x mod 2 ^ n"
proof -
  have "unat (x AND mask n) = unat (take_bit n x)" by (simp add: take_bit_eq_mask)
  also have "\<dots> = take_bit n (unat x)" by (simp add: unsigned_take_bit_eq)
  finally show ?thesis by (simp add: take_bit_eq_mod)
qed

lemma unat_and_ones:
  "unat ((x :: u64) AND 0x3F) = unat x mod 64" "unat (x AND 0xFF) = unat x mod 256"
  "unat (x AND 0x3FFF) = unat x mod 16384" "unat (x AND 0xFFFFF) = unat x mod 1048576"
  using unat_and_mask [of x 6] unat_and_mask [of x 8] unat_and_mask [of x 14] unat_and_mask [of x 20]
  by (simp_all add: mask_eq_exp_minus_1)

lemma slot_nat:
  "slot0 t = unat t mod 256" "slot1 t = unat t div 256 mod 64"
  "slot2 t = unat t div 16384 mod 64" "slot3 t = unat t div 1048576 mod 64"
  by (simp_all add: slot0_def slot1_def slot2_def slot3_def unat_and_ones drop_bit_eq_div unat_div)

lemma rollover_nat:
  "(t :: u64) AND 0xFF = 0 \<longleftrightarrow> unat t mod 256 = 0" "t AND 0x3FFF = 0 \<longleftrightarrow> unat t mod 16384 = 0"
  "t AND 0xFFFFF = 0 \<longleftrightarrow> unat t mod 1048576 = 0"
  unfolding unat_and_ones [symmetric] by (simp_all add: unat_eq_zero)

text \<open>A level with slots of \<open>B\<close> ticks whose block \<open>b\<close> has been cascaded: every timer sits in the slot of
  its block, which is one of the next sixty-four.\<close>

definition level_ok :: "nat \<Rightarrow> nat \<Rightarrow> slots \<Rightarrow> bool" where
  "level_ok B b ls \<longleftrightarrow> length ls = 64 \<and>
    (\<forall>i<64. \<forall>e\<in>set (ls ! i). due_at e div B mod 64 = i \<and> b < due_at e div B \<and> due_at e div B \<le> b + 64)"

definition level0_ok :: "nat \<Rightarrow> nat \<Rightarrow> slots \<Rightarrow> bool" where
  "level0_ok lo c ls \<longleftrightarrow> length ls = 256 \<and>
    (\<forall>i<256. \<forall>e\<in>set (ls ! i). due_at e mod 256 = i \<and> lo \<le> due_at e \<and> due_at e < c + 256)"

text \<open>The invariant with the blocks the levels have been cascaded to.\<close>

definition wheel_inv :: "nat \<Rightarrow> nat \<Rightarrow> nat \<Rightarrow> nat \<Rightarrow> nat \<Rightarrow> timer_wheel \<Rightarrow> bool" where
  "wheel_inv lo b1 b2 b3 bo w \<longleftrightarrow> level0_ok lo (unat (current_tick w)) (level0 w) \<and>
    level_ok 256 b1 (level1 w) \<and> level_ok 16384 b2 (level2 w) \<and> level_ok 1048576 b3 (level3 w) \<and>
    (\<forall>e\<in>set (overflow w). bo + 64 \<le> due_at e div 1048576)"

definition wheel_ok :: "timer_wheel \<Rightarrow> bool" where
  "wheel_ok w \<longleftrightarrow> (let c = unat (current_tick w) in
     wheel_inv (c + 1) (c div 256) (c div 16384) (c div 1048576) (c div 1048576) w)"

definition slots_mset :: "slots \<Rightarrow> timer_entry multiset" where
  "slots_mset ls = mset (concat ls)"

definition pending :: "timer_wheel \<Rightarrow> timer_entry multiset" where
  "pending w = slots_mset (level0 w) + slots_mset (level1 w) + slots_mset (level2 w) + slots_mset (level3 w) +
     mset (overflow w)"

lemma slots_mset_update:
  "i < length ls \<Longrightarrow> slots_mset (ls[i := xs]) + mset (ls ! i) = slots_mset ls + mset xs"
  unfolding slots_mset_def by (induction ls arbitrary: i) (auto split: nat.split simp: ac_simps)

lemma slots_mset_push: "i < length ls \<Longrightarrow> slots_mset (push_slot i e ls) = add_mset e (slots_mset ls)"
  using slots_mset_update [of i ls "ls ! i @ [e]"] by (simp add: push_slot_def)

lemma slots_mset_clear: "i < length ls \<Longrightarrow> slots_mset ls = slots_mset (ls[i := []]) + mset (ls ! i)"
  using slots_mset_update [of i ls "[]"] by simp

lemma level_ok_push:
  assumes "level_ok B b ls" "b < due_at e div B" "due_at e div B \<le> b + 64"
  shows "level_ok B b (push_slot (due_at e div B mod 64) e ls)"
  using assms by (auto simp: level_ok_def push_slot_def nth_list_update)

lemma level0_ok_push:
  assumes "level0_ok lo c ls" "lo \<le> due_at e" "due_at e < c + 256"
  shows "level0_ok lo c (push_slot (due_at e mod 256) e ls)"
  using assms by (auto simp: level0_ok_def push_slot_def nth_list_update)

text \<open>Emptying the slot of the block just entered.\<close>

lemma level_ok_clear:
  assumes "level_ok B b ls"
  shows "level_ok B (Suc b) (ls[Suc b mod 64 := []])" "\<forall>e\<in>set (ls ! (Suc b mod 64)). due_at e div B = Suc b"
proof -
  have len: "length ls = 64" and
    mem: "\<And>i e. i < 64 \<Longrightarrow> e \<in> set (ls ! i) \<Longrightarrow> due_at e div B mod 64 = i \<and> b < due_at e div B \<and> due_at e div B \<le> b + 64"
    using assms by (auto simp: level_ok_def)
  have eq: "k = Suc b" if k: "b < k" "k \<le> b + 64" "k mod 64 = Suc b mod 64" for k :: nat
  proof (rule ccontr)
    assume "k \<noteq> Suc b"
    moreover have "64 dvd k - Suc b" using k mod_eq_dvd_iff_nat [of "Suc b" k 64] by simp
    ultimately show False using k dvd_imp_le [of 64 "k - Suc b"] by simp
  qed
  show "\<forall>e\<in>set (ls ! (Suc b mod 64)). due_at e div B = Suc b" using mem [of "Suc b mod 64"] eq by auto
  have "due_at e div B mod 64 = i \<and> Suc b < due_at e div B \<and> due_at e div B \<le> Suc b + 64"
    if i: "i < 64" and e: "e \<in> set (ls[Suc b mod 64 := []] ! i)" for i e
  proof -
    have ne: "i \<noteq> Suc b mod 64" using e i len by auto
    then have e': "e \<in> set (ls ! i)" using e by simp
    then have "due_at e div B \<noteq> Suc b" using mem [OF i e'] ne by auto
    then show ?thesis using mem [OF i e'] by auto
  qed
  then show "level_ok B (Suc b) (ls[Suc b mod 64 := []])" using len by (simp add: level_ok_def)
qed

lemma level_ok_step:
  assumes "level_ok B ((c - 1) div B) ls" "0 < c" "c mod B \<noteq> 0"
  shows "level_ok B (c div B) ls"
proof -
  have "(c - 1) div B = c div B" using assms(2,3) by (cases c) (auto simp: div_Suc)
  then show ?thesis using assms(1) by simp
qed

lemma level_ok_enter:
  assumes "level_ok B ((c - 1) div B) ls" "0 < c" "c mod B = 0" "0 < B"
  shows "level_ok B (c div B) (ls[c div B mod 64 := []])" "\<forall>e\<in>set (ls ! (c div B mod 64)). due_at e div B = c div B"
proof -
  have "c div B = Suc ((c - 1) div B)" using assms(2-4) by (cases c) (auto simp: div_Suc)
  then show "level_ok B (c div B) (ls[c div B mod 64 := []])"
    "\<forall>e\<in>set (ls ! (c div B mod 64)). due_at e div B = c div B"
    using level_ok_clear [OF assms(1)] by simp_all
qed

section \<open>Insertion\<close>

text \<open>A timer not in the past goes to the level that its distance selects; every level it may
  go to must have been cascaded already.\<close>

definition fits :: "nat \<Rightarrow> nat \<Rightarrow> nat \<Rightarrow> nat \<Rightarrow> nat \<Rightarrow> nat \<Rightarrow> bool" where
  "fits c b1 b2 b3 bo t \<longleftrightarrow> c \<le> t \<and> (t < c + 256 \<or> b1 = c div 256 \<and> (t < c + 16384 \<or> b2 = c div 16384 \<and>
     (t < c + 1048576 \<or> b3 = c div 1048576 \<and> (t < c + 67108864 \<or> bo = c div 1048576))))"

lemma block_bounds:
  fixes c t B :: nat
  assumes "c + B \<le> t" "0 < B"
  shows "c div B < t div B" "t < c + B * 64 \<Longrightarrow> t div B \<le> c div B + 64" "c + B * 64 \<le> t \<Longrightarrow> c div B + 64 \<le> t div B"
proof -
  have "Suc (c div B) = (c + B) div B" using assms(2) div_add_self2 [of B c] by simp
  also have "\<dots> \<le> t div B" using assms(1) by (rule div_le_mono)
  finally show "c div B < t div B" by simp
  have k: "(c + B * 64) div B = c div B + 64" using assms(2) div_mult_self2 [of B c 64] by simp
  show "t div B \<le> c div B + 64" if "t < c + B * 64" using div_le_mono [of t "c + B * 64" B] that k by simp
  show "c div B + 64 \<le> t div B" if "c + B * 64 \<le> t" using div_le_mono [OF that, of B] k by simp
qed

lemma reinsert_inv:
  assumes inv: "wheel_inv lo b1 b2 b3 bo w" and f: "fits (unat (current_tick w)) b1 b2 b3 bo (due_at e)"
    and lo: "lo \<le> due_at e"
  shows "wheel_inv lo b1 b2 b3 bo (reinsert e w)" "pending (reinsert e w) = add_mset e (pending w)"
    "current_tick (reinsert e w) = current_tick w" "next_timer_id (reinsert e w) = next_timer_id w"
proof -
  let ?c = "unat (current_tick w)" and ?t = "due_at e"
  have d: "unat (saturating_sub (target_tick e) (current_tick w)) = ?t - ?c" by (rule unat_saturating_sub)
  have c: "?c \<le> ?t" using f by (simp add: fits_def)
  have spans: "saturating_sub (target_tick e) (current_tick w) < LVL0_SPAN \<longleftrightarrow> ?t < ?c + 256"
    "saturating_sub (target_tick e) (current_tick w) < LVL1_SPAN \<longleftrightarrow> ?t < ?c + 16384"
    "saturating_sub (target_tick e) (current_tick w) < LVL2_SPAN \<longleftrightarrow> ?t < ?c + 1048576"
    "saturating_sub (target_tick e) (current_tick w) < LVL3_SPAN \<longleftrightarrow> ?t < ?c + 67108864"
    using c by (auto simp: word_less_nat_alt d LVL0_SPAN_def LVL1_SPAN_def LVL2_SPAN_def LVL3_SPAN_def)
  have len: "length (level0 w) = 256" "length (level1 w) = 64" "length (level2 w) = 64" "length (level3 w) = 64"
    using inv by (simp_all add: wheel_inv_def level0_ok_def level_ok_def)
  show "current_tick (reinsert e w) = current_tick w" "next_timer_id (reinsert e w) = next_timer_id w"
    by (simp_all add: reinsert_def Let_def)
  show "pending (reinsert e w) = add_mset e (pending w)"
    by (simp add: reinsert_def Let_def pending_def slots_mset_push slot_nat len)
  have parts: "level0_ok lo ?c (level0 w)" "level_ok 256 b1 (level1 w)" "level_ok 16384 b2 (level2 w)"
    "level_ok 1048576 b3 (level3 w)" "\<forall>e\<in>set (overflow w). bo + 64 \<le> due_at e div 1048576"
    using inv by (simp_all add: wheel_inv_def)
  have "level0_ok lo ?c (push_slot (?t mod 256) e (level0 w))" if "?t < ?c + 256"
    using that lo by (intro level0_ok_push parts)
  moreover have "level_ok 256 b1 (push_slot (?t div 256 mod 64) e (level1 w))" if "\<not> ?t < ?c + 256" "?t < ?c + 16384"
    using that f block_bounds(1,2) [of ?c 256 ?t] by (intro level_ok_push parts) (simp_all add: fits_def)
  moreover have "level_ok 16384 b2 (push_slot (?t div 16384 mod 64) e (level2 w))"
    if "\<not> ?t < ?c + 16384" "?t < ?c + 1048576"
    using that f block_bounds(1,2) [of ?c 16384 ?t] by (intro level_ok_push parts) (simp_all add: fits_def)
  moreover have "level_ok 1048576 b3 (push_slot (?t div 1048576 mod 64) e (level3 w))"
    if "\<not> ?t < ?c + 1048576" "?t < ?c + 67108864"
    using that f block_bounds(1,2) [of ?c 1048576 ?t] by (intro level_ok_push parts) (simp_all add: fits_def)
  moreover have "bo + 64 \<le> ?t div 1048576" if "\<not> ?t < ?c + 67108864"
    using that f block_bounds(3) [of ?c 1048576 ?t] by (simp add: fits_def)
  ultimately show "wheel_inv lo b1 b2 b3 bo (reinsert e w)"
    using parts unfolding reinsert_def Let_def spans slot_nat by (simp add: wheel_inv_def)
qed

lemma reinsert_all:
  assumes "wheel_inv lo b1 b2 b3 bo w"
    "\<forall>e\<in>set es. fits (unat (current_tick w)) b1 b2 b3 bo (due_at e) \<and> lo \<le> due_at e"
  shows "wheel_inv lo b1 b2 b3 bo (fold reinsert es w) \<and> pending (fold reinsert es w) = mset es + pending w \<and>
    current_tick (fold reinsert es w) = current_tick w \<and> next_timer_id (fold reinsert es w) = next_timer_id w"
  using assms
proof (induction es arbitrary: w)
  case (Cons e es)
  note r = reinsert_inv [OF Cons.prems(1), of e]
  show ?case using Cons.IH [of "reinsert e w"] Cons.prems r by (simp add: ac_simps)
qed simp

section \<open>Cascading\<close>

lemma block_start:
  fixes c t B :: nat
  assumes "t div B = c div B" "c mod B = 0" "0 < B"
  shows "c \<le> t" "t < c + B"
proof -
  have c: "c = B * (t div B)" using assms(1,2) by auto
  have t: "t = B * (t div B) + t mod B" by simp
  show "c \<le> t" unfolding c using t by linarith
  show "t < c + B" unfolding c using t mod_less_divisor [OF assms(3), of t] by linarith
qed

lemma cascade1_inv:
  assumes inv: "wheel_inv c ((c - 1) div 256) b2 b3 bo w" and c: "c = unat (current_tick w)" "0 < c"
  shows "wheel_inv c (c div 256) b2 b3 bo (cascade1 w) \<and> pending (cascade1 w) = pending w \<and>
    current_tick (cascade1 w) = current_tick w"
proof (cases "c mod 256 = 0")
  case True
  let ?s = "c div 256 mod 64" and ?w = "w\<lparr>level1 := (level1 w)[c div 256 mod 64 := []]\<rparr>"
  have l: "level_ok 256 ((c - 1) div 256) (level1 w)" using inv by (simp add: wheel_inv_def)
  note e = level_ok_enter [OF l c(2) True]
  have "wheel_inv c (c div 256) b2 b3 bo ?w" using inv e by (simp add: wheel_inv_def)
  moreover have "\<forall>x\<in>set (level1 w ! ?s). fits c (c div 256) b2 b3 bo (due_at x) \<and> c \<le> due_at x"
    using e(2) block_start [where B = 256, OF _ True] by (simp add: fits_def)
  ultimately show ?thesis
    using reinsert_all [of c "c div 256" b2 b3 bo ?w "level1 w ! ?s"] True l slots_mset_clear [of ?s "level1 w"]
    by (auto simp: cascade1_def Let_def rollover_nat slot_nat pending_def level_ok_def ac_simps simp flip: c(1))
next
  case False
  then show ?thesis using inv level_ok_step [of 256 c "level1 w"] c
    by (simp add: wheel_inv_def cascade1_def Let_def rollover_nat)
qed

lemma cascade2_inv:
  assumes inv: "wheel_inv c (c div 256) ((c - 1) div 16384) b3 bo w" and c: "c = unat (current_tick w)" "0 < c"
  shows "wheel_inv c (c div 256) (c div 16384) b3 bo (cascade2 w) \<and> pending (cascade2 w) = pending w \<and>
    current_tick (cascade2 w) = current_tick w"
proof (cases "c mod 16384 = 0")
  case True
  let ?s = "c div 16384 mod 64" and ?w = "w\<lparr>level2 := (level2 w)[c div 16384 mod 64 := []]\<rparr>"
  have l: "level_ok 16384 ((c - 1) div 16384) (level2 w)" using inv by (simp add: wheel_inv_def)
  note e = level_ok_enter [OF l c(2) True]
  have "wheel_inv c (c div 256) (c div 16384) b3 bo ?w" using inv e by (simp add: wheel_inv_def)
  moreover have "\<forall>x\<in>set (level2 w ! ?s). fits c (c div 256) (c div 16384) b3 bo (due_at x) \<and> c \<le> due_at x"
    using e(2) block_start [where B = 16384, OF _ True] by (simp add: fits_def)
  ultimately show ?thesis
    using reinsert_all [of c "c div 256" "c div 16384" b3 bo ?w "level2 w ! ?s"] True l slots_mset_clear [of ?s "level2 w"]
    by (auto simp: cascade2_def Let_def rollover_nat slot_nat pending_def level_ok_def ac_simps simp flip: c(1))
next
  case False
  then show ?thesis using inv level_ok_step [of 16384 c "level2 w"] c
    by (simp add: wheel_inv_def cascade2_def Let_def rollover_nat)
qed

lemma mset_swap_remove: "i < length xs \<Longrightarrow> mset xs = add_mset (xs ! i) (mset (swap_remove i xs))"
proof -
  assume i: "i < length xs"
  then obtain ys y where xs: "xs = ys @ [y]" by (cases xs rule: rev_cases) auto
  show ?thesis using i by (auto simp: xs swap_remove_def nth_append mset_update)
qed

lemma swap_remove_set:
  assumes "i < length xs"
  shows "set (swap_remove i xs) \<subseteq> set xs" "j < i \<Longrightarrow> swap_remove i xs ! j = xs ! j"
proof -
  show "set (swap_remove i xs) \<subseteq> set xs"
    using mset_swap_remove [OF assms] by (metis set_mset_add_mset_insert set_mset_mset subset_insertI)
  show "swap_remove i xs ! j = xs ! j" if "j < i"
    using that assms by (auto simp: swap_remove_def nth_butlast)
qed

lemma promote_inv:
  assumes "wheel_inv c (c div 256) (c div 16384) (c div 1048576) bo w" "c = unat (current_tick w)"
    "c \<le> (bo + 64) * 1048576" "i \<le> length (overflow w)"
    "\<forall>j<i. c div 1048576 + 64 \<le> due_at (overflow w ! j) div 1048576"
  shows "wheel_inv c (c div 256) (c div 16384) (c div 1048576) (c div 1048576) (promote i w) \<and>
    pending (promote i w) = pending w \<and> current_tick (promote i w) = current_tick w"
  using assms
proof (induction i w rule: promote.induct)
  case (1 i w)
  show ?case
  proof (cases "i < length (overflow w)")
    case False
    have "\<forall>e\<in>set (overflow w). c div 1048576 + 64 \<le> due_at e div 1048576"
      using "1.prems"(4,5) False by (auto simp: in_set_conv_nth)
    then show ?thesis using False "1.prems"(1) by (subst (1 2 3) promote.simps) (simp add: wheel_inv_def)
  next
    case i: True
    let ?e = "overflow w ! i"
    have sat: "saturating_sub (target_tick ?e) (current_tick w) < LVL3_SPAN \<longleftrightarrow> due_at ?e < c + 67108864"
      by (auto simp: word_less_nat_alt unat_saturating_sub "1.prems"(2) LVL3_SPAN_def)
    show ?thesis
    proof (cases "due_at ?e < c + 67108864")
      case True
      let ?w = "w\<lparr>overflow := swap_remove i (overflow w)\<rparr>"
      have b: "bo + 64 \<le> due_at ?e div 1048576" using "1.prems"(1) i by (simp add: wheel_inv_def)
      have "(bo + 64) * 1048576 \<le> due_at ?e div 1048576 * 1048576" using b by (rule mult_le_mono1)
      also have "\<dots> \<le> due_at ?e" by (rule div_times_less_eq_dividend)
      finally have ce: "c \<le> due_at ?e" using "1.prems"(3) by simp
      have inv: "wheel_inv c (c div 256) (c div 16384) (c div 1048576) bo ?w"
        using "1.prems"(1) swap_remove_set(1) [OF i] by (auto simp: wheel_inv_def)
      have f: "fits (unat (current_tick ?w)) (c div 256) (c div 16384) (c div 1048576) bo (due_at ?e)"
        using ce True "1.prems"(2) by (simp add: fits_def)
      note r = reinsert_inv [OF inv f ce]
      have ov: "overflow (reinsert ?e ?w) = swap_remove i (overflow w)"
        using overflow_reinsert [of ?e ?w] sat True by simp
      have step: "promote i w = promote i (reinsert ?e ?w)"
        using i True sat by (subst promote.simps) (simp add: Let_def)
      have "pending w = add_mset ?e (pending ?w)" using mset_swap_remove [OF i] by (simp add: pending_def)
      then show ?thesis
        using "1.IH"(1) [OF i refl] sat True r ov "1.prems" swap_remove_set(2) [OF i] i unfolding step
        by (simp add: less_Suc_eq_le)
    next
      case False
      have "c div 1048576 + 64 \<le> due_at ?e div 1048576"
        using False block_bounds(3) [of c 1048576 "due_at ?e"] by simp
      then show ?thesis
        using "1.IH"(2) [OF i refl] sat False "1.prems" i by (subst (1 2 3) promote.simps) (simp add: Let_def less_Suc_eq)
    qed
  qed
qed

lemma cascade3_inv:
  assumes inv: "wheel_inv c (c div 256) (c div 16384) ((c - 1) div 1048576) ((c - 1) div 1048576) w"
    and c: "c = unat (current_tick w)" "0 < c"
  shows "wheel_inv c (c div 256) (c div 16384) (c div 1048576) (c div 1048576) (cascade3 w) \<and>
    pending (cascade3 w) = pending w \<and> current_tick (cascade3 w) = current_tick w"
proof (cases "c mod 1048576 = 0")
  case True
  let ?s = "c div 1048576 mod 64" and ?w = "w\<lparr>level3 := (level3 w)[c div 1048576 mod 64 := []]\<rparr>"
  let ?b = "(c - 1) div 1048576" and ?f = "fold reinsert (level3 w ! ?s) ?w"
  have l: "level_ok 1048576 ?b (level3 w)" using inv by (simp add: wheel_inv_def)
  note e = level_ok_enter [OF l c(2) True]
  have "wheel_inv c (c div 256) (c div 16384) (c div 1048576) ?b ?w" using inv e by (simp add: wheel_inv_def)
  moreover have "\<forall>x\<in>set (level3 w ! ?s). fits c (c div 256) (c div 16384) (c div 1048576) ?b (due_at x) \<and> c \<le> due_at x"
    using e(2) block_start [where B = 1048576, OF _ True] by (simp add: fits_def)
  ultimately have f: "wheel_inv c (c div 256) (c div 16384) (c div 1048576) ?b ?f"
    "pending ?f = mset (level3 w ! ?s) + pending ?w" "current_tick ?f = current_tick w"
    using reinsert_all [of c "c div 256" "c div 16384" "c div 1048576" ?b ?w "level3 w ! ?s"] by (simp_all flip: c(1))
  have "c \<le> (?b + 64) * 1048576"
    using dividend_less_div_times [of 1048576 "c - 1"] by simp
  then have "wheel_inv c (c div 256) (c div 16384) (c div 1048576) (c div 1048576) (promote 0 ?f)"
    "pending (promote 0 ?f) = pending ?f" "current_tick (promote 0 ?f) = current_tick ?f"
    using promote_inv [OF f(1), of 0] f(3) c(1) by simp_all
  moreover have "cascade3 w = promote 0 ?f"
    using True by (simp add: cascade3_def Let_def rollover_nat slot_nat flip: c(1))
  moreover have "pending w = mset (level3 w ! ?s) + pending ?w"
    using slots_mset_clear [of ?s "level3 w"] l by (simp add: pending_def level_ok_def)
  ultimately show ?thesis using f(2,3) by simp
next
  case False
  have "(c - 1) div 1048576 = c div 1048576" using False c(2) by (cases c) (auto simp: div_Suc)
  then show ?thesis using inv False c(1) by (simp add: cascade3_def Let_def rollover_nat)
qed

section \<open>A tick\<close>

lemma in_concat_nth: "e \<in> set (concat ls) \<Longrightarrow> \<exists>i<length ls. e \<in> set (ls ! i)"
  by (auto simp: in_set_conv_nth [of _ ls])

lemma level_due_later:
  assumes "level_ok B (c div B) ls" "e \<in> set (concat ls)"
  shows "c < due_at e"
proof -
  obtain i where "i < 64" "e \<in> set (ls ! i)" using assms in_concat_nth [of e ls] by (auto simp: level_ok_def)
  then have "c div B < due_at e div B" using assms(1) by (simp add: level_ok_def)
  then show ?thesis by (meson div_le_mono leD leI)
qed

text \<open>Between ticks every pending timer lies ahead.\<close>

lemma pending_later:
  assumes "wheel_ok w" "e \<in># pending w"
  shows "current_tick w < target_tick e"
proof -
  let ?c = "unat (current_tick w)"
  have inv: "level0_ok (?c + 1) ?c (level0 w)" "level_ok 256 (?c div 256) (level1 w)"
    "level_ok 16384 (?c div 16384) (level2 w)" "level_ok 1048576 (?c div 1048576) (level3 w)"
    "\<forall>e\<in>set (overflow w). ?c div 1048576 + 64 \<le> due_at e div 1048576"
    using assms(1) by (simp_all add: wheel_ok_def wheel_inv_def Let_def)
  have "?c < due_at e" if "e \<in> set (concat (level0 w))"
    using in_concat_nth [OF that] inv(1) by (fastforce simp: level0_ok_def)
  moreover have "?c < due_at e" if "e \<in> set (overflow w)"
  proof -
    have "?c div 1048576 < due_at e div 1048576" using that inv(5) by fastforce
    then show ?thesis by (meson div_le_mono leD leI)
  qed
  moreover have "e \<in> set (concat (level0 w)) \<or> e \<in> set (concat (level1 w)) \<or> e \<in> set (concat (level2 w)) \<or>
      e \<in> set (concat (level3 w)) \<or> e \<in> set (overflow w)"
    using assms(2) by (simp add: pending_def slots_mset_def)
  ultimately show ?thesis
    using level_due_later [OF inv(2)] level_due_later [OF inv(3)] level_due_later [OF inv(4)]
    unfolding word_less_nat_alt by blast
qed

text \<open>After cascading, the slot of the new tick holds exactly the timers that are due.\<close>

lemma level0_due:
  assumes l0: "level0_ok c c ls"
  shows "\<forall>e\<in>set (ls ! (c mod 256)). due_at e = c" "level0_ok (c + 1) c (ls[c mod 256 := []])"
proof -
  have mem: "due_at e mod 256 = i \<and> c \<le> due_at e \<and> due_at e < c + 256" if "i < 256" "e \<in> set (ls ! i)" for i e
    using l0 that by (simp add: level0_ok_def)
  show due: "\<forall>e\<in>set (ls ! (c mod 256)). due_at e = c"
  proof
    fix e assume "e \<in> set (ls ! (c mod 256))"
    then have e: "due_at e mod 256 = c mod 256" "c \<le> due_at e" "due_at e < c + 256"
      using mem [of "c mod 256" e] by simp_all
    then have "256 dvd due_at e - c" using mod_eq_dvd_iff_nat [of c "due_at e" 256] by simp
    then show "due_at e = c" using e dvd_imp_le [of 256 "due_at e - c"] by (cases "due_at e = c") auto
  qed
  have "due_at e mod 256 = i \<and> c + 1 \<le> due_at e \<and> due_at e < c + 256"
    if i: "i < 256" and e: "e \<in> set (ls[c mod 256 := []] ! i)" for i e
  proof -
    have ne: "i \<noteq> c mod 256" using e i l0 by (auto simp: level0_ok_def)
    then have "e \<in> set (ls ! i)" using e by simp
    then have "due_at e mod 256 = i" "c \<le> due_at e" "due_at e < c + 256" using mem i by auto
    moreover from this have "due_at e \<noteq> c" using ne by auto
    ultimately show ?thesis by simp
  qed
  then show "level0_ok (c + 1) c (ls[c mod 256 := []])" using l0 by (simp add: level0_ok_def)
qed

lemma cascaded:
  assumes ok: "wheel_ok w" and no_wrap: "unat (current_tick w) + 1 < 2 ^ 64"
  defines "w' \<equiv> cascade3 (cascade2 (cascade1 (w\<lparr>current_tick := current_tick w + 1\<rparr>)))"
  defines "c \<equiv> unat (current_tick w) + 1"
  shows "wheel_inv c (c div 256) (c div 16384) (c div 1048576) (c div 1048576) w'" "pending w' = pending w"
    "current_tick w' = current_tick w + 1" "unat (current_tick w + 1) = c"
proof -
  let ?w1 = "w\<lparr>current_tick := current_tick w + 1\<rparr>"
  have c: "c = unat (current_tick ?w1)" "0 < c" using no_wrap by (simp_all add: unat_add_no_overflow c_def)
  have "wheel_inv c ((c - 1) div 256) ((c - 1) div 16384) ((c - 1) div 1048576) ((c - 1) div 1048576) ?w1"
  proof -
    have "c - 1 = unat (current_tick w)" by (simp add: c_def)
    moreover have "level0_ok c (c - 1) (level0 w)" using ok by (simp add: wheel_ok_def Let_def wheel_inv_def c_def)
    then have "level0_ok c c (level0 w)" by (fastforce simp: level0_ok_def)
    ultimately show ?thesis using ok c(1) [symmetric] by (simp add: wheel_ok_def Let_def wheel_inv_def)
  qed
  note k1 = cascade1_inv [OF this c]
  then have c1: "c = unat (current_tick (cascade1 ?w1))" using c(1) by simp
  note k2 = cascade2_inv [OF conjunct1 [OF k1] c1 c(2)]
  then have c2: "c = unat (current_tick (cascade2 (cascade1 ?w1)))" using c1 by simp
  note k3 = cascade3_inv [OF conjunct1 [OF k2] c2 c(2)]
  show "wheel_inv c (c div 256) (c div 16384) (c div 1048576) (c div 1048576) w'" using k3 by (simp add: w'_def)
  show "pending w' = pending w" "current_tick w' = current_tick w + 1"
    using k1 k2 k3 by (simp_all add: w'_def pending_def)
  show "unat (current_tick w + 1) = c" using c(1) by simp
qed

lemma pending_clear0:
  "i < length (level0 w) \<Longrightarrow> pending w = mset (level0 w ! i) + pending (w\<lparr>level0 := (level0 w)[i := []]\<rparr>)"
  using slots_mset_clear [of i "level0 w"] by (simp add: pending_def)

lemma wheel_tick:
  assumes ok: "wheel_ok w" and no_wrap: "unat (current_tick w) + 1 < 2 ^ 64"
  defines "w' \<equiv> snd (advance_tick w)"
  shows "wheel_ok w'" "current_tick w' = current_tick w + 1"
    "mset (fst (advance_tick w)) = {# e \<in># pending w. target_tick e = current_tick w + 1 #}"
    "pending w' = {# e \<in># pending w. target_tick e \<noteq> current_tick w + 1 #}"
proof -
  let ?c = "unat (current_tick w) + 1"
  let ?w = "cascade3 (cascade2 (cascade1 (w\<lparr>current_tick := current_tick w + 1\<rparr>)))" and ?s = "?c mod 256"
  note cas = cascaded [OF ok no_wrap]
  have uc: "unat (current_tick ?w) = ?c" using cas(3,4) by simp
  have l0: "level0_ok ?c ?c (level0 ?w)" using cas(1) uc by (simp add: wheel_inv_def)
  note due = level0_due [OF l0]
  have tt: "target_tick e = current_tick w + 1 \<longleftrightarrow> due_at e = ?c" for e
    unfolding cas(4) [symmetric] by (rule word_unat_eq_iff)
  have keep: "filter (\<lambda>e. target_tick e \<le> current_tick ?w) (level0 ?w ! ?s) = level0 ?w ! ?s"
    "filter (\<lambda>e. \<not> target_tick e \<le> current_tick ?w) (level0 ?w ! ?s) = []"
    using due(1) uc by (auto simp: word_le_nat_alt filter_empty_conv)
  have adv: "advance_tick w = (level0 ?w ! ?s, ?w\<lparr>level0 := (level0 ?w)[?s := []]\<rparr>)"
    unfolding advance_tick_def Let_def slot_nat uc keep by simp
  then have w': "w' = ?w\<lparr>level0 := (level0 ?w)[?s := []]\<rparr>" by (simp add: w'_def)
  show tick: "current_tick w' = current_tick w + 1" using cas(3) by (simp add: w')
  show ok': "wheel_ok w'" using cas(1) due(2) uc by (simp add: wheel_ok_def wheel_inv_def Let_def w')
  have split: "pending w = mset (level0 ?w ! ?s) + pending w'"
    using pending_clear0 [of ?s ?w] l0 cas(2) unfolding w' by (simp add: level0_ok_def)
  have later: "\<forall>e\<in>#pending w'. target_tick e \<noteq> current_tick w + 1"
    using pending_later [OF ok'] tick by fastforce
  have "{# e \<in># mset (level0 ?w ! ?s). target_tick e = current_tick w + 1 #} = mset (level0 ?w ! ?s)"
    using due(1) by (simp add: tt filter_mset_eq_conv)
  moreover have "{# e \<in># pending w'. target_tick e = current_tick w + 1 #} = {#}"
    using later by (simp add: filter_mset_eq_conv)
  moreover have "{# e \<in># mset (level0 ?w ! ?s). target_tick e \<noteq> current_tick w + 1 #} = {#}"
    using due(1) by (simp add: tt filter_mset_eq_conv)
  moreover have "{# e \<in># pending w'. target_tick e \<noteq> current_tick w + 1 #} = pending w'"
    using later by (simp add: filter_mset_eq_conv)
  ultimately show "mset (fst (advance_tick w)) = {# e \<in># pending w. target_tick e = current_tick w + 1 #}"
    "pending w' = {# e \<in># pending w. target_tick e \<noteq> current_tick w + 1 #}"
    unfolding adv split by simp_all
qed

section \<open>Adding and cancelling\<close>

lemma add_timer_ok:
  assumes "wheel_ok w" "current_tick w < t"
  shows "wheel_ok (snd (add_timer t k w))" "fst (add_timer t k w) = next_timer_id w"
    "pending (snd (add_timer t k w)) = add_mset \<lparr>te_id = next_timer_id w, target_tick = t, te_kind = k\<rparr> (pending w)"
    "current_tick (snd (add_timer t k w)) = current_tick w" "next_timer_id (snd (add_timer t k w)) = next_timer_id w + 1"
proof -
  let ?c = "unat (current_tick w)" and ?w = "w\<lparr>next_timer_id := next_timer_id w + 1\<rparr>"
  let ?e = "\<lparr>te_id = next_timer_id w, target_tick = t, te_kind = k\<rparr>"
  have inv: "wheel_inv (?c + 1) (?c div 256) (?c div 16384) (?c div 1048576) (?c div 1048576) ?w"
    using assms(1) by (simp add: wheel_ok_def wheel_inv_def Let_def)
  have "fits (unat (current_tick ?w)) (?c div 256) (?c div 16384) (?c div 1048576) (?c div 1048576) (due_at ?e)"
    "?c + 1 \<le> due_at ?e"
    using assms(2) by (auto simp: fits_def word_less_nat_alt)
  note r = reinsert_inv [OF inv this]
  show "wheel_ok (snd (add_timer t k w))" using r(1,3) by (simp add: add_timer_def wheel_ok_def Let_def)
  show "fst (add_timer t k w) = next_timer_id w"
    "pending (snd (add_timer t k w)) = add_mset ?e (pending w)"
    "current_tick (snd (add_timer t k w)) = current_tick w" "next_timer_id (snd (add_timer t k w)) = next_timer_id w + 1"
    using r by (simp_all add: add_timer_def Let_def pending_def)
qed

lemma take_first_Some:
  "take_first P xs = Some (x, ys) \<Longrightarrow> P x \<and> mset xs = add_mset x (mset ys)"
  by (induction xs arbitrary: ys) (auto split: if_splits)

lemma take_first_None: "take_first P xs = None \<longleftrightarrow> (\<forall>x\<in>set xs. \<not> P x)"
  by (induction xs) auto

lemma take_slots_Some:
  "take_slots P ss = Some (x, ss') \<Longrightarrow> P x \<and> mset (concat ss) = add_mset x (mset (concat ss')) \<and>
    length ss' = length ss \<and> (\<forall>i<length ss. set (ss' ! i) \<subseteq> set (ss ! i))"
proof (induction ss arbitrary: ss')
  case (Cons s ss)
  show ?case
  proof (cases "take_first P s")
    case None
    then obtain ts where ts: "take_slots P ss = Some (x, ts)" "ss' = s # ts" using Cons.prems by auto
    then show ?thesis using Cons.IH [OF ts(1)] by (auto simp: nth_Cons split: nat.split)
  next
    case (Some p)
    obtain y s' where p: "p = (y, s')" by (cases p)
    then have x: "y = x" "ss' = s' # ss" using Some Cons.prems by auto
    have f: "P x" "mset s = add_mset x (mset s')" using take_first_Some [of P s x s'] Some p x by auto
    then have "set s' \<subseteq> set s" by (metis set_mset_add_mset_insert set_mset_mset subset_insertI)
    then show ?thesis using f x by (auto simp: nth_Cons split: nat.split)
  qed
qed simp

lemma take_slots_None: "take_slots P ss = None \<longleftrightarrow> (\<forall>x\<in>set (concat ss). \<not> P x)"
proof (induction ss)
  case (Cons s ss)
  show ?case
  proof (cases "take_first P s = None")
    case True
    then have "\<forall>x\<in>set s. \<not> P x" by (simp add: take_first_None)
    then show ?thesis using True Cons.IH by (simp add: ball_Un)
  next
    case False
    then have "\<not> (\<forall>x\<in>set s. \<not> P x)" by (simp add: take_first_None)
    then show ?thesis using False by auto
  qed
qed simp

lemma level_ok_sub:
  "level_ok B b ls \<Longrightarrow> length ls' = length ls \<Longrightarrow> \<forall>i<length ls. set (ls' ! i) \<subseteq> set (ls ! i) \<Longrightarrow> level_ok B b ls'"
  unfolding level_ok_def by (metis subsetD)

lemma level0_ok_sub:
  "level0_ok lo c ls \<Longrightarrow> length ls' = length ls \<Longrightarrow> \<forall>i<length ls. set (ls' ! i) \<subseteq> set (ls ! i) \<Longrightarrow> level0_ok lo c ls'"
  unfolding level0_ok_def by (metis subsetD)

lemma take_timer_Some:
  assumes "take_timer P w = Some (e, w')" "wheel_ok w"
  shows "P e" "pending w = add_mset e (pending w')" "wheel_ok w'" "current_tick w' = current_tick w"
proof -
  let ?c = "unat (current_tick w)"
  have inv: "level0_ok (?c + 1) ?c (level0 w)" "level_ok 256 (?c div 256) (level1 w)"
    "level_ok 16384 (?c div 16384) (level2 w)" "level_ok 1048576 (?c div 1048576) (level3 w)"
    "\<forall>e\<in>set (overflow w). ?c div 1048576 + 64 \<le> due_at e div 1048576"
    using assms(2) by (simp_all add: wheel_ok_def wheel_inv_def Let_def)
  consider (0) l where "take_slots P (level0 w) = Some (e, l)" "w' = w\<lparr>level0 := l\<rparr>"
    | (1) l where "take_slots P (level1 w) = Some (e, l)" "w' = w\<lparr>level1 := l\<rparr>"
    | (2) l where "take_slots P (level2 w) = Some (e, l)" "w' = w\<lparr>level2 := l\<rparr>"
    | (3) l where "take_slots P (level3 w) = Some (e, l)" "w' = w\<lparr>level3 := l\<rparr>"
    | (4) l where "take_first P (overflow w) = Some (e, l)" "w' = w\<lparr>overflow := l\<rparr>"
    using assms(1) by (auto simp: take_timer_def split: option.splits)
  then have "P e \<and> pending w = add_mset e (pending w') \<and> wheel_ok w' \<and> current_tick w' = current_tick w"
  proof cases
    case 0
    note t = take_slots_Some [OF 0(1)]
    show ?thesis using t level0_ok_sub [OF inv(1), of l] inv 0(2)
      by (simp add: pending_def slots_mset_def wheel_ok_def wheel_inv_def)
  next
    case 1
    note t = take_slots_Some [OF 1(1)]
    show ?thesis using t level_ok_sub [OF inv(2), of l] inv 1(2)
      by (simp add: pending_def slots_mset_def wheel_ok_def wheel_inv_def)
  next
    case 2
    note t = take_slots_Some [OF 2(1)]
    show ?thesis using t level_ok_sub [OF inv(3), of l] inv 2(2)
      by (simp add: pending_def slots_mset_def wheel_ok_def wheel_inv_def)
  next
    case 3
    note t = take_slots_Some [OF 3(1)]
    show ?thesis using t level_ok_sub [OF inv(4), of l] inv 3(2)
      by (simp add: pending_def slots_mset_def wheel_ok_def wheel_inv_def)
  next
    case 4
    note t = take_first_Some [OF 4(1)]
    have "set l \<subseteq> set (overflow w)" using t by (metis set_mset_add_mset_insert set_mset_mset subset_insertI)
    then show ?thesis using t inv 4(2)
      by (auto simp: pending_def wheel_ok_def wheel_inv_def Let_def)
  qed
  then show "P e" "pending w = add_mset e (pending w')" "wheel_ok w'" "current_tick w' = current_tick w" by blast+
qed

lemma take_timer_None: "take_timer P w = None \<longleftrightarrow> (\<forall>e\<in>#pending w. \<not> P e)"
proof -
  have "take_timer P w = None \<longleftrightarrow> take_slots P (level0 w) = None \<and> take_slots P (level1 w) = None \<and>
      take_slots P (level2 w) = None \<and> take_slots P (level3 w) = None \<and> take_first P (overflow w) = None"
    by (simp add: take_timer_def split: option.split)
  then show ?thesis unfolding take_slots_None take_first_None by (auto simp: pending_def slots_mset_def)
qed

section \<open>The wheel as its clients see it\<close>

primrec run_ticks :: "('s \<Rightarrow> 'e list \<times> 's) \<Rightarrow> nat \<Rightarrow> 's \<Rightarrow> 'e list list \<times> 's" where
  "run_ticks tck 0 s = ([], s)"
| "run_ticks tck (Suc n) s =
    (let (es, s1) = tck s; (ess, s2) = run_ticks tck n s1 in (es # ess, s2))"

locale timer_service =
  fixes ok :: "'s \<Rightarrow> bool"
    and now :: "'s \<Rightarrow> u64"
    and pend :: "'s \<Rightarrow> timer_entry multiset"
    and tck :: "'s \<Rightarrow> timer_entry list \<times> 's"
  assumes tick_ok: "ok s \<Longrightarrow> unat (now s) + 1 < 2 ^ 64 \<Longrightarrow> ok (snd (tck s)) \<and> now (snd (tck s)) = now s + 1"
    and tick_due: "ok s \<Longrightarrow> unat (now s) + 1 < 2 ^ 64 \<Longrightarrow>
      mset (fst (tck s)) = {# e \<in># pend s. target_tick e = now s + 1 #}"
    and tick_rest: "ok s \<Longrightarrow> unat (now s) + 1 < 2 ^ 64 \<Longrightarrow>
      pend (snd (tck s)) = {# e \<in># pend s. target_tick e \<noteq> now s + 1 #}"
begin

text \<open>Over any number of ticks, a timer comes out in the tick of its target and in no other.\<close>

lemma fires_on_time:
  "ok s \<Longrightarrow> unat (now s) + n < 2 ^ 64 \<Longrightarrow> j < n \<Longrightarrow>
    e \<in> set (fst (run_ticks tck n s) ! j) \<longleftrightarrow> e \<in># pend s \<and> due_at e = unat (now s) + Suc j"
proof (induction n arbitrary: s j)
  case (Suc n)
  obtain es s1 where t: "tck s = (es, s1)" by (cases "tck s")
  have b: "unat (now s) + 1 < 2 ^ 64" using Suc.prems(2) by simp
  have s1: "ok s1" "now s1 = now s + 1" "mset es = {# e \<in># pend s. target_tick e = now s + 1 #}"
    "pend s1 = {# e \<in># pend s. target_tick e \<noteq> now s + 1 #}"
    using tick_ok [OF Suc.prems(1) b] tick_due [OF Suc.prems(1) b] tick_rest [OF Suc.prems(1) b] t by simp_all
  have u: "unat (now s1) = unat (now s) + 1" using b s1(2) by (simp add: unat_add_no_overflow)
  have tt: "target_tick e = now s + 1 \<longleftrightarrow> due_at e = unat (now s) + 1"
    using u s1(2) by (simp add: word_unat_eq_iff)
  have r: "fst (run_ticks tck (Suc n) s) = es # fst (run_ticks tck n s1)" by (simp add: t split_beta)
  show ?case
  proof (cases j)
    case 0
    have "e \<in> set es \<longleftrightarrow> e \<in># pend s \<and> target_tick e = now s + 1"
      using arg_cong [OF s1(3), of set_mset] by auto
    then show ?thesis using 0 r tt by simp
  next
    case (Suc k)
    have "unat (now s1) + n < 2 ^ 64" "k < n" using Suc.prems(2,3) Suc u by simp_all
    then have "e \<in> set (fst (run_ticks tck n s1) ! k) \<longleftrightarrow> e \<in># pend s1 \<and> due_at e = unat (now s1) + Suc k"
      using Suc.IH [OF s1(1)] by blast
    then show ?thesis using Suc r tt u s1(4) by auto
  qed
qed simp

end

interpretation wheel: timer_service wheel_ok current_tick pending advance_tick
  by unfold_locales (use wheel_tick in auto)

lemma TimerWheel_new_ok: "wheel_ok TimerWheel_new" "pending TimerWheel_new = {#}"
  by (auto simp: TimerWheel_new_def wheel_ok_def wheel_inv_def level0_ok_def level_ok_def pending_def
      slots_mset_def concat_replicate_trivial)

text \<open>C8.  A tick of the hierarchical wheel is a tick of the plain set of pending timers: it returns
  exactly the timers whose target is the new tick, keeps exactly the others, and keeps the wheel
  consistent, through every cascade of the four levels and every promotion from the overflow list.\<close>

theorem advance_tick_exact:
  assumes "wheel_ok w" "unat (current_tick w) + 1 < 2 ^ 64"
  shows "wheel_ok (snd (advance_tick w)) \<and> current_tick (snd (advance_tick w)) = current_tick w + 1 \<and>
    mset (fst (advance_tick w)) = {# e \<in># pending w. target_tick e = current_tick w + 1 #} \<and>
    pending (snd (advance_tick w)) = {# e \<in># pending w. target_tick e \<noteq> current_tick w + 1 #}"
  using wheel_tick [OF assms] by blast

theorem advance_tick_exact_witness:
  "mset (fst (advance_tick (snd (add_timer 1 (Sleep 7) TimerWheel_new)))) =
    {# \<lparr>te_id = 1, target_tick = 1, te_kind = Sleep 7\<rparr> #}"
proof -
  have t: "current_tick TimerWheel_new = 0" "next_timer_id TimerWheel_new = 1" by (simp_all add: TimerWheel_new_def)
  note a = add_timer_ok [OF TimerWheel_new_ok(1), of 1 "Sleep 7"]
  show ?thesis using advance_tick_exact [OF a(1)] a t TimerWheel_new_ok(2) by simp
qed

text \<open>C22.  A timer set for a later tick fires in that tick and in no other, however far away it is, as
  long as the clock does not wrap.\<close>

theorem timers_fire_on_time:
  assumes "wheel_ok w" "current_tick w < t" "unat (current_tick w) + n < 2 ^ 64" "j < n"
  shows "\<lparr>te_id = next_timer_id w, target_tick = t, te_kind = k\<rparr> \<in>
      set (fst (run_ticks advance_tick n (snd (add_timer t k w))) ! j) \<longleftrightarrow>
    unat t = unat (current_tick w) + Suc j"
  using wheel.fires_on_time [of "snd (add_timer t k w)" n j] add_timer_ok [OF assms(1,2), of k] assms(3,4) by simp

theorem timers_fire_on_time_witness:
  "\<lparr>te_id = 1, target_tick = 300, te_kind = Sleep 7\<rparr> \<in>
    set (fst (run_ticks advance_tick 1000 (snd (add_timer 300 (Sleep 7) TimerWheel_new))) ! 299)"
proof -
  have "current_tick TimerWheel_new = 0" "next_timer_id TimerWheel_new = 1" by (simp_all add: TimerWheel_new_def)
  then show ?thesis
    using timers_fire_on_time [OF TimerWheel_new_ok(1), of 300 1000 299 "Sleep 7"] by simp
qed

text \<open>C39.  An interval timer is never armed again: when it has fired its entry has left the wheel, so the
  search for its identifier finds nothing and re-arming changes nothing.\<close>

theorem interval_timer_not_rearmed:
  assumes "wheel_ok w" "unat (current_tick w) + 1 < 2 ^ 64" "inj_on te_id (set_mset (pending w))"
    "e \<in> set (fst (advance_tick w))"
  shows "rearm_itimer_entry (te_id e) target (snd (advance_tick w)) = snd (advance_tick w)"
proof -
  note t = wheel_tick [OF assms(1,2)]
  let ?w = "snd (advance_tick w)"
  have e: "e \<in># pending w" "target_tick e = current_tick w + 1"
    using assms(4) arg_cong [OF t(3), of set_mset] by auto
  have "te_id x \<noteq> te_id e" if "x \<in># pending ?w" for x
    using that e assms(3) unfolding t(4) by (auto dest: inj_onD)
  then have "take_slots (\<lambda>x. te_id x = te_id e) (level0 ?w) = None" "take_slots (\<lambda>x. te_id x = te_id e) (level1 ?w) = None"
    unfolding take_slots_None by (auto simp: pending_def slots_mset_def)
  then show ?thesis by (simp add: rearm_itimer_entry_def)
qed

theorem interval_timer_not_rearmed_witness:
  "let w = snd (advance_tick (snd (add_timer 1 (ITimerReal 5 10) TimerWheel_new))) in rearm_itimer_entry 1 11 w = w"
proof -
  let ?e = "\<lparr>te_id = 1, target_tick = 1, te_kind = ITimerReal 5 10\<rparr>"
  have t: "current_tick TimerWheel_new = 0" "next_timer_id TimerWheel_new = 1" by (simp_all add: TimerWheel_new_def)
  have "current_tick TimerWheel_new < 1" by (simp add: t)
  note a = add_timer_ok [OF TimerWheel_new_ok(1) this, of "ITimerReal 5 10"]
  have ct: "unat (current_tick (snd (add_timer 1 (ITimerReal 5 10) TimerWheel_new))) + 1 < 2 ^ 64" using a t by simp
  have p: "pending (snd (add_timer 1 (ITimerReal 5 10) TimerWheel_new)) = {# ?e #}" using a t TimerWheel_new_ok(2) by simp
  have "mset (fst (advance_tick (snd (add_timer 1 (ITimerReal 5 10) TimerWheel_new)))) = {# ?e #}"
    using wheel_tick(3) [OF a(1) ct] a t p by simp
  then have "?e \<in> set (fst (advance_tick (snd (add_timer 1 (ITimerReal 5 10) TimerWheel_new))))"
    by (metis set_mset_mset insertI1 set_mset_add_mset_insert)
  from interval_timer_not_rearmed [OF a(1) ct _ this] p show ?thesis by (simp add: Let_def)
qed

section \<open>Clocks\<close>

text \<open>The wheel and the global counter advance together, and a sleep is never cut short.\<close>

definition timer_ok :: "timer_state \<Rightarrow> bool" where
  "timer_ok s \<longleftrightarrow> wheel_ok (WHEEL s) \<and> current_tick (WHEEL s) = GLOBAL_TICKS s"

lemma timer_init_ok: "timer_ok timer_init"
  using TimerWheel_new_ok(1) by (simp add: timer_ok_def timer_init_def TimerWheel_new_def)

lemma tick_global: "timer_ok s \<Longrightarrow> unat (GLOBAL_TICKS s) + 1 < 2 ^ 64 \<Longrightarrow> timer_ok (snd (tick s))"
  using wheel_tick(1,2) [of "WHEEL s"] by (simp add: timer_ok_def tick_def split_beta)

lemma add_sleep_timer_ok:
  assumes "timer_ok s" "unat (GLOBAL_TICKS s) + 1 < 2 ^ 64"
  shows "timer_ok (snd (add_sleep_timer i d s))"
    "unat (fst (add_sleep_timer i d s)) = min (unat (GLOBAL_TICKS s) + max (unat d) 1) (2 ^ 64 - 1)"
proof -
  let ?c = "current_tick (WHEEL s)" and ?t = "saturating_add (current_tick (WHEEL s)) (max d 1)"
  have t: "unat ?t = min (unat ?c + max (unat d) 1) (2 ^ 64 - 1)"
    by (simp add: unat_saturating_add max_def word_le_nat_alt)
  have "unat ?c < 2 ^ 64 - 1"
    using assms by (simp add: timer_ok_def)
  then have lt: "?c < ?t" unfolding word_less_nat_alt t by simp
  note a = add_timer_ok [OF _ lt, of "Sleep i"]
  show "timer_ok (snd (add_sleep_timer i d s))"
    using a assms(1) by (simp add: timer_ok_def add_sleep_timer_def Let_def)
  show "unat (fst (add_sleep_timer i d s)) = min (unat (GLOBAL_TICKS s) + max (unat d) 1) (2 ^ 64 - 1)"
    using t assms(1) by (simp add: add_sleep_timer_def Let_def timer_ok_def)
qed

text \<open>Setting the clock and reading it back.\<close>

lemma clock_roundtrip:
  assumes "RTC_INITIALIZED s"
  shows "fst (fst (get_clock_time rtc cpu 0 (snd (set_clock_time 0 sec s)))) = sec"
  using assms by (simp add: get_clock_time_def set_clock_time_def sync_rtc_if_needed_def Let_def)

text \<open>A clock set before the first reading is lost: that reading replaces the base by the hardware clock.\<close>

lemma early_clock_set_lost:
  assumes "\<not> RTC_INITIALIZED s" "1700000000 \<le> hw"
  shows "fst (fst (get_clock_time (Some hw) cpu 0 (snd (set_clock_time 0 sec s)))) = hw + GLOBAL_TICKS s div 1000"
  using assms by (simp add: get_clock_time_def set_clock_time_def sync_rtc_if_needed_def Let_def)

text \<open>In twelve-hour mode the afternoon flag is masked off before it is tested, so it has no effect.\<close>

lemma rtc_afternoon_lost: "rtc_seconds (r\<lparr>rtc_hour := h OR 0x80\<rparr>) = rtc_seconds (r\<lparr>rtc_hour := h\<rparr>)"
proof -
  have "(h OR 0x80) AND 0x7F = h AND 0x7F" by (simp add: bit.conj_disj_distrib2)
  then show ?thesis by (simp add: rtc_seconds_def)
qed

end
