(* ===== verification/Sched.thy ===== *)
theory Sched
  imports Timer
begin

text \<open>
  The scheduler core (\<open>rust/kernel/src/scheduler.rs\<close>): tasks and their states, the choice of
  the next task, wake-ups, futexes, yielding, blocking and stealing work from another processor.
  There is one scheduler per processor; \<open>kernel\<close> holds them all together with the timers, the shared
  tables of signal actions and the list of words written to user memory.  Fields of a task that none of
  the modelled operations reads (descriptors, group, working directory, limits, name) are left out; a shared table of
  signal actions is an index into \<open>sig_tables\<close>.
\<close>

section \<open>State\<close>

definition MAX_CPUS :: nat where
  "MAX_CPUS = 8"
definition PRIO_RT_MAX :: u8 where
  "PRIO_RT_MAX = 3"
definition PRIO_INTERACTIVE_MIN :: u8 where
  "PRIO_INTERACTIVE_MIN = 4"
definition PRIO_INTERACTIVE_MAX :: u8 where
  "PRIO_INTERACTIVE_MAX = 7"
definition PRIO_NORMAL_MIN :: u8 where
  "PRIO_NORMAL_MIN = 8"
definition PRIO_NORMAL_MAX :: u8 where
  "PRIO_NORMAL_MAX = 15"
definition PRIO_BATCH_MAX :: u8 where
  "PRIO_BATCH_MAX = 19"
definition MAX_TASKS :: nat where
  "MAX_TASKS = 4096"

definition slice_for_priority :: "u8 \<Rightarrow> u8" where
  "slice_for_priority p = (if p \<le> 3 then 1 else if p \<le> 7 then 2 else if p \<le> 15 then 4 else 8)"

definition priority_tier :: "u8 \<Rightarrow> u8" where
  "priority_tier p =
    (if p \<le> PRIO_RT_MAX then 0 else if p \<le> PRIO_INTERACTIVE_MAX then 1 else if p \<le> PRIO_NORMAL_MAX then 2 else 3)"

record user_context =
  uc_return_value :: u64
  uc_rbx :: u64
  uc_rbp :: u64
  uc_r12 :: u64
  uc_r13 :: u64
  uc_r14 :: u64
  uc_r15 :: u64
  uc_rdi :: u64
  uc_rsi :: u64
  uc_rdx :: u64
  uc_r8 :: u64
  uc_r9 :: u64
  uc_r10 :: u64
  uc_instruction_pointer :: u64
  uc_flags :: u64
  uc_stack_pointer :: u64
  uc_rcx :: u64
  uc_r11 :: u64

record interrupt_context =
  ic_r15 :: u64
  ic_r14 :: u64
  ic_r13 :: u64
  ic_r12 :: u64
  ic_r11 :: u64
  ic_r10 :: u64
  ic_r9 :: u64
  ic_r8 :: u64
  ic_rdi :: u64
  ic_rsi :: u64
  ic_rbp :: u64
  ic_rdx :: u64
  ic_rcx :: u64
  ic_rbx :: u64
  ic_rax :: u64
  ic_instruction_pointer :: u64
  ic_code_segment :: u64
  ic_flags :: u64
  ic_stack_pointer :: u64
  ic_stack_segment :: u64

definition interrupted_user_mode :: "interrupt_context \<Rightarrow> bool" where
  "interrupted_user_mode c \<longleftrightarrow> ic_code_segment c AND 3 = 3"

datatype task_state =
    Runnable
  | Waiting (child_pid: u64) (status_ptr: u64)
  | PipeWaiting (pipe_id: u64)
  | FutexWait (futex_addr: u64) (futex_bitset: u32)
  | Sleeping (wake_tick: u64) (rem_ptr: u64)
  | Zombie (exit_code: u64)
  | Reaped

text \<open>Of a process only its address space and whether it has the native personality matter here.\<close>

record process =
  p_space :: u64
  p_native :: bool

record sig_action =
  sa_handler :: u64
  sa_flags :: u64
  sa_restorer :: u64
  sa_mask :: u64

record sig_alt_stack =
  ss_sp :: u64
  ss_flags :: i32
  ss_pad :: i32
  ss_size :: u64

record task =
  t_tid :: u64
  t_tgid :: u64
  t_parent_pid :: "u64 option"
  t_state :: task_state
  t_priority :: u8
  t_base_priority :: u8
  t_slice :: u8
  t_process :: "process option"
  t_context :: user_context
  t_interrupt :: interrupt_context
  t_uid :: u32
  t_signal_actions :: nat
  t_fs_base :: u64
  t_blocked_mask :: u64
  t_pending_signals :: u64
  t_clear_child_tid :: u64
  t_pgid :: u64
  t_sid :: u64
  t_sigaltstack :: sig_alt_stack
  t_cpu_ticks :: u64

record scheduler =
  tasks :: "task list"
  current :: nat
  kernel_space :: u64
  sched_ticks :: u64
  slice_ticks :: u64

record kernel =
  SCHEDULERS :: "scheduler option list"
  FOREGROUND_PID :: u64
  NEXT_PID :: u64
  sig_tables :: "sig_action list list"
  user_writes :: "(u64 \<times> u64 \<times> bytes) list"
  timers :: timer_state

section \<open>Wake-ups\<close>

text \<open>A task woken from a wait moves up two priorities, but not into the real-time tier.\<close>

definition wake_task :: "task \<Rightarrow> task" where
  "wake_task t =
    (let p = max (saturating_sub (t_priority t) 2) PRIO_INTERACTIVE_MIN in
     t\<lparr>t_state := Runnable, t_priority := p, t_slice := slice_for_priority p\<rparr>)"

definition map_scheds :: "(scheduler \<Rightarrow> scheduler) \<Rightarrow> kernel \<Rightarrow> kernel" where
  "map_scheds f k = k\<lparr>SCHEDULERS := map (map_option f) (SCHEDULERS k)\<rparr>"

definition wake_pipe_waiters :: "u64 \<Rightarrow> kernel \<Rightarrow> kernel" where
  "wake_pipe_waiters i =
    map_scheds (\<lambda>s. s\<lparr>tasks := map (\<lambda>t. if t_state t = PipeWaiting i then wake_task t else t) (tasks s)\<rparr>)"

text \<open>\<open>wake_sleeping_task\<close> stops at the first task with the identifier.\<close>

primrec wake_first :: "u64 \<Rightarrow> task list \<Rightarrow> task list option" where
  "wake_first i [] = None"
| "wake_first i (t # ts) =
    (if t_tid t = i
     then Some ((case t_state t of Sleeping _ _ \<Rightarrow> wake_task t | _ \<Rightarrow> t) # ts)
     else map_option ((#) t) (wake_first i ts))"

fun wake_scheds :: "u64 \<Rightarrow> scheduler option list \<Rightarrow> scheduler option list" where
  "wake_scheds i [] = []"
| "wake_scheds i (None # ss) = None # wake_scheds i ss"
| "wake_scheds i (Some s # ss) =
    (case wake_first i (tasks s) of
      Some ts \<Rightarrow> Some (s\<lparr>tasks := ts\<rparr>) # ss
    | None \<Rightarrow> Some s # wake_scheds i ss)"

definition wake_sleeping_task :: "u64 \<Rightarrow> kernel \<Rightarrow> kernel" where
  "wake_sleeping_task i k = k\<lparr>SCHEDULERS := wake_scheds i (SCHEDULERS k)\<rparr>"

section \<open>Futexes\<close>

definition futex_match :: "u64 \<Rightarrow> u32 \<Rightarrow> task \<Rightarrow> bool" where
  "futex_match a bits t = (case t_state t of FutexWait a' bits' \<Rightarrow> a' = a \<and> bits' AND bits \<noteq> 0 | _ \<Rightarrow> False)"

primrec futex_wake_tasks :: "u64 \<Rightarrow> u32 \<Rightarrow> nat \<Rightarrow> task list \<Rightarrow> nat \<times> task list" where
  "futex_wake_tasks a bits n [] = (0, [])"
| "futex_wake_tasks a bits n (t # ts) =
    (if n = 0 then (0, t # ts)
     else if futex_match a bits t then
       (case futex_wake_tasks a bits (n - 1) ts of (w, ts') \<Rightarrow> (Suc w, wake_task t # ts'))
     else (case futex_wake_tasks a bits n ts of (w, ts') \<Rightarrow> (w, t # ts')))"

definition futex_wake_unlocked :: "u64 \<Rightarrow> u32 \<Rightarrow> u32 \<Rightarrow> scheduler \<Rightarrow> nat \<times> scheduler" where
  "futex_wake_unlocked a cnt bits s =
    (case futex_wake_tasks a bits (unat cnt) (tasks s) of (w, ts) \<Rightarrow> (w, s\<lparr>tasks := ts\<rparr>))"

fun futex_wake_scheds :: "u64 \<Rightarrow> nat \<Rightarrow> u32 \<Rightarrow> scheduler option list \<Rightarrow> nat \<times> scheduler option list" where
  "futex_wake_scheds a n bits [] = (0, [])"
| "futex_wake_scheds a n bits (None # ss) =
    (if n = 0 then (0, None # ss)
     else case futex_wake_scheds a n bits ss of (w, ss') \<Rightarrow> (w, None # ss'))"
| "futex_wake_scheds a n bits (Some s # ss) =
    (if n = 0 then (0, Some s # ss)
     else case futex_wake_unlocked a (of_nat n) bits s of (w, s') \<Rightarrow>
       (case futex_wake_scheds a (n - w) bits ss of (w', ss') \<Rightarrow> (w + w', Some s' # ss')))"

definition futex_wake :: "u64 \<Rightarrow> u32 \<Rightarrow> u32 \<Rightarrow> kernel \<Rightarrow> nat \<times> kernel" where
  "futex_wake a cnt bits k =
    (case futex_wake_scheds a (unat cnt) bits (SCHEDULERS k) of (w, ss) \<Rightarrow> (w, k\<lparr>SCHEDULERS := ss\<rparr>))"

definition requeue_task :: "u64 \<Rightarrow> task \<Rightarrow> task" where
  "requeue_task a2 t = (case t_state t of FutexWait _ bits \<Rightarrow> t\<lparr>t_state := FutexWait a2 bits\<rparr> | _ \<Rightarrow> t)"

primrec futex_requeue_tasks :: "u64 \<Rightarrow> u32 \<Rightarrow> u64 \<Rightarrow> nat \<Rightarrow> nat \<Rightarrow> task list \<Rightarrow> nat \<times> nat \<times> task list" where
  "futex_requeue_tasks a bits a2 n r [] = (0, 0, [])"
| "futex_requeue_tasks a bits a2 n r (t # ts) =
    (if n = 0 \<and> r = 0 then (0, 0, t # ts)
     else if futex_match a bits t \<and> 0 < n then
       (case futex_requeue_tasks a bits a2 (n - 1) r ts of (w, q, ts') \<Rightarrow> (Suc w, q, wake_task t # ts'))
     else if futex_match a bits t \<and> 0 < r then
       (case futex_requeue_tasks a bits a2 n (r - 1) ts of (w, q, ts') \<Rightarrow> (w, Suc q, requeue_task a2 t # ts'))
     else (case futex_requeue_tasks a bits a2 n r ts of (w, q, ts') \<Rightarrow> (w, q, t # ts')))"

fun futex_requeue_scheds ::
  "u64 \<Rightarrow> nat \<Rightarrow> u32 \<Rightarrow> u64 \<Rightarrow> nat \<Rightarrow> scheduler option list \<Rightarrow> nat \<times> nat \<times> scheduler option list" where
  "futex_requeue_scheds a n bits a2 r [] = (0, 0, [])"
| "futex_requeue_scheds a n bits a2 r (None # ss) =
    (if n = 0 \<and> r = 0 then (0, 0, None # ss)
     else case futex_requeue_scheds a n bits a2 r ss of (w, q, ss') \<Rightarrow> (w, q, None # ss'))"
| "futex_requeue_scheds a n bits a2 r (Some s # ss) =
    (if n = 0 \<and> r = 0 then (0, 0, Some s # ss)
     else case futex_requeue_tasks a bits a2 n r (tasks s) of (w, q, ts) \<Rightarrow>
       (case futex_requeue_scheds a (n - w) bits a2 (r - q) ss of (w', q', ss') \<Rightarrow>
         (w + w', q + q', Some (s\<lparr>tasks := ts\<rparr>) # ss')))"

definition futex_requeue :: "u64 \<Rightarrow> u32 \<Rightarrow> u32 \<Rightarrow> u64 \<Rightarrow> u32 \<Rightarrow> kernel \<Rightarrow> (nat \<times> nat) \<times> kernel" where
  "futex_requeue a wake_count bits a2 requeue_count k =
    (case futex_requeue_scheds a (unat wake_count) bits a2 (unat requeue_count) (SCHEDULERS k) of
      (w, q, ss) \<Rightarrow> ((w, q), k\<lparr>SCHEDULERS := ss\<rparr>))"

section \<open>Choosing the next task\<close>

text \<open>The scan of \<open>next_alive\<close> and \<open>next_runnable_yield\<close>: they differ in whether an equal tier replaces the
  best one so far; tier 0 ends the scan.\<close>

primrec best_of :: "(u8 \<Rightarrow> u8 \<Rightarrow> bool) \<Rightarrow> task list \<Rightarrow> nat list \<Rightarrow> nat option \<Rightarrow> u8 \<Rightarrow> nat option" where
  "best_of better ts [] best tier = best"
| "best_of better ts (i # is) best tier =
    (let t = ts ! i; r = priority_tier (t_priority t) in
     if t_state t = Runnable \<and> better r tier
     then (if r = 0 then Some i else best_of better ts is (Some i) r)
     else best_of better ts is best tier)"

definition next_alive :: "scheduler \<Rightarrow> nat \<Rightarrow> nat option" where
  "next_alive s cur =
    (let n = length (tasks s) in best_of (<) (tasks s) (map (\<lambda>off. (cur + off) mod n) [1..<n + 1]) None 255)"

definition next_runnable_yield :: "scheduler \<Rightarrow> nat \<Rightarrow> nat" where
  "next_runnable_yield s cur =
    (let n = length (tasks s) in
     case best_of (\<le>) (tasks s) (map (\<lambda>off. (cur + off) mod n) [1..<n]) None 255 of
       Some i \<Rightarrow> i | None \<Rightarrow> cur)"

section \<open>Switching\<close>

text \<open>What the processor does next: return to a task from a system call or from the interrupt, keep
  running the interrupted code, wait for an interrupt, or leave the scheduler.\<close>

datatype switch =
    Resume user_context u64
  | ResumeInterrupt interrupt_context u64
  | Continue interrupt_context
  | Idle
  | NoTasks

definition set_sched :: "nat \<Rightarrow> scheduler \<Rightarrow> kernel \<Rightarrow> kernel" where
  "set_sched cpu s k = k\<lparr>SCHEDULERS := (SCHEDULERS k)[cpu := Some s]\<rparr>"

definition save_regs :: "user_context \<Rightarrow> interrupt_context \<Rightarrow> interrupt_context" where
  "save_regs c i = i\<lparr>ic_rbx := uc_rbx c, ic_rbp := uc_rbp c, ic_r12 := uc_r12 c, ic_r13 := uc_r13 c,
     ic_r14 := uc_r14 c, ic_r15 := uc_r15 c, ic_rdi := uc_rdi c, ic_rsi := uc_rsi c, ic_rdx := uc_rdx c,
     ic_r8 := uc_r8 c, ic_r9 := uc_r9 c, ic_r10 := uc_r10 c, ic_rcx := uc_rcx c, ic_r11 := uc_r11 c,
     ic_rax := uc_return_value c, ic_instruction_pointer := uc_instruction_pointer c,
     ic_stack_pointer := uc_stack_pointer c\<rparr>"

text \<open>The task used up its slice or gave it away: one step down, new slice.\<close>

definition demote :: "task \<Rightarrow> task" where
  "demote t =
    (let p = (if t_priority t < PRIO_BATCH_MAX then t_priority t + 1 else t_priority t) in
     t\<lparr>t_priority := p, t_slice := slice_for_priority p\<rparr>)"

definition resume :: "nat \<Rightarrow> nat \<Rightarrow> scheduler \<Rightarrow> kernel \<Rightarrow> (switch \<times> kernel) option" where
  "resume cpu nxt s k =
    (if nxt < length (tasks s) then
       (let s' = s\<lparr>current := nxt, slice_ticks := 0\<rparr>; t = tasks s ! nxt in
        case t_process t of
          None \<Rightarrow> None
        | Some p \<Rightarrow> Some (Resume (t_context t) (p_space p), set_sched cpu s' k))
     else None)"

definition current_target :: "nat \<Rightarrow> kernel \<Rightarrow> (user_context \<times> u64) option" where
  "current_target cpu k =
    (case SCHEDULERS k ! cpu of
      None \<Rightarrow> None
    | Some s \<Rightarrow>
       (if current s < length (tasks s) then
          (let t = tasks s ! current s in map_option (\<lambda>p. (t_context t, p_space p)) (t_process t))
        else None))"

definition yield_current :: "nat \<Rightarrow> user_context \<Rightarrow> kernel \<Rightarrow> (switch \<times> kernel) option" where
  "yield_current cpu c k =
    (case SCHEDULERS k ! cpu of
      None \<Rightarrow> None
    | Some s \<Rightarrow>
       (let prev = current s in
        if prev < length (tasks s) then
          (let t = tasks s ! prev;
               i = (save_regs c (t_interrupt t))\<lparr>ic_flags := uc_flags c\<rparr>;
               s' = s\<lparr>tasks := (tasks s)[prev := demote (t\<lparr>t_context := c, t_interrupt := i\<rparr>)]\<rparr> in
           resume cpu (next_runnable_yield s' prev) s' k)
        else None))"

definition context_of :: "interrupt_context \<Rightarrow> user_context" where
  "context_of i = \<lparr>uc_return_value = ic_rax i, uc_rbx = ic_rbx i, uc_rbp = ic_rbp i, uc_r12 = ic_r12 i,
     uc_r13 = ic_r13 i, uc_r14 = ic_r14 i, uc_r15 = ic_r15 i, uc_rdi = ic_rdi i, uc_rsi = ic_rsi i,
     uc_rdx = ic_rdx i, uc_r8 = ic_r8 i, uc_r9 = ic_r9 i, uc_r10 = ic_r10 i,
     uc_instruction_pointer = ic_instruction_pointer i, uc_flags = ic_flags i OR 0x202,
     uc_stack_pointer = ic_stack_pointer i, uc_rcx = ic_rcx i, uc_r11 = ic_r11 i\<rparr>"

text \<open>The part of \<open>timer_tick\<close> that charges the running task and preempts it.\<close>

definition preempt :: "nat \<Rightarrow> interrupt_context \<Rightarrow> kernel \<Rightarrow> (switch \<times> kernel) option" where
  "preempt cpu c k =
    (if \<not> interrupted_user_mode c then Some (Continue c, k)
     else case SCHEDULERS k ! cpu of
       None \<Rightarrow> Some (Continue c, k)
     | Some s0 \<Rightarrow>
        (let s = s0\<lparr>sched_ticks := sched_ticks s0 + 1\<rparr>; prev = current s in
         if prev < length (tasks s) then
           (let t0 = tasks s ! prev;
                left = (if 0 < t_slice t0 then t_slice t0 - 1 else t_slice t0);
                t = t0\<lparr>t_cpu_ticks := t_cpu_ticks t0 + 1, t_slice := left\<rparr> in
            if 0 < left then Some (Continue c, set_sched cpu (s\<lparr>tasks := (tasks s)[prev := t]\<rparr>) k)
            else
              (let d = demote t;
                   s1 = s\<lparr>tasks := (tasks s)[prev := d], slice_ticks := 0\<rparr>;
                   nxt = (case next_alive s1 prev of Some i \<Rightarrow> i | None \<Rightarrow> prev) in
               if prev = nxt then Some (Continue c, set_sched cpu s1 k)
               else
                 (let i = c\<lparr>ic_flags := ic_flags c OR 0x202\<rparr>;
                      s2 = s1\<lparr>tasks := (tasks s1)[prev := d\<lparr>t_interrupt := i, t_context := context_of i\<rparr>], current := nxt\<rparr>;
                      u = tasks s2 ! nxt in
                  case t_process u of
                    None \<Rightarrow> None
                  | Some p \<Rightarrow> Some (ResumeInterrupt (t_interrupt u) (p_space p), set_sched cpu s2 k))))
         else None))"

section \<open>Blocking\<close>

definition last_runnable :: "task list \<Rightarrow> nat option" where
  "last_runnable ts =
    (let is = filter (\<lambda>i. t_state (ts ! i) = Runnable) [0..<length ts] in if is = [] then None else Some (last is))"

definition remove_at :: "nat \<Rightarrow> 'a list \<Rightarrow> 'a list" where
  "remove_at i xs = take i xs @ drop (Suc i) xs"

text \<open>Stealing: the peers in order; \<open>free\<close> tells which locks can be taken without waiting.\<close>

primrec steal :: "nat \<Rightarrow> (nat \<Rightarrow> bool) \<Rightarrow> nat list \<Rightarrow> kernel \<Rightarrow> nat option \<times> kernel" where
  "steal cpu free [] k = (None, k)"
| "steal cpu free (peer # ps) k =
    (if peer = cpu \<or> \<not> free peer then steal cpu free ps k
     else case SCHEDULERS k ! peer of
       None \<Rightarrow> steal cpu free ps k
     | Some s \<Rightarrow>
        if 3 \<le> length (filter (\<lambda>t. t_state t = Runnable) (tasks s)) then
          (case last_runnable (tasks s) of
            None \<Rightarrow> steal cpu free ps k
          | Some pos \<Rightarrow>
              if pos \<noteq> current s then
                (let stolen = tasks s ! pos;
                     k1 = set_sched peer (s\<lparr>tasks := remove_at pos (tasks s)\<rparr>) k in
                 case SCHEDULERS k1 ! cpu of
                   Some m \<Rightarrow> (Some (length (tasks m)), set_sched cpu (m\<lparr>tasks := tasks m @ [stolen]\<rparr>) k1)
                 | None \<Rightarrow> steal cpu free ps k1)
              else steal cpu free ps k)
        else steal cpu free ps k)"

text \<open>One round of \<open>wait_for_next_runnable\<close>; without a task the processor waits for an interrupt and tries again.\<close>

definition find_next :: "nat \<Rightarrow> nat \<Rightarrow> (nat \<Rightarrow> bool) \<Rightarrow> kernel \<Rightarrow> nat option \<times> kernel" where
  "find_next cpu prev free k =
    (case SCHEDULERS k ! cpu of
      Some s \<Rightarrow>
        (case next_alive s prev of
          Some i \<Rightarrow> (Some i, k)
        | None \<Rightarrow> steal cpu free [0..<MAX_CPUS] k)
    | None \<Rightarrow> steal cpu free [0..<MAX_CPUS] k)"

definition dispatch :: "nat \<Rightarrow> nat \<Rightarrow> (nat \<Rightarrow> bool) \<Rightarrow> kernel \<Rightarrow> (switch \<times> kernel) option" where
  "dispatch cpu prev free k =
    (case find_next cpu prev free k of
      (None, k') \<Rightarrow> Some (Idle, k')
    | (Some i, k') \<Rightarrow> (case SCHEDULERS k' ! cpu of None \<Rightarrow> None | Some s \<Rightarrow> resume cpu i s k'))"

text \<open>The common body of the blocking calls: save the registers, set the state, run another task.\<close>

definition block_current ::
  "nat \<Rightarrow> task_state \<Rightarrow> u64 \<times> u64 \<Rightarrow> user_context \<Rightarrow> (nat \<Rightarrow> bool) \<Rightarrow> kernel \<Rightarrow> (switch \<times> kernel) option" where
  "block_current cpu st selectors c free k =
    (case SCHEDULERS k ! cpu of
      None \<Rightarrow> None
    | Some s \<Rightarrow>
       (let prev = current s in
        if prev < length (tasks s) then
          (let t = tasks s ! prev;
               i = (save_regs c (t_interrupt t))\<lparr>ic_flags := uc_flags c OR 0x202,
                 ic_code_segment := fst selectors, ic_stack_segment := snd selectors\<rparr>;
               s' = s\<lparr>tasks := (tasks s)[prev := t\<lparr>t_context := c, t_interrupt := i, t_state := st\<rparr>]\<rparr> in
           dispatch cpu prev free (set_sched cpu s' k))
        else None))"

text \<open>The argument is what \<open>pipe_wait_key\<close> returns for the descriptor.\<close>

definition block_pipe_current ::
  "nat \<Rightarrow> u64 option \<Rightarrow> u64 \<times> u64 \<Rightarrow> user_context \<Rightarrow> (nat \<Rightarrow> bool) \<Rightarrow> kernel \<Rightarrow> (switch \<times> kernel) option" where
  "block_pipe_current cpu key selectors c free k =
    (case key of
      None \<Rightarrow> (case current_target cpu k of None \<Rightarrow> None | Some (_, space) \<Rightarrow> Some (Resume c space, k))
    | Some i \<Rightarrow>
        block_current cpu (PipeWaiting i) selectors (c\<lparr>uc_instruction_pointer := uc_instruction_pointer c - 2\<rparr>) free k)"

definition futex_wait_current ::
  "nat \<Rightarrow> u64 \<Rightarrow> u32 \<Rightarrow> u64 \<times> u64 \<Rightarrow> user_context \<Rightarrow> (nat \<Rightarrow> bool) \<Rightarrow> kernel \<Rightarrow> (switch \<times> kernel) option" where
  "futex_wait_current cpu a bits selectors c =
    block_current cpu (FutexWait a bits) selectors (c\<lparr>uc_return_value := 0\<rparr>)"

definition block_sleep_current ::
  "nat \<Rightarrow> u64 \<Rightarrow> u64 \<Rightarrow> u64 \<times> u64 \<Rightarrow> user_context \<Rightarrow> (nat \<Rightarrow> bool) \<Rightarrow> kernel \<Rightarrow> (switch \<times> kernel) option" where
  "block_sleep_current cpu target rem selectors c =
    block_current cpu (Sleeping target rem) selectors (c\<lparr>uc_return_value := 0\<rparr>)"

definition wait_current ::
  "nat \<Rightarrow> u64 \<Rightarrow> u64 \<Rightarrow> u64 \<times> u64 \<Rightarrow> user_context \<Rightarrow> (nat \<Rightarrow> bool) \<Rightarrow> kernel \<Rightarrow> (switch \<times> kernel) option" where
  "wait_current cpu i ptr selectors c = block_current cpu (Waiting i ptr) selectors c"

section \<open>Identity, groups and priorities\<close>

definition current_field :: "'a \<Rightarrow> (task \<Rightarrow> 'a) \<Rightarrow> nat \<Rightarrow> kernel \<Rightarrow> 'a option" where
  "current_field d f cpu k =
    (case SCHEDULERS k ! cpu of
      None \<Rightarrow> Some d
    | Some s \<Rightarrow> if current s < length (tasks s) then Some (f (tasks s ! current s)) else None)"

definition current_pid :: "nat \<Rightarrow> kernel \<Rightarrow> u64 option" where
  "current_pid = current_field 0 t_tgid"

definition current_tid :: "nat \<Rightarrow> kernel \<Rightarrow> u64 option" where
  "current_tid = current_field 0 t_tid"

definition current_cpu_ticks :: "nat \<Rightarrow> kernel \<Rightarrow> u64 option" where
  "current_cpu_ticks = current_field 0 t_cpu_ticks"

definition current_parent_pid :: "nat \<Rightarrow> kernel \<Rightarrow> u64 option" where
  "current_parent_pid = current_field 0 (\<lambda>t. case t_parent_pid t of Some p \<Rightarrow> p | None \<Rightarrow> 0)"

definition current_pgid :: "nat \<Rightarrow> kernel \<Rightarrow> u64 option" where
  "current_pgid = current_field 0 t_pgid"

definition current_sid :: "nat \<Rightarrow> kernel \<Rightarrow> u64 option" where
  "current_sid = current_field 0 t_sid"

definition update_current :: "(task \<Rightarrow> task) \<Rightarrow> scheduler \<Rightarrow> scheduler option" where
  "update_current f s =
    (if current s < length (tasks s)
     then Some (s\<lparr>tasks := (tasks s)[current s := f (tasks s ! current s)]\<rparr>) else None)"

definition set_current_pgid :: "nat \<Rightarrow> u64 \<Rightarrow> kernel \<Rightarrow> (unit, kernel) outcome" where
  "set_current_pgid cpu g k =
    (case SCHEDULERS k ! cpu of
      None \<Rightarrow> Err ()
    | Some s \<Rightarrow>
       (case update_current (t_pgid_update (\<lambda>_. g)) s of None \<Rightarrow> Panic | Some s' \<Rightarrow> Ok (set_sched cpu s' k)))"

definition setsid_current :: "nat \<Rightarrow> kernel \<Rightarrow> (u64 \<times> kernel) option" where
  "setsid_current cpu k =
    (case SCHEDULERS k ! cpu of
      None \<Rightarrow> Some (1, k)
    | Some s \<Rightarrow>
       map_option (\<lambda>s'. (t_tgid (tasks s ! current s), set_sched cpu s' k))
         (update_current (\<lambda>t. t\<lparr>t_sid := t_tgid t, t_pgid := t_tgid t\<rparr>) s))"

text \<open>The loops that change the first task of a process and stop.\<close>

primrec update_first :: "(task \<Rightarrow> bool) \<Rightarrow> (task \<Rightarrow> task) \<Rightarrow> task list \<Rightarrow> task list option" where
  "update_first P f [] = None"
| "update_first P f (t # ts) = (if P t then Some (f t # ts) else map_option ((#) t) (update_first P f ts))"

definition target_pid :: "u64 \<Rightarrow> scheduler \<Rightarrow> u64 option" where
  "target_pid pid s =
    (if pid = 0 then (if current s < length (tasks s) then Some (t_tgid (tasks s ! current s)) else None) else Some pid)"

definition setpgid_task :: "nat \<Rightarrow> u64 \<Rightarrow> u64 \<Rightarrow> kernel \<Rightarrow> (unit, kernel) outcome" where
  "setpgid_task cpu pid pgid k =
    (case SCHEDULERS k ! cpu of
      None \<Rightarrow> Err ()
    | Some s \<Rightarrow>
       (case target_pid pid s of
         None \<Rightarrow> Panic
       | Some target \<Rightarrow>
          (case update_first (\<lambda>t. t_tgid t = target) (\<lambda>t. t\<lparr>t_pgid := if pgid = 0 then target else pgid\<rparr>) (tasks s) of
            None \<Rightarrow> Err ()
          | Some ts \<Rightarrow> Ok (set_sched cpu (s\<lparr>tasks := ts\<rparr>) k))))"

definition lookup_task :: "(task \<Rightarrow> 'a) \<Rightarrow> nat \<Rightarrow> u64 \<Rightarrow> kernel \<Rightarrow> 'a option option" where
  "lookup_task f cpu pid k =
    (case SCHEDULERS k ! cpu of
      None \<Rightarrow> Some None
    | Some s \<Rightarrow>
       map_option (\<lambda>target. map_option f (find (\<lambda>t. t_tgid t = target) (tasks s))) (target_pid pid s))"

definition getpgid_task :: "nat \<Rightarrow> u64 \<Rightarrow> kernel \<Rightarrow> u64 option option" where
  "getpgid_task = lookup_task t_pgid"

definition getsid_task :: "nat \<Rightarrow> u64 \<Rightarrow> kernel \<Rightarrow> u64 option option" where
  "getsid_task = lookup_task t_sid"

fun update_first_sched :: "(task \<Rightarrow> bool) \<Rightarrow> (task \<Rightarrow> task) \<Rightarrow> scheduler option list \<Rightarrow> scheduler option list option" where
  "update_first_sched P f [] = None"
| "update_first_sched P f (None # ss) = map_option ((#) None) (update_first_sched P f ss)"
| "update_first_sched P f (Some s # ss) =
    (case update_first P f (tasks s) of
      Some ts \<Rightarrow> Some (Some (s\<lparr>tasks := ts\<rparr>) # ss)
    | None \<Rightarrow> map_option ((#) (Some s)) (update_first_sched P f ss))"

definition with_priority :: "u8 \<Rightarrow> task \<Rightarrow> task" where
  "with_priority p t = t\<lparr>t_priority := p, t_base_priority := p, t_slice := slice_for_priority p\<rparr>"

definition set_priority :: "nat \<Rightarrow> u64 \<Rightarrow> u8 \<Rightarrow> kernel \<Rightarrow> (unit, kernel) outcome" where
  "set_priority cpu pid priority k =
    (let clamped = min priority PRIO_BATCH_MAX in
     if pid = 0 then
       (case SCHEDULERS k ! cpu of
         None \<Rightarrow> Err ()
       | Some s \<Rightarrow>
          (case update_current (with_priority clamped) s of None \<Rightarrow> Panic | Some s' \<Rightarrow> Ok (set_sched cpu s' k)))
     else
       (case update_first_sched (\<lambda>t. t_tgid t = pid) (with_priority clamped) (SCHEDULERS k) of
         None \<Rightarrow> Err ()
       | Some ss \<Rightarrow> Ok (k\<lparr>SCHEDULERS := ss\<rparr>)))"

definition all_tasks :: "scheduler option list \<Rightarrow> task list" where
  "all_tasks ss = concat (map (\<lambda>s. case s of None \<Rightarrow> [] | Some s \<Rightarrow> tasks s) ss)"

definition get_priority :: "nat \<Rightarrow> u64 \<Rightarrow> kernel \<Rightarrow> u8 option option" where
  "get_priority cpu pid k =
    (if pid = 0 then
       (case SCHEDULERS k ! cpu of
         None \<Rightarrow> Some None
       | Some s \<Rightarrow> if current s < length (tasks s) then Some (Some (t_priority (tasks s ! current s))) else None)
     else Some (map_option t_priority (find (\<lambda>t. t_tgid t = pid) (all_tasks (SCHEDULERS k)))))"

section \<open>Lemmas: the choice of a task\<close>

definition tier :: "task list \<Rightarrow> nat \<Rightarrow> u8" where
  "tier ts i = priority_tier (t_priority (ts ! i))"

definition runnable :: "task list \<Rightarrow> nat \<Rightarrow> bool" where
  "runnable ts i \<longleftrightarrow> t_state (ts ! i) = Runnable"

lemma tier_le: "tier ts i \<le> 3"
  by (simp add: tier_def priority_tier_def)

lemma tier_less: "tier ts i < 255"
  using tier_le [of ts i] by (rule order.strict_trans1) simp

lemma best_of_less:
  assumes "best_of (<) ts is b r = Some i"
  shows "(b = Some i \<and> (\<forall>j\<in>set is. runnable ts j \<longrightarrow> r \<le> tier ts j)) \<or>
    (\<exists>xs ys. is = xs @ i # ys \<and> runnable ts i \<and> tier ts i < r \<and>
      (\<forall>j\<in>set xs. runnable ts j \<longrightarrow> tier ts i < tier ts j) \<and> (\<forall>j\<in>set ys. runnable ts j \<longrightarrow> tier ts i \<le> tier ts j))"
  using assms
proof (induction "is" arbitrary: b r)
  case (Cons x xs)
  let ?r = "tier ts x"
  show ?case
  proof (cases "runnable ts x \<and> ?r < r")
    case take: True
    show ?thesis
    proof (cases "?r = 0")
      case True
      then have "i = x"
        using Cons.prems take by (simp add: Let_def tier_def runnable_def)
      then show ?thesis
        using take True by (intro disjI2 exI [of _ "[]"] exI [of _ xs]) simp
    next
      case False
      then have "best_of (<) ts xs (Some x) ?r = Some i"
        using Cons.prems take by (simp add: Let_def tier_def runnable_def)
      from Cons.IH [OF this] show ?thesis
      proof (elim disjE exE conjE)
        assume "Some x = Some i" "\<forall>j\<in>set xs. runnable ts j \<longrightarrow> ?r \<le> tier ts j"
        then show ?thesis
          using take by (intro disjI2 exI [of _ "[]"] exI [of _ xs]) simp
      next
        fix us vs
        assume "xs = us @ i # vs" "runnable ts i" "tier ts i < ?r"
          "\<forall>j\<in>set us. runnable ts j \<longrightarrow> tier ts i < tier ts j" "\<forall>j\<in>set vs. runnable ts j \<longrightarrow> tier ts i \<le> tier ts j"
        then show ?thesis
          using take by (intro disjI2 exI [of _ "x # us"] exI [of _ vs]) auto
      qed
    qed
  next
    case skip: False
    then have "best_of (<) ts xs b r = Some i"
      using Cons.prems by (auto simp: Let_def tier_def runnable_def)
    from Cons.IH [OF this] show ?thesis
    proof (elim disjE exE conjE)
      assume "b = Some i" "\<forall>j\<in>set xs. runnable ts j \<longrightarrow> r \<le> tier ts j"
      then show ?thesis
        using skip by auto
    next
      fix us vs
      assume "xs = us @ i # vs" "runnable ts i" "tier ts i < r"
        "\<forall>j\<in>set us. runnable ts j \<longrightarrow> tier ts i < tier ts j" "\<forall>j\<in>set vs. runnable ts j \<longrightarrow> tier ts i \<le> tier ts j"
      then show ?thesis
        using skip by (intro disjI2 exI [of _ "x # us"] exI [of _ vs]) auto
    qed
  qed
qed simp

lemma best_of_Some [simp]: "\<exists>j. best_of better ts is (Some i) r = Some j"
  by (induction "is" arbitrary: i r) (simp_all add: Let_def)

lemma best_of_None:
  assumes "\<And>i. better (tier ts i) r"
  shows "best_of better ts is None r = None \<longleftrightarrow> (\<forall>i\<in>set is. \<not> runnable ts i)"
proof (induction "is")
  case (Cons x xs)
  then show ?case
    using assms [of x] by (auto simp: Let_def tier_def [symmetric] runnable_def)
qed simp

lemma best_of_in:
  assumes "best_of better ts is b r = Some i"
  shows "b = Some i \<or> i \<in> set is \<and> runnable ts i"
  using assms
proof (induction "is" arbitrary: b r)
  case (Cons x xs)
  then show ?case
    by (fastforce simp: Let_def runnable_def split: if_splits)
qed simp

text \<open>The distance from one index to another around the table, between 1 and its length.\<close>

definition ahead :: "nat \<Rightarrow> nat \<Rightarrow> nat \<Rightarrow> nat" where
  "ahead n c i = (if c < i then i - c else n + i - c)"

lemma ahead_mod: "c < n \<Longrightarrow> i < n \<Longrightarrow> (c + ahead n c i) mod n = i"
  by (simp add: ahead_def)

lemma ahead_bounds: "c < n \<Longrightarrow> i < n \<Longrightarrow> 1 \<le> ahead n c i \<and> ahead n c i \<le> n"
  by (auto simp: ahead_def)

lemma ahead_of_offset: "c < n \<Longrightarrow> 1 \<le> off \<Longrightarrow> off \<le> n \<Longrightarrow> ahead n c ((c + off) mod n) = off"
  by (auto simp: ahead_def mod_if)

lemma offsets_set: "c < n \<Longrightarrow> set (map (\<lambda>off. (c + off) mod n) [1..<n + 1]) = {..<n}"
proof (intro equalityI subsetI)
  fix i assume "c < n" "i \<in> {..<n}"
  then show "i \<in> set (map (\<lambda>off. (c + off) mod n) [1..<n + 1])"
    using ahead_bounds [of c n i] ahead_mod [of c n i] by (auto intro!: image_eqI [of _ _ "ahead n c i"] simp del: upt_Suc)
qed (auto simp del: upt_Suc)

lemma map_upt_split:
  assumes "map f [a..<b] = xs @ y # ys"
  obtains k where "a \<le> k" "k < b" "y = f k" "xs = map f [a..<k]" "ys = map f [Suc k..<b]"
proof -
  let ?k = "a + length xs"
  have len: "length [a..<b] = length xs + Suc (length ys)"
    using arg_cong [OF assms, of length] by simp
  then have k: "?k < b"
    by simp
  have "[a..<b] = [a..<?k] @ ?k # [Suc ?k..<b]"
    using k upt_add_eq_append [of a ?k "b - ?k"] upt_conv_Cons [of ?k b] by simp
  then have "xs @ y # ys = map f [a..<?k] @ f ?k # map f [Suc ?k..<b]"
    using assms by simp
  then show ?thesis
    using k by (intro that [of ?k]) (auto simp: append_eq_append_conv)
qed

lemma next_alive_None:
  assumes "c < length (tasks s)"
  shows "next_alive s c = None \<longleftrightarrow> (\<forall>i<length (tasks s). \<not> runnable (tasks s) i)"
  unfolding next_alive_def Let_def
  using offsets_set [OF assms] by (subst best_of_None) (auto simp: tier_less)

text \<open>\<open>next_alive\<close> chooses, among the runnable tasks of the best tier, the next one around the table.\<close>

lemma next_alive_Some:
  assumes c: "c < length (tasks s)" and i: "next_alive s c = Some i"
  shows "i < length (tasks s)" "runnable (tasks s) i"
    "\<And>j. j < length (tasks s) \<Longrightarrow> runnable (tasks s) j \<Longrightarrow>
      tier (tasks s) i < tier (tasks s) j \<or>
      tier (tasks s) i = tier (tasks s) j \<and> ahead (length (tasks s)) c i \<le> ahead (length (tasks s)) c j"
proof -
  let ?ts = "tasks s"
  let ?n = "length ?ts"
  let ?f = "\<lambda>off. (c + off) mod ?n"
  have "best_of (<) ?ts (map ?f [1..<?n + 1]) None 255 = Some i"
    using i by (simp add: next_alive_def Let_def)
  from best_of_less [OF this] obtain xs ys where
    split: "map ?f [1..<?n + 1] = xs @ i # ys" and r: "runnable ?ts i"
    and xs: "\<forall>j\<in>set xs. runnable ?ts j \<longrightarrow> tier ?ts i < tier ?ts j"
    and ys: "\<forall>j\<in>set ys. runnable ?ts j \<longrightarrow> tier ?ts i \<le> tier ?ts j"
    by auto
  from map_upt_split [OF split] obtain k where k: "1 \<le> k" "k < ?n + 1" "i = ?f k"
    "xs = map ?f [1..<k]" "ys = map ?f [Suc k..<?n + 1]" .
  show "runnable ?ts i" by (rule r)
  show "i < ?n"
    unfolding k(3) using c by (intro mod_less_divisor) auto
  have ki: "ahead ?n c i = k"
    using ahead_of_offset [of c ?n k] k c by simp
  fix j assume j: "j < ?n" "runnable ?ts j"
  let ?k = "ahead ?n c j"
  have kj: "1 \<le> ?k" "?k \<le> ?n" "j = ?f ?k"
    using ahead_bounds [of c ?n j] ahead_mod [of c ?n j] c j by simp_all
  show "tier ?ts i < tier ?ts j \<or> tier ?ts i = tier ?ts j \<and> ahead ?n c i \<le> ahead ?n c j"
  proof (cases "?k < k")
    case True
    then have "j \<in> set xs"
      unfolding k using kj by (auto intro!: image_eqI [of _ _ ?k] simp del: upt_Suc)
    then show ?thesis using xs j by blast
  next
    case False
    have "tier ?ts i \<le> tier ?ts j"
    proof (cases "?k = k")
      case False
      then have "j \<in> set ys"
        unfolding k using kj \<open>\<not> ?k < k\<close> by (auto intro!: image_eqI [of _ _ ?k] simp del: upt_Suc)
      then show ?thesis using ys j by blast
    qed (use kj k in simp)
    then show ?thesis
      using False ki by auto
  qed
qed

lemma next_runnable_yield_ok:
  assumes "c < length (tasks s)"
  shows "next_runnable_yield s c < length (tasks s) \<and>
    (next_runnable_yield s c \<noteq> c \<longrightarrow> runnable (tasks s) (next_runnable_yield s c))"
proof -
  let ?is = "map (\<lambda>off. (c + off) mod length (tasks s)) [1..<length (tasks s)]"
  have "set ?is \<subseteq> {..<length (tasks s)}"
    using assms by (auto intro!: mod_less_divisor)
  then show ?thesis
    using assms best_of_in [of "(\<le>)" "tasks s" ?is None 255]
    by (cases "best_of (\<le>) (tasks s) ?is None 255") (auto simp: next_runnable_yield_def Let_def)
qed

section \<open>Lemmas: no task is lost, no exited task is run\<close>

text \<open>Only a zombie or a reaped task may have given up its process.\<close>

definition dead :: "task_state \<Rightarrow> bool" where
  "dead st = (case st of Zombie _ \<Rightarrow> True | Reaped \<Rightarrow> True | _ \<Rightarrow> False)"

definition task_ok :: "task \<Rightarrow> bool" where
  "task_ok t \<longleftrightarrow> dead (t_state t) \<or> t_process t \<noteq> None"

definition procs_ok :: "scheduler \<Rightarrow> bool" where
  "procs_ok s \<longleftrightarrow> (\<forall>t\<in>set (tasks s). task_ok t)"

definition running_ok :: "scheduler \<Rightarrow> bool" where
  "running_ok s \<longleftrightarrow> current s < length (tasks s) \<and> runnable (tasks s) (current s)"

text \<open>\<open>B\<close> is the set of processors that run a task; the others wait for an interrupt inside a blocking call.\<close>

definition kernel_ok :: "nat set \<Rightarrow> kernel \<Rightarrow> bool" where
  "kernel_ok B k \<longleftrightarrow> length (SCHEDULERS k) = MAX_CPUS \<and> B \<subseteq> {..<MAX_CPUS} \<and>
    (\<forall>s. Some s \<in> set (SCHEDULERS k) \<longrightarrow> procs_ok s) \<and>
    (\<forall>cpu\<in>B. \<exists>s. SCHEDULERS k ! cpu = Some s \<and> running_ok s)"

definition task_key :: "task \<Rightarrow> u64 \<times> u64 \<times> process option" where
  "task_key t = (t_tid t, t_tgid t, t_process t)"

definition task_keys :: "kernel \<Rightarrow> (u64 \<times> u64 \<times> process option) multiset" where
  "task_keys k = image_mset task_key (mset (all_tasks (SCHEDULERS k)))"

primrec sched_keys :: "scheduler option \<Rightarrow> (u64 \<times> u64 \<times> process option) multiset" where
  "sched_keys None = {#}"
| "sched_keys (Some s) = image_mset task_key (mset (tasks s))"

lemma task_keys_sum: "task_keys k = sum_list (map sched_keys (SCHEDULERS k))"
proof -
  have "image_mset task_key (mset (all_tasks ss)) = sum_list (map sched_keys ss)" for ss
    by (induction ss) (auto simp: all_tasks_def split: option.splits)
  then show ?thesis
    by (simp add: task_keys_def)
qed

lemma sum_list_update_add:
  fixes xs :: "'a :: comm_monoid_add list"
  shows "i < length xs \<Longrightarrow> sum_list (xs[i := x]) + xs ! i = sum_list xs + x"
proof (induction xs arbitrary: i)
  case (Cons y ys)
  show ?case
  proof (cases i)
    case (Suc j)
    then show ?thesis
      using Cons.IH [of j] Cons.prems by (simp add: add.assoc)
  qed (simp add: ac_simps)
qed simp

lemma set_sched_simps [simp]:
  "length (SCHEDULERS (set_sched c s k)) = length (SCHEDULERS k)"
  "c < length (SCHEDULERS k) \<Longrightarrow> SCHEDULERS (set_sched c s k) ! c = Some s"
  "c \<noteq> d \<Longrightarrow> SCHEDULERS (set_sched c s k) ! d = SCHEDULERS k ! d"
  "set_sched c s (set_sched c s' k) = set_sched c s k"
  by (simp_all add: set_sched_def)

lemma task_keys_set_sched:
  assumes "c < length (SCHEDULERS k)"
  shows "task_keys (set_sched c s k) + sched_keys (SCHEDULERS k ! c) = task_keys k + sched_keys (Some s)"
  using sum_list_update_add [of c "map sched_keys (SCHEDULERS k)" "sched_keys (Some s)"] assms
  by (simp add: task_keys_sum set_sched_def map_update)

lemma task_keys_same:
  assumes "c < length (SCHEDULERS k)" "SCHEDULERS k ! c = Some s" "sched_keys (Some s') = sched_keys (Some s)"
  shows "task_keys (set_sched c s' k) = task_keys k"
  using task_keys_set_sched [OF assms(1), of s'] assms by simp

lemma mset_update_image:
  assumes "i < length ts" "f t = f (ts ! i)"
  shows "image_mset f (mset (ts[i := t])) = image_mset f (mset ts)"
proof -
  have "mset (map f (ts[i := t])) = mset (map f ts)"
    using assms by (metis list_update_id map_update)
  then show ?thesis by simp
qed

lemma procs_ok_update:
  assumes "procs_ok s" "task_ok t"
  shows "procs_ok (s\<lparr>tasks := (tasks s)[i := t]\<rparr>)"
  using assms set_update_subset_insert [of "tasks s" i t] by (auto simp: procs_ok_def)

lemma procs_ok_eq: "tasks s = tasks s' \<Longrightarrow> procs_ok s = procs_ok s'"
  by (simp add: procs_ok_def)

lemma kernel_ok_at:
  assumes "kernel_ok B k" "c \<in> B"
  obtains s where "SCHEDULERS k ! c = Some s" "running_ok s" "procs_ok s" "c < length (SCHEDULERS k)"
  using assms by (auto simp: kernel_ok_def) (metis lessThan_iff nth_mem subsetD)

lemma kernel_ok_sched:
  assumes "kernel_ok B k" "c \<in> B" "SCHEDULERS k ! c = Some s"
  shows "running_ok s" "procs_ok s" "c < length (SCHEDULERS k)"
proof -
  obtain s0 where "SCHEDULERS k ! c = Some s0" "running_ok s0" "procs_ok s0" "c < length (SCHEDULERS k)"
    using kernel_ok_at [OF assms(1,2)] .
  then show "running_ok s" "procs_ok s" "c < length (SCHEDULERS k)"
    using assms(3) by simp_all
qed

lemma kernel_ok_len: "kernel_ok B k \<Longrightarrow> length (SCHEDULERS k) = MAX_CPUS"
  by (simp add: kernel_ok_def)

lemma kernel_ok_set:
  assumes ok: "kernel_ok B k" and s: "procs_ok s" and C: "C \<subseteq> insert c B" "c < MAX_CPUS" "c \<in> C \<longrightarrow> running_ok s"
  shows "kernel_ok C (set_sched c s k)"
proof -
  have len: "length (SCHEDULERS k) = MAX_CPUS"
    using ok by (simp add: kernel_ok_def)
  have "procs_ok s'" if "Some s' \<in> set (SCHEDULERS (set_sched c s k))" for s'
    using that ok s set_update_subset_insert [of "SCHEDULERS k" c "Some s"] by (auto simp: kernel_ok_def set_sched_def)
  moreover have "\<exists>s'. SCHEDULERS (set_sched c s k) ! d = Some s' \<and> running_ok s'" if "d \<in> C" for d
    using that ok C len by (cases "d = c") (auto simp: kernel_ok_def)
  moreover have "C \<subseteq> {..<MAX_CPUS}"
    using C ok by (auto simp: kernel_ok_def)
  ultimately show ?thesis
    using len by (simp add: kernel_ok_def)
qed

lemma runnable_process:
  assumes "procs_ok s" "i < length (tasks s)" "runnable (tasks s) i"
  obtains p where "t_process (tasks s ! i) = Some p"
proof -
  have "task_ok (tasks s ! i)"
    using assms by (simp add: procs_ok_def)
  then show ?thesis
    using assms that by (auto simp: task_ok_def runnable_def dead_def)
qed

lemma resume_ok:
  assumes "procs_ok s" "i < length (tasks s)" "runnable (tasks s) i"
  shows "\<exists>space. resume cpu i s k =
    Some (Resume (t_context (tasks s ! i)) space, set_sched cpu (s\<lparr>current := i, slice_ticks := 0\<rparr>) k)"
proof -
  obtain p where "t_process (tasks s ! i) = Some p"
    using runnable_process [OF assms] .
  then show ?thesis
    using assms by (simp add: resume_def Let_def)
qed

lemma demote_simps [simp]:
  "t_state (demote t) = t_state t" "t_process (demote t) = t_process t" "task_key (demote t) = task_key t"
  "t_tid (demote t) = t_tid t" "t_tgid (demote t) = t_tgid t" "t_context (demote t) = t_context t"
  by (simp_all add: demote_def task_key_def Let_def)

lemma task_ok_cong: "t_state t = t_state u \<Longrightarrow> t_process t = t_process u \<Longrightarrow> task_ok t = task_ok u"
  by (simp add: task_ok_def)

lemma runnable_update_same:
  "t_state t = t_state (ts ! c) \<Longrightarrow> runnable (ts[c := t]) i = runnable ts i"
  by (cases "c < length ts"; cases "i = c") (auto simp: runnable_def list_update_beyond)

lemma update_task_ok:
  assumes ok: "kernel_ok B k" and c: "cpu \<in> B" "SCHEDULERS k ! cpu = Some s" "i < length (tasks s)"
    and t: "t_state t = t_state (tasks s ! i)" "task_key t = task_key (tasks s ! i)"
    and s': "tasks s' = (tasks s)[i := t]" "current s' < length (tasks s)" "runnable (tasks s) (current s')"
  shows "kernel_ok B (set_sched cpu s' k) \<and> task_keys (set_sched cpu s' k) = task_keys k"
proof -
  note s = kernel_ok_sched(2,3) [OF ok c(1,2)]
  have "task_ok t"
    using s c t task_ok_cong [of t "tasks s ! i"] by (simp add: procs_ok_def task_key_def)
  then have "procs_ok s'"
    using procs_ok_update [OF s(1), of t i] s' by (simp add: procs_ok_def)
  moreover have "running_ok s'"
    using s' runnable_update_same [OF t(1)] by (simp add: running_ok_def)
  moreover have "sched_keys (Some s') = sched_keys (Some s)"
    using c t s' by (simp add: mset_update_image)
  ultimately show ?thesis
    using kernel_ok_set [OF ok, of s' B cpu] kernel_ok_len [OF ok] c s task_keys_same [of cpu k s s'] by auto
qed

lemma yield_ok:
  assumes ok: "kernel_ok B k" and c: "cpu \<in> B"
  shows "\<exists>u space k'. yield_current cpu c k = Some (Resume u space, k') \<and> kernel_ok B k' \<and> task_keys k' = task_keys k"
proof -
  obtain s where s: "SCHEDULERS k ! cpu = Some s" "running_ok s" "procs_ok s" "cpu < length (SCHEDULERS k)"
    using kernel_ok_at [OF ok c] .
  let ?p = "current s"
  let ?t = "tasks s ! ?p"
  define t where "t = demote (?t\<lparr>t_context := c, t_interrupt := (save_regs c (t_interrupt ?t))\<lparr>ic_flags := uc_flags c\<rparr>\<rparr>)"
  let ?s = "s\<lparr>tasks := (tasks s)[?p := t]\<rparr>"
  let ?i = "next_runnable_yield ?s ?p"
  have p: "?p < length (tasks s)" "runnable (tasks s) ?p"
    using s by (simp_all add: running_ok_def)
  have t: "t_state t = t_state ?t" "task_key t = task_key ?t"
    by (simp_all add: t_def task_key_def)
  have i: "?i < length (tasks s)" "runnable (tasks s) ?i"
    using next_runnable_yield_ok [of ?p ?s] p runnable_update_same [OF t(1)] by auto
  have "task_ok t"
    using s p t task_ok_cong [of t ?t] by (simp add: procs_ok_def task_key_def)
  then have "procs_ok ?s"
    using s by (simp add: procs_ok_update)
  then obtain space where "resume cpu ?i ?s k =
      Some (Resume (t_context (tasks ?s ! ?i)) space, set_sched cpu (?s\<lparr>current := ?i, slice_ticks := 0\<rparr>) k)"
    using resume_ok [of ?s ?i cpu k] i runnable_update_same [OF t(1)] by auto
  moreover have "yield_current cpu c k = resume cpu ?i ?s k"
    using s p by (simp add: yield_current_def Let_def t_def)
  moreover have "kernel_ok B (set_sched cpu (?s\<lparr>current := ?i, slice_ticks := 0\<rparr>) k) \<and>
    task_keys (set_sched cpu (?s\<lparr>current := ?i, slice_ticks := 0\<rparr>) k) = task_keys k"
    using i by (intro update_task_ok [OF ok c s(1) p(1) t]) simp_all
  ultimately show ?thesis by auto
qed

lemma preempt_ok:
  assumes ok: "kernel_ok B k" and c: "cpu \<in> B"
  shows "\<exists>r k'. preempt cpu c k = Some (r, k') \<and> r \<noteq> Idle \<and> kernel_ok B k' \<and> task_keys k' = task_keys k"
proof (cases "interrupted_user_mode c")
  case user: True
  obtain s where s: "SCHEDULERS k ! cpu = Some s" "running_ok s" "procs_ok s" "cpu < length (SCHEDULERS k)"
    using kernel_ok_at [OF ok c] .
  let ?p = "current s"
  let ?t = "tasks s ! ?p"
  define left where "left = (if 0 < t_slice ?t then t_slice ?t - 1 else t_slice ?t)"
  define t where "t = ?t\<lparr>t_cpu_ticks := t_cpu_ticks ?t + 1, t_slice := left\<rparr>"
  let ?s = "s\<lparr>sched_ticks := sched_ticks s + 1\<rparr>"
  let ?s1 = "?s\<lparr>tasks := (tasks s)[?p := demote t], slice_ticks := 0\<rparr>"
  have p: "?p < length (tasks s)" "runnable (tasks s) ?p"
    using s by (simp_all add: running_ok_def)
  have t: "t_state t = t_state ?t" "task_key t = task_key ?t" "t_state (demote t) = t_state ?t"
    by (simp_all add: t_def task_key_def)
  obtain i where i: "next_alive ?s1 ?p = Some i"
    using next_alive_None [of ?p ?s1] p runnable_update_same [OF t(3)] by auto
  have ir: "i < length (tasks s)" "runnable (tasks s) i"
    using next_alive_Some(1,2) [OF _ i] p runnable_update_same [OF t(3)] by simp_all
  obtain q where q: "t_process (tasks s ! i) = Some q"
    using runnable_process [OF s(3) ir] .
  note upd = update_task_ok [OF ok c s(1) p(1)]
  consider (slice) "0 < left" | (stay) "left = 0" "i = ?p" | (switch) "left = 0" "i \<noteq> ?p"
    by (metis word_neq_0_conv)
  then show ?thesis
  proof cases
    case slice
    then have "preempt cpu c k = Some (Continue c, set_sched cpu (?s\<lparr>tasks := (tasks s)[?p := t]\<rparr>) k)"
      using user s p by (simp add: preempt_def Let_def t_def left_def)
    then show ?thesis
      using upd [of t "?s\<lparr>tasks := (tasks s)[?p := t]\<rparr>"] t p by simp
  next
    case stay
    then have "preempt cpu c k = Some (Continue c, set_sched cpu ?s1 k)"
      using user s p i by (simp add: preempt_def Let_def t_def left_def)
    then show ?thesis
      using upd [of "demote t" ?s1] t p by simp
  next
    case switch
    define d where "d = demote t\<lparr>t_interrupt := c\<lparr>ic_flags := ic_flags c OR 0x202\<rparr>,
      t_context := context_of (c\<lparr>ic_flags := ic_flags c OR 0x202\<rparr>)\<rparr>"
    let ?s2 = "?s1\<lparr>tasks := (tasks ?s1)[?p := d], current := i\<rparr>"
    have d: "t_state d = t_state ?t" "task_key d = task_key ?t"
      using t by (simp_all add: d_def task_key_def)
    have "preempt cpu c k = Some (ResumeInterrupt (t_interrupt (tasks s ! i)) (p_space q), set_sched cpu ?s2 k)"
      using user s p i q switch by (simp add: preempt_def Let_def t_def left_def d_def)
    then show ?thesis
      using upd [of d ?s2] d ir by simp
  qed
qed (use ok in \<open>simp add: preempt_def\<close>)

lemma sorted_last: "sorted (xs :: nat list) \<Longrightarrow> x \<in> set xs \<Longrightarrow> x \<le> last xs"
  by (induction xs) auto

lemma last_runnable_Some:
  assumes "last_runnable ts = Some pos"
  shows "pos < length ts" "runnable ts pos" "\<And>j. runnable ts j \<Longrightarrow> j < length ts \<Longrightarrow> j \<le> pos"
proof -
  let ?is = "filter (\<lambda>i. t_state (ts ! i) = Runnable) [0..<length ts]"
  have ne: "?is \<noteq> []" "pos = last ?is"
    using assms by (auto simp: last_runnable_def Let_def split: if_splits)
  then have "pos \<in> set ?is"
    using last_in_set by metis
  then show "pos < length ts" "runnable ts pos"
    by (auto simp: runnable_def)
  show "j \<le> pos" if "runnable ts j" "j < length ts" for j
    using that sorted_last [of ?is j] ne by (simp add: runnable_def sorted_wrt_filter)
qed

lemma remove_at_nth: "i < pos \<Longrightarrow> pos < length xs \<Longrightarrow> remove_at pos xs ! i = xs ! i"
  by (simp add: remove_at_def nth_append)

lemma remove_at_mset: "pos < length xs \<Longrightarrow> mset xs = add_mset (xs ! pos) (mset (remove_at pos xs))"
  by (metis id_take_nth_drop mset.simps(2) mset_append remove_at_def union_mset_add_mset_right)

lemma remove_at_length: "pos < length xs \<Longrightarrow> length (remove_at pos xs) = length xs - 1"
  by (simp add: remove_at_def)

lemma remove_at_set: "set (remove_at pos xs) \<subseteq> set xs"
  by (auto simp: remove_at_def dest: in_set_takeD in_set_dropD)

text \<open>Taking the last runnable task leaves the task its processor runs in place.\<close>

lemma remove_last_running_ok:
  assumes "running_ok s" "last_runnable (tasks s) = Some pos" "pos \<noteq> current s"
  shows "running_ok (s\<lparr>tasks := remove_at pos (tasks s)\<rparr>)"
proof -
  note last = last_runnable_Some [OF assms(2)]
  have "current s < pos"
    using last(3) [of "current s"] assms by (auto simp: running_ok_def)
  then show ?thesis
    using last(1) assms by (simp add: running_ok_def runnable_def remove_at_nth remove_at_length)
qed

lemma steal_step_ok:
  assumes ok: "kernel_ok B k" and cpu: "cpu < MAX_CPUS" "cpu \<notin> B" "SCHEDULERS k ! cpu = Some m"
    and peer: "peer < MAX_CPUS" "peer \<noteq> cpu" "SCHEDULERS k ! peer = Some s"
    and pos: "last_runnable (tasks s) = Some pos" "pos \<noteq> current s"
  defines "k1 \<equiv> set_sched peer (s\<lparr>tasks := remove_at pos (tasks s)\<rparr>) k"
  defines "k2 \<equiv> set_sched cpu (m\<lparr>tasks := tasks m @ [tasks s ! pos]\<rparr>) k1"
  shows "kernel_ok B k2 \<and> task_keys k2 = task_keys k"
proof -
  note last = last_runnable_Some [OF pos(1)]
  have len: "length (SCHEDULERS k) = MAX_CPUS"
    using ok by (rule kernel_ok_len)
  have procs: "procs_ok s" "procs_ok m"
    using ok cpu peer len by (auto simp: kernel_ok_def) (metis nth_mem)+
  have "procs_ok (s\<lparr>tasks := remove_at pos (tasks s)\<rparr>)"
    using procs remove_at_set [of pos "tasks s"] by (auto simp: procs_ok_def)
  moreover have "running_ok (s\<lparr>tasks := remove_at pos (tasks s)\<rparr>)" if "peer \<in> B"
  proof -
    have "running_ok s"
      using ok that peer(3) by (fastforce simp: kernel_ok_def)
    then show ?thesis using pos by (rule remove_last_running_ok)
  qed
  ultimately have k1: "kernel_ok B k1"
    unfolding k1_def using peer by (intro kernel_ok_set [OF ok]) auto
  have "procs_ok (m\<lparr>tasks := tasks m @ [tasks s ! pos]\<rparr>)"
    using procs last by (auto simp: procs_ok_def)
  then have "kernel_ok B k2"
    unfolding k2_def using cpu by (intro kernel_ok_set [OF k1]) auto
  moreover have "task_keys k2 = task_keys k"
  proof -
    have "task_keys k1 + {#task_key (tasks s ! pos)#} = task_keys k"
      using task_keys_set_sched [of peer k "s\<lparr>tasks := remove_at pos (tasks s)\<rparr>"] remove_at_mset [OF last(1)] peer len
      by (simp add: k1_def)
    moreover have "task_keys k2 = task_keys k1 + {#task_key (tasks s ! pos)#}"
      using task_keys_set_sched [of cpu k1 "m\<lparr>tasks := tasks m @ [tasks s ! pos]\<rparr>"] cpu peer len
      by (simp add: k2_def k1_def)
    ultimately show ?thesis by simp
  qed
  ultimately show ?thesis by simp
qed

lemma steal_skip:
  assumes "\<not> (\<exists>s pos. peer \<noteq> cpu \<and> SCHEDULERS k ! peer = Some s \<and> last_runnable (tasks s) = Some pos \<and>
    pos \<noteq> current s \<and> free peer \<and> 3 \<le> length (filter (\<lambda>t. t_state t = Runnable) (tasks s)))"
  shows "steal cpu free (peer # ps) k = steal cpu free ps k"
  using assms by (auto split: option.splits)

lemma steal_ok:
  assumes ok: "kernel_ok B k" and cpu: "cpu < MAX_CPUS" "cpu \<notin> B" "SCHEDULERS k ! cpu = Some m"
    and ps: "set ps \<subseteq> {..<MAX_CPUS}"
  shows "case steal cpu free ps k of
      (None, k') \<Rightarrow> k' = k
    | (Some i, k') \<Rightarrow> kernel_ok B k' \<and> task_keys k' = task_keys k \<and>
        (\<exists>m'. SCHEDULERS k' ! cpu = Some m' \<and> i < length (tasks m') \<and> runnable (tasks m') i)"
  using ps
proof (induction ps)
  case (Cons peer ps)
  let ?next = "steal cpu free (peer # ps) k = steal cpu free ps k"
  consider (skip) ?next
    | (take) s pos where "peer \<noteq> cpu" "SCHEDULERS k ! peer = Some s" "last_runnable (tasks s) = Some pos"
        "pos \<noteq> current s" "free peer" "3 \<le> length (filter (\<lambda>t. t_state t = Runnable) (tasks s))"
    using steal_skip [of peer cpu k free ps] by blast
  then show ?case
  proof cases
    case skip
    then show ?thesis
      using Cons by (simp del: steal.simps)
  next
    case take
    have peer: "peer < MAX_CPUS"
      using Cons.prems by simp
    have len: "cpu < length (SCHEDULERS k)"
      using ok cpu by (simp add: kernel_ok_len)
    have "runnable (tasks m @ [tasks s ! pos]) (length (tasks m))"
      using last_runnable_Some(2) [OF take(3)] by (simp add: runnable_def)
    then show ?thesis
      using take cpu len steal_step_ok [OF ok cpu peer take(1-4)] by (simp add: Let_def)
  qed
qed simp

definition running :: "nat \<Rightarrow> switch \<Rightarrow> nat set \<Rightarrow> nat set" where
  "running cpu r B = (if r = Idle then B - {cpu} else insert cpu B)"

lemma next_alive_in:
  assumes "next_alive s c = Some i"
  shows "i < length (tasks s) \<and> runnable (tasks s) i"
proof -
  let ?n = "length (tasks s)"
  have i: "i \<in> set (map (\<lambda>off. (c + off) mod ?n) [1..<?n + 1])" "runnable (tasks s) i"
    using assms best_of_in by (fastforce simp: next_alive_def Let_def)+
  then have "?n \<noteq> 0"
    by (auto simp del: upt_Suc)
  then show ?thesis
    using i by (auto simp del: upt_Suc intro!: mod_less_divisor)
qed

lemma dispatch_ok:
  assumes ok: "kernel_ok B k" and cpu: "cpu < MAX_CPUS" "cpu \<notin> B" "SCHEDULERS k ! cpu = Some m"
  shows "\<exists>r k'. dispatch cpu prev free k = Some (r, k') \<and> kernel_ok (running cpu r B) k' \<and> task_keys k' = task_keys k"
proof -
  have found: ?thesis if find: "find_next cpu prev free k = (Some i, k')" and k': "kernel_ok B k'" "task_keys k' = task_keys k"
    and m': "SCHEDULERS k' ! cpu = Some m'" "i < length (tasks m')" "runnable (tasks m') i" for i k' m'
  proof -
    let ?m = "m'\<lparr>current := i, slice_ticks := 0\<rparr>"
    have len: "cpu < length (SCHEDULERS k')"
      using k' cpu by (simp add: kernel_ok_len)
    have p: "procs_ok m'"
      using k' len m' by (auto simp: kernel_ok_def) (metis nth_mem)
    obtain space where r: "resume cpu i m' k' = Some (Resume (t_context (tasks m' ! i)) space, set_sched cpu ?m k')"
      using resume_ok [OF p m'(2,3)] by blast
    have "kernel_ok (insert cpu B) (set_sched cpu ?m k')"
      using p m' cpu by (intro kernel_ok_set [OF k'(1)]) (auto simp: procs_ok_def running_ok_def)
    moreover have "task_keys (set_sched cpu ?m k') = task_keys k'"
      using len m' by (intro task_keys_same) auto
    ultimately show ?thesis
      using find m' r k' by (auto simp: dispatch_def running_def)
  qed
  show ?thesis
  proof (cases "next_alive m prev")
    case (Some i)
    then show ?thesis
      using next_alive_in [OF Some] ok cpu by (intro found [of i k m]) (simp_all add: find_next_def)
  next
    case None
    then have f: "find_next cpu prev free k = steal cpu free [0..<MAX_CPUS] k"
      using cpu by (simp add: find_next_def)
    have st: "case steal cpu free [0..<MAX_CPUS] k of
      (None, k') \<Rightarrow> k' = k
    | (Some i, k') \<Rightarrow> kernel_ok B k' \<and> task_keys k' = task_keys k \<and>
        (\<exists>m'. SCHEDULERS k' ! cpu = Some m' \<and> i < length (tasks m') \<and> runnable (tasks m') i)"
      by (rule steal_ok [OF ok cpu]) auto
    show ?thesis
    proof (cases "steal cpu free [0..<MAX_CPUS] k")
      case (Pair r k')
      show ?thesis
      proof (cases r)
        case None
        then show ?thesis
          using st Pair f ok cpu by (simp add: dispatch_def running_def)
      next
        case (Some i)
        then show ?thesis
          using st Pair f by (auto intro: found [of i k'])
      qed
    qed
  qed
qed

lemma block_ok:
  assumes ok: "kernel_ok B k" and c: "cpu \<in> B"
  shows "\<exists>r k'. block_current cpu st sel c free k = Some (r, k') \<and> kernel_ok (running cpu r (B - {cpu})) k' \<and>
    task_keys k' = task_keys k"
proof -
  obtain s where s: "SCHEDULERS k ! cpu = Some s" "running_ok s" "procs_ok s" "cpu < length (SCHEDULERS k)"
    using kernel_ok_at [OF ok c] .
  let ?p = "current s"
  let ?t = "tasks s ! ?p"
  have p: "?p < length (tasks s)" "runnable (tasks s) ?p"
    using s by (simp_all add: running_ok_def)
  define i where "i = (save_regs c (t_interrupt ?t))\<lparr>ic_flags := uc_flags c OR 0x202,
    ic_code_segment := fst sel, ic_stack_segment := snd sel\<rparr>"
  define t where "t = ?t\<lparr>t_context := c, t_interrupt := i, t_state := st\<rparr>"
  let ?s = "s\<lparr>tasks := (tasks s)[?p := t]\<rparr>"
  have block: "block_current cpu st sel c free k = dispatch cpu ?p free (set_sched cpu ?s k)"
    using s p by (simp add: block_current_def Let_def t_def i_def)
  obtain q where "t_process ?t = Some q"
    using runnable_process [OF s(3) p] .
  then have "task_ok t"
    by (simp add: t_def task_ok_def)
  then have "kernel_ok (B - {cpu}) (set_sched cpu ?s k)"
    using s by (intro kernel_ok_set [OF ok] procs_ok_update) (auto simp: kernel_ok_len [OF ok])
  moreover have "task_keys (set_sched cpu ?s k) = task_keys k"
    using s p by (intro task_keys_same) (auto simp: mset_update_image t_def task_key_def)
  moreover have "SCHEDULERS (set_sched cpu ?s k) ! cpu = Some ?s"
    using s by simp
  ultimately show ?thesis
    using dispatch_ok [of "B - {cpu}" "set_sched cpu ?s k" cpu ?s ?p free] s block kernel_ok_len [OF ok] by auto
qed

text \<open>A wake-up changes only tasks that wait, and keeps their process.\<close>

definition woken :: "task \<Rightarrow> task \<Rightarrow> bool" where
  "woken t t' \<longleftrightarrow> t' = t \<or> t_state t \<noteq> Runnable \<and> \<not> dead (t_state t) \<and> task_key t' = task_key t"

definition woken_sched :: "scheduler \<Rightarrow> scheduler \<Rightarrow> bool" where
  "woken_sched s s' \<longleftrightarrow> current s' = current s \<and> list_all2 woken (tasks s) (tasks s')"

definition woken_kernel :: "kernel \<Rightarrow> kernel \<Rightarrow> bool" where
  "woken_kernel k k' \<longleftrightarrow> list_all2 (rel_option woken_sched) (SCHEDULERS k) (SCHEDULERS k')"

lemma woken_refl [simp]: "woken t t"
  by (simp add: woken_def)

lemma woken_tasks_refl [simp]: "list_all2 woken ts ts"
  by (simp add: list_all2_refl)

lemma woken_sched_refl [simp]: "woken_sched s s"
  by (simp add: woken_sched_def)

lemma woken_sched_tasks: "list_all2 woken (tasks s) ts \<Longrightarrow> woken_sched s (s\<lparr>tasks := ts\<rparr>)"
  by (simp add: woken_sched_def)

lemma woken_scheds_refl [simp]: "list_all2 (rel_option woken_sched) ss ss"
  by (simp add: list_all2_refl option.rel_refl)

lemma woken_wake_task: "t_state t \<noteq> Runnable \<Longrightarrow> \<not> dead (t_state t) \<Longrightarrow> woken t (wake_task t)"
  by (simp add: woken_def wake_task_def task_key_def Let_def)

lemma woken_task_ok: "woken t t' \<Longrightarrow> task_ok t \<Longrightarrow> task_ok t'"
  by (auto simp: woken_def task_ok_def task_key_def)

lemma woken_sched_ok:
  assumes "woken_sched s s'"
  shows "procs_ok s \<Longrightarrow> procs_ok s'" "running_ok s \<Longrightarrow> running_ok s'" "sched_keys (Some s') = sched_keys (Some s)"
proof -
  have l: "list_all2 woken (tasks s) (tasks s')" and c: "current s' = current s"
    using assms by (simp_all add: woken_sched_def)
  show "procs_ok s'" if "procs_ok s"
    using l that unfolding procs_ok_def by (induction rule: list_all2_induct) (auto intro: woken_task_ok)
  show "running_ok s'" if "running_ok s"
    using l that c by (auto simp: running_ok_def runnable_def list_all2_conv_all_nth woken_def)
  have "map task_key (tasks s') = map task_key (tasks s)"
    using l by (induction rule: list_all2_induct) (auto simp: woken_def)
  then show "sched_keys (Some s') = sched_keys (Some s)"
    by (metis mset_map sched_keys.simps(2))
qed

lemma woken_kernel_ok:
  assumes ok: "kernel_ok B k" and w: "woken_kernel k k'"
  shows "kernel_ok B k' \<and> task_keys k' = task_keys k"
proof -
  have l: "list_all2 (rel_option woken_sched) (SCHEDULERS k) (SCHEDULERS k')"
    using w by (simp add: woken_kernel_def)
  then have len: "length (SCHEDULERS k') = length (SCHEDULERS k)"
    by (simp add: list_all2_lengthD)
  have "procs_ok s'" if s': "Some s' \<in> set (SCHEDULERS k')" for s'
  proof -
    obtain i where i: "i < length (SCHEDULERS k')" "SCHEDULERS k' ! i = Some s'"
      using s' by (auto simp: in_set_conv_nth)
    then obtain s where "SCHEDULERS k ! i = Some s" "woken_sched s s'"
      using list_all2_nthD2 [OF l i(1)] by (auto simp: option_rel_Some2)
    then show ?thesis
      using ok woken_sched_ok(1) [of s s'] i len by (auto simp: kernel_ok_def) (metis nth_mem)
  qed
  moreover have "\<exists>s'. SCHEDULERS k' ! cpu = Some s' \<and> running_ok s'" if cpu: "cpu \<in> B" for cpu
  proof -
    obtain s where s: "SCHEDULERS k ! cpu = Some s" "running_ok s" "cpu < length (SCHEDULERS k)"
      using kernel_ok_at [OF ok cpu] by metis
    then show ?thesis
      using list_all2_nthD [OF l s(3)] woken_sched_ok(2) by (auto simp: option_rel_Some1)
  qed
  moreover have "map sched_keys (SCHEDULERS k') = map sched_keys (SCHEDULERS k)"
    using l by (induction rule: list_all2_induct) (auto simp: option_rel_Some1 dest: woken_sched_ok(3) elim!: option.rel_cases)
  ultimately show ?thesis
    using ok len by (auto simp: kernel_ok_def task_keys_sum)
qed

lemma wake_pipe_woken: "woken_kernel k (wake_pipe_waiters i k)"
proof -
  have "woken_sched s (s\<lparr>tasks := map (\<lambda>t. if t_state t = PipeWaiting i then wake_task t else t) (tasks s)\<rparr>)" for s
    by (auto simp: woken_sched_def list_all2_map2 list_all2_same dead_def intro!: woken_wake_task)
  then show ?thesis
    by (simp add: woken_kernel_def wake_pipe_waiters_def map_scheds_def list_all2_map2 list_all2_same option.rel_map
        option.rel_refl)
qed

lemma wake_first_woken: "wake_first i ts = Some ts' \<Longrightarrow> list_all2 woken ts ts'"
  by (induction ts arbitrary: ts') (auto split: if_splits task_state.splits intro!: woken_wake_task simp: dead_def)

lemma wake_scheds_woken: "list_all2 (rel_option woken_sched) ss (wake_scheds i ss)"
  by (induction i ss rule: wake_scheds.induct) (auto split: option.splits intro!: woken_sched_tasks dest: wake_first_woken)

lemma futex_match_waits: "futex_match a bits t \<Longrightarrow> t_state t \<noteq> Runnable \<and> \<not> dead (t_state t)"
  by (auto simp: futex_match_def dead_def split: task_state.splits)

lemma futex_wake_tasks_woken: "futex_wake_tasks a bits n ts = (w, ts') \<Longrightarrow> list_all2 woken ts ts'"
  by (induction ts arbitrary: n w ts')
    (auto split: if_splits prod.splits intro!: woken_wake_task dest: futex_match_waits)

lemma futex_wake_scheds_woken: "futex_wake_scheds a n bits ss = (w, ss') \<Longrightarrow> list_all2 (rel_option woken_sched) ss ss'"
  by (induction a n bits ss arbitrary: w ss' rule: futex_wake_scheds.induct)
    (auto split: if_splits prod.splits simp: futex_wake_unlocked_def intro!: woken_sched_tasks dest: futex_wake_tasks_woken)

lemma requeue_woken: "futex_match a bits t \<Longrightarrow> woken t (requeue_task a2 t)"
  by (auto simp: futex_match_def woken_def requeue_task_def dead_def task_key_def split: task_state.splits)

lemma futex_requeue_tasks_woken: "futex_requeue_tasks a bits a2 n r ts = (w, q, ts') \<Longrightarrow> list_all2 woken ts ts'"
  by (induction ts arbitrary: n r w q ts')
    (auto split: if_splits prod.splits intro!: woken_wake_task requeue_woken dest: futex_match_waits)

lemma futex_requeue_scheds_woken:
  "futex_requeue_scheds a n bits a2 r ss = (w, q, ss') \<Longrightarrow> list_all2 (rel_option woken_sched) ss ss'"
  by (induction a n bits a2 r ss arbitrary: w q ss' rule: futex_requeue_scheds.induct)
    (auto split: if_splits prod.splits intro!: woken_sched_tasks dest: futex_requeue_tasks_woken)

section \<open>The scheduler as a transition system\<close>

text \<open>What a running processor can do with its task; \<open>None\<close> is a panic.\<close>

inductive switching :: "nat \<Rightarrow> kernel \<Rightarrow> (switch \<times> kernel) option \<Rightarrow> bool" where
  yield: "switching cpu k (yield_current cpu c k)"
| tick: "switching cpu k (preempt cpu i k)"
| pipe_wait: "switching cpu k (block_pipe_current cpu key sel c free k)"
| futex_wait: "switching cpu k (futex_wait_current cpu a bits sel c free k)"
| sleep: "switching cpu k (block_sleep_current cpu target rem sel c free k)"
| child_wait: "switching cpu k (wait_current cpu child ptr sel c free k)"

text \<open>A processor switches, an idle processor looks for a task, or a wait ends.\<close>

inductive sched_step :: "nat set \<times> kernel \<Rightarrow> nat set \<times> kernel \<Rightarrow> bool" where
  switch: "cpu \<in> B \<Longrightarrow> switching cpu k (Some (r, k')) \<Longrightarrow> sched_step (B, k) (running cpu r B, k')"
| poll: "cpu \<notin> B \<Longrightarrow> cpu < MAX_CPUS \<Longrightarrow> SCHEDULERS k ! cpu \<noteq> None \<Longrightarrow> dispatch cpu prev free k = Some (r, k') \<Longrightarrow>
    sched_step (B, k) (running cpu r B, k')"
| pipe_wake: "sched_step (B, k) (B, wake_pipe_waiters i k)"
| sleep_wake: "sched_step (B, k) (B, wake_sleeping_task i k)"
| futex_wake: "sched_step (B, k) (B, snd (futex_wake a n bits k))"
| futex_requeue: "sched_step (B, k) (B, snd (futex_requeue a n bits a2 m k))"

lemma running_minus [simp]: "running cpu r (B - {cpu}) = running cpu r B"
  by (auto simp: running_def)

lemma running_same: "r \<noteq> Idle \<Longrightarrow> cpu \<in> B \<Longrightarrow> running cpu r B = B"
  by (auto simp: running_def)

lemma block_pipe_ok:
  assumes ok: "kernel_ok B k" and c: "cpu \<in> B"
  shows "\<exists>r k'. block_pipe_current cpu key sel c free k = Some (r, k') \<and> kernel_ok (running cpu r B) k' \<and>
    task_keys k' = task_keys k"
proof (cases key)
  case None
  obtain s where s: "SCHEDULERS k ! cpu = Some s" "running_ok s" "procs_ok s" "cpu < length (SCHEDULERS k)"
    using kernel_ok_at [OF ok c] .
  then obtain q where "t_process (tasks s ! current s) = Some q"
    using runnable_process [of s "current s"] by (auto simp: running_ok_def)
  then show ?thesis
    using None s ok c by (auto simp: block_pipe_current_def current_target_def running_ok_def Let_def running_same)
next
  case (Some i)
  then show ?thesis
    using block_ok [OF ok c, of "PipeWaiting i" sel _ free] by (simp add: block_pipe_current_def)
qed

lemma switching_ok:
  assumes "switching cpu k res" and ok: "kernel_ok B k" and c: "cpu \<in> B"
  shows "\<exists>r k'. res = Some (r, k') \<and> kernel_ok (running cpu r B) k' \<and> task_keys k' = task_keys k"
  using assms(1)
proof cases
  case (yield c)
  then show ?thesis
    using yield_ok [OF ok \<open>cpu \<in> B\<close>, of c] assms(3) by (auto simp: running_same)
next
  case (tick i)
  then show ?thesis
    using preempt_ok [OF ok c, of i] c by (auto simp: running_same)
qed (use block_pipe_ok [OF ok c] block_ok [OF ok c] in
  \<open>simp_all add: futex_wait_current_def block_sleep_current_def wait_current_def\<close>)

lemma poll_ok:
  assumes "kernel_ok B k" "cpu \<notin> B" "cpu < MAX_CPUS" "SCHEDULERS k ! cpu \<noteq> None"
  shows "\<exists>r k'. dispatch cpu prev free k = Some (r, k') \<and> kernel_ok (running cpu r B) k' \<and> task_keys k' = task_keys k"
  using dispatch_ok [OF assms(1,3,2)] assms(4) by blast

lemma sched_step_ok:
  assumes "sched_step (B, k) (B', k')" and ok: "kernel_ok B k"
  shows "kernel_ok B' k' \<and> task_keys k' = task_keys k"
  using assms(1)
proof cases
  case (switch cpu r)
  then show ?thesis
    using switching_ok [OF _ ok] by fastforce
next
  case (poll cpu prev free r)
  then show ?thesis
    using poll_ok [OF ok, of cpu prev free] by auto
next
  case (pipe_wake i)
  then show ?thesis
    using woken_kernel_ok [OF ok wake_pipe_woken] by simp
next
  case (sleep_wake i)
  have "woken_kernel k (wake_sleeping_task i k)"
    by (simp add: woken_kernel_def wake_sleeping_task_def wake_scheds_woken)
  then show ?thesis
    using sleep_wake woken_kernel_ok [OF ok] by simp
next
  case (futex_wake a n bits)
  have "woken_kernel k (snd (Sched.futex_wake a n bits k))"
    by (auto simp: woken_kernel_def Sched.futex_wake_def dest: futex_wake_scheds_woken split: prod.splits)
  then show ?thesis
    using futex_wake woken_kernel_ok [OF ok] by simp
next
  case (futex_requeue a n bits a2 m)
  have "woken_kernel k (snd (Sched.futex_requeue a n bits a2 m k))"
    by (auto simp: woken_kernel_def Sched.futex_requeue_def dest: futex_requeue_scheds_woken split: prod.splits)
  then show ?thesis
    using futex_requeue woken_kernel_ok [OF ok] by simp
qed

lemma sched_steps_ok:
  assumes "sched_step\<^sup>*\<^sup>* S S'" "kernel_ok (fst S) (snd S)"
  shows "kernel_ok (fst S') (snd S') \<and> task_keys (snd S') = task_keys (snd S)"
  using assms
proof (induction rule: rtranclp_induct)
  case (step S1 S2)
  then show ?case
    using sched_step_ok [of "fst S1" "snd S1" "fst S2" "snd S2"] by simp
qed simp


section \<open>Lemmas: preemption is fair\<close>

text \<open>A series of timer interrupts on one processor.\<close>

primrec run_preempts :: "nat \<Rightarrow> interrupt_context list \<Rightarrow> kernel \<Rightarrow> kernel option" where
  "run_preempts cpu [] k = Some k"
| "run_preempts cpu (c # cs) k = (case preempt cpu c k of None \<Rightarrow> None | Some (_, k') \<Rightarrow> run_preempts cpu cs k')"

definition bumped :: "u8 \<Rightarrow> u8" where
  "bumped p = (if p < PRIO_BATCH_MAX then p + 1 else p)"

lemma best_of_cong:
  "(\<And>i. i \<in> set is \<Longrightarrow> t_state (ts ! i) = t_state (ts' ! i) \<and> t_priority (ts ! i) = t_priority (ts' ! i)) \<Longrightarrow>
    best_of better ts is b r = best_of better ts' is b r"
  by (induction "is" arbitrary: b r) (simp_all add: Let_def)

lemma next_alive_cong:
  assumes "length (tasks s) = length (tasks s')"
    and "\<And>i. t_state (tasks s ! i) = t_state (tasks s' ! i) \<and> t_priority (tasks s ! i) = t_priority (tasks s' ! i)"
  shows "next_alive s c = next_alive s' c"
  using assms(1) best_of_cong [of _ "tasks s" "tasks s'", OF assms(2)] by (simp add: next_alive_def Let_def)

lemma pred_less: "0 < (x :: u8) \<Longrightarrow> x - 1 < x"
  by (simp add: word_less_nat_alt unat_sub word_le_nat_alt)

lemma preempt_cases:
  assumes s: "SCHEDULERS k ! cpu = Some s" "running_ok s" "procs_ok s" and user: "interrupted_user_mode c"
  obtains (slice) r s' t where "preempt cpu c k = Some (r, set_sched cpu s' k)" "current s' = current s"
      "tasks s' = (tasks s)[current s := t]" "t_priority t = t_priority (tasks s ! current s)"
      "t_state t = Runnable" "task_key t = task_key (tasks s ! current s)" "t_slice t < t_slice (tasks s ! current s)"
  | (switch) r s' t i where "preempt cpu c k = Some (r, set_sched cpu s' k)" "current s' = i"
      "tasks s' = (tasks s)[current s := t]" "t_priority t = bumped (t_priority (tasks s ! current s))"
      "t_state t = Runnable" "task_key t = task_key (tasks s ! current s)" "next_alive s' (current s) = Some i"
proof -
  let ?p = "current s"
  let ?t = "tasks s ! ?p"
  define left where "left = (if 0 < t_slice ?t then t_slice ?t - 1 else t_slice ?t)"
  define t where "t = ?t\<lparr>t_cpu_ticks := t_cpu_ticks ?t + 1, t_slice := left\<rparr>"
  let ?s = "s\<lparr>sched_ticks := sched_ticks s + 1\<rparr>"
  let ?s1 = "?s\<lparr>tasks := (tasks s)[?p := demote t], slice_ticks := 0\<rparr>"
  have p: "?p < length (tasks s)" "runnable (tasks s) ?p"
    using s by (simp_all add: running_ok_def)
  have st: "t_state ?t = Runnable"
    using p by (simp add: runnable_def)
  have t: "t_state (demote t) = t_state ?t" "task_key (demote t) = task_key ?t" "t_priority (demote t) = bumped (t_priority ?t)"
    by (simp_all add: t_def demote_def bumped_def task_key_def Let_def)
  obtain i where i: "next_alive ?s1 ?p = Some i"
    using next_alive_None [of ?p ?s1] p runnable_update_same [OF t(1)] by auto
  have ir: "i < length (tasks s)" "runnable (tasks s) i"
    using next_alive_Some(1,2) [OF _ i] p runnable_update_same [OF t(1)] by simp_all
  obtain q where q: "t_process (tasks s ! i) = Some q"
    using runnable_process [OF s(3) ir] .
  consider (keep) "0 < left" | (stay) "left = 0" "i = ?p" | (leave) "left = 0" "i \<noteq> ?p"
    by (metis word_neq_0_conv)
  then show ?thesis
  proof cases
    case keep
    then have "t_slice t < t_slice ?t"
      using pred_less by (auto simp: t_def left_def split: if_splits)
    then show ?thesis
      using user s p st keep
      by (intro slice [of _ "?s\<lparr>tasks := (tasks s)[?p := t]\<rparr>" t]) (simp_all add: preempt_def Let_def t_def left_def task_key_def)
  next
    case stay
    then show ?thesis
      using user s p i st t by (intro switch [of _ ?s1 i "demote t"]) (simp_all add: preempt_def Let_def t_def left_def task_key_def)
  next
    case leave
    define d where "d = demote t\<lparr>t_interrupt := c\<lparr>ic_flags := ic_flags c OR 0x202\<rparr>,
      t_context := context_of (c\<lparr>ic_flags := ic_flags c OR 0x202\<rparr>)\<rparr>"
    let ?s2 = "?s1\<lparr>tasks := (tasks ?s1)[?p := d], current := i\<rparr>"
    have d: "t_state d = t_state (demote t)" "t_priority d = t_priority (demote t)"
      by (simp_all add: d_def)
    have "next_alive ?s2 ?p = next_alive ?s1 ?p"
      using p d by (intro next_alive_cong) (auto simp: nth_list_update)
    then show ?thesis
      using user s p i q leave st t
      by (intro switch [of _ ?s2 i d]) (simp_all add: preempt_def Let_def t_def left_def d_def task_key_def)
  qed
qed

text \<open>How far the running task's table is from the steady state in which every task has the lowest
  priority, and how far the running task is from task \<open>i\<close> once it has it.\<close>

definition headroom :: "task list \<Rightarrow> nat" where
  "headroom ts = sum_list (map (\<lambda>t. 19 - unat (t_priority t)) ts)"

definition patience :: "nat \<Rightarrow> scheduler \<Rightarrow> nat" where
  "patience i s =
    (let n = length (tasks s); t = tasks s ! current s in
     (headroom (tasks s) * (n + 1) + (if t_priority t < PRIO_BATCH_MAX then 0 else ahead n (current s) i)) * 256
     + unat (t_slice t))"

lemma headroom_update:
  assumes "p < length ts"
  shows "headroom (ts[p := t]) + (19 - unat (t_priority (ts ! p))) = headroom ts + (19 - unat (t_priority t))"
  using sum_list_update_add [of p "map (\<lambda>t. 19 - unat (t_priority t)) ts"] assms
  by (simp add: headroom_def map_update)

lemma headroom_same: "p < length ts \<Longrightarrow> t_priority t = t_priority (ts ! p) \<Longrightarrow> headroom (ts[p := t]) = headroom ts"
  using headroom_update [of p ts t] by simp

lemma headroom_bumped:
  assumes "p < length ts" "t_priority (ts ! p) < PRIO_BATCH_MAX" "t_priority t = bumped (t_priority (ts ! p))"
  shows "headroom (ts[p := t]) < headroom ts"
proof -
  have lt: "unat (t_priority (ts ! p)) < 19"
    using assms(2) by (simp add: PRIO_BATCH_MAX_def word_less_nat_alt)
  then have "unat (t_priority t) = unat (t_priority (ts ! p)) + 1"
    using assms by (simp add: bumped_def unat_add_no_overflow)
  then show ?thesis
    using headroom_update [OF assms(1), of t] lt by simp
qed

lemma ahead_inj: "c < n \<Longrightarrow> i < n \<Longrightarrow> j < n \<Longrightarrow> ahead n c i = ahead n c j \<Longrightarrow> i = j"
  by (metis ahead_mod)

lemma ahead_step: "c < n \<Longrightarrow> i < n \<Longrightarrow> j < n \<Longrightarrow> ahead n c j < ahead n c i \<Longrightarrow> ahead n j i < ahead n c i"
  by (auto simp: ahead_def split: if_splits)

lemma lowest_tier: "\<not> p < PRIO_BATCH_MAX \<Longrightarrow> priority_tier p = 3"
  by (auto simp: priority_tier_def PRIO_BATCH_MAX_def PRIO_RT_MAX_def PRIO_INTERACTIVE_MAX_def PRIO_NORMAL_MAX_def
      word_less_nat_alt word_le_nat_alt)

lemma patience_less_slice:
  assumes "length (tasks s') = length (tasks s)" "headroom (tasks s') = headroom (tasks s)" "current s' = current s"
    "t_priority (tasks s' ! current s) = t_priority (tasks s ! current s)"
    "t_slice (tasks s' ! current s) < t_slice (tasks s ! current s)"
  shows "patience i s' < patience i s"
  using assms by (simp add: patience_def Let_def word_less_nat_alt)

lemma slice_bound: "unat (t_slice t) < 256"
  using unsigned_less [of "t_slice t"] by simp

lemma scaled_less: "(x :: nat) < y \<Longrightarrow> r < 256 \<Longrightarrow> x * 256 + r < y * 256 + r'"
  by simp

lemma patience_bound:
  assumes "current s < length (tasks s)" "i < length (tasks s)"
  shows "patience i s < (headroom (tasks s) + 1) * (length (tasks s) + 1) * 256"
proof -
  let ?n = "length (tasks s)"
  let ?a = "if t_priority (tasks s ! current s) < PRIO_BATCH_MAX then 0 else ahead ?n (current s) i"
  have "?a \<le> ?n"
    using ahead_bounds [OF assms] by simp
  then have "headroom (tasks s) * (?n + 1) + ?a < (headroom (tasks s) + 1) * (?n + 1)"
    by simp
  from scaled_less [OF this slice_bound, of "tasks s ! current s" 0] show ?thesis
    by (simp only: patience_def Let_def add_0_right)
qed

lemma patience_less_headroom:
  assumes "length (tasks s') = length (tasks s)" "headroom (tasks s') < headroom (tasks s)"
    "current s' < length (tasks s')" "i < length (tasks s')"
  shows "patience i s' < patience i s"
proof -
  have "(headroom (tasks s') + 1) * (length (tasks s) + 1) * 256 \<le> headroom (tasks s) * (length (tasks s) + 1) * 256"
    using assms(2) by (intro mult_le_mono1) simp
  also have "\<dots> \<le> patience i s"
    by (simp add: patience_def Let_def)
  finally show ?thesis
    using patience_bound [OF assms(3,4)] assms(1) by simp
qed

lemma patience_less_ahead:
  assumes "length (tasks s') = length (tasks s)" "headroom (tasks s') = headroom (tasks s)"
    "\<not> t_priority (tasks s ! current s) < PRIO_BATCH_MAX"
    "t_priority (tasks s' ! current s') < PRIO_BATCH_MAX \<and> 0 < ahead (length (tasks s)) (current s) i \<or>
     ahead (length (tasks s)) (current s') i < ahead (length (tasks s)) (current s) i"
  shows "patience i s' < patience i s"
proof -
  let ?n = "length (tasks s)"
  let ?a = "if t_priority (tasks s' ! current s') < PRIO_BATCH_MAX then 0 else ahead ?n (current s') i"
  have "?a < ahead ?n (current s) i"
    using assms(4) by auto
  then have "headroom (tasks s) * (?n + 1) + ?a < headroom (tasks s) * (?n + 1) + ahead ?n (current s) i"
    by simp
  from scaled_less [OF this slice_bound, of "tasks s' ! current s'" "unat (t_slice (tasks s ! current s))"] show ?thesis
    using assms by (auto simp: patience_def Let_def split: if_splits)
qed

lemma tick_progress:
  assumes s: "SCHEDULERS k ! cpu = Some s" "running_ok s" "procs_ok s" and user: "interrupted_user_mode c"
    and i: "i < length (tasks s)" "runnable (tasks s) i" "current s \<noteq> i"
  obtains r s' where "preempt cpu c k = Some (r, set_sched cpu s' k)" "running_ok s'" "procs_ok s'"
    "length (tasks s') = length (tasks s)" "tasks s' ! i = tasks s ! i" "current s' = i \<or> patience i s' < patience i s"
proof -
  let ?n = "length (tasks s)"
  let ?p = "current s"
  have p: "?p < ?n" "t_state (tasks s ! ?p) = Runnable"
    using s by (simp_all add: running_ok_def runnable_def)
  have ok: "procs_ok s'" "runnable (tasks s') j = runnable (tasks s) j"
    if "tasks s' = (tasks s)[?p := t]" "t_state t = Runnable" "task_key t = task_key (tasks s ! ?p)" for s' t j
  proof -
    have "task_ok t"
      using that s(3) p task_ok_cong [of t "tasks s ! ?p"] by (simp add: procs_ok_def task_key_def)
    then show "procs_ok s'"
      using procs_ok_update [OF s(3), of t ?p] that by (simp add: procs_ok_def)
    show "runnable (tasks s') j = runnable (tasks s) j"
      using that p runnable_update_same [of t "tasks s" ?p j] by simp
  qed
  from s user show ?thesis
  proof (cases rule: preempt_cases)
    case (slice r s' t)
    note o = ok [OF slice(3,5,6)]
    have "patience i s' < patience i s"
      using slice p by (intro patience_less_slice) (simp_all add: headroom_same)
    then show ?thesis
      using slice o s i by (intro that [of r s']) (simp_all add: running_ok_def)
  next
    case (switch r s' t j)
    note o = ok [OF switch(3,5,6)]
    have j: "j < ?n" "runnable (tasks s) j"
      using next_alive_in [OF switch(7)] switch(3) o(2) by simp_all
    have "patience i s' < patience i s" if ne: "j \<noteq> i"
    proof (cases "t_priority (tasks s ! ?p) < PRIO_BATCH_MAX")
      case True
      then show ?thesis
        using headroom_bumped [OF p(1) True switch(4)] switch j i by (intro patience_less_headroom) simp_all
    next
      case False
      then have pr: "t_priority t = t_priority (tasks s ! ?p)"
        using switch(4) by (simp add: bumped_def)
      have best: "tier (tasks s') j < tier (tasks s') i \<or>
        tier (tasks s') j = tier (tasks s') i \<and> ahead ?n ?p j \<le> ahead ?n ?p i"
        using next_alive_Some(3) [OF _ switch(7), of i] p i o(2) switch(3) by simp
      have "ahead ?n j i < ahead ?n ?p i" if "\<not> t_priority (tasks s' ! j) < PRIO_BATCH_MAX"
      proof -
        have "tier (tasks s') j = 3"
          using that by (simp add: tier_def lowest_tier)
        then have "ahead ?n ?p j \<le> ahead ?n ?p i"
          using best tier_le [of "tasks s'" i] by auto
        then have "ahead ?n ?p j < ahead ?n ?p i"
          using ahead_inj [OF p(1) j(1) i(1)] ne by fastforce
        then show ?thesis
          by (rule ahead_step [OF p(1) i(1) j(1)])
      qed
      then show ?thesis
        using switch p pr False ahead_bounds [OF p(1) i(1)] by (intro patience_less_ahead) (auto simp: headroom_same)
    qed
    then show ?thesis
      using switch o j i by (intro that [of r s']) (auto simp: running_ok_def)
  qed
qed

lemma patience_pos:
  assumes "current s < length (tasks s)" "i < length (tasks s)"
  shows "0 < patience i s"
proof (cases "t_priority (tasks s ! current s) < PRIO_BATCH_MAX")
  case True
  let ?f = "\<lambda>t. 19 - unat (t_priority t)"
  have "?f (tasks s ! current s) \<le> headroom (tasks s)"
    unfolding headroom_def using assms by (intro member_le_sum_list) simp_all
  moreover have "0 < ?f (tasks s ! current s)"
    using True by (simp add: PRIO_BATCH_MAX_def word_less_nat_alt)
  ultimately have "0 < headroom (tasks s)"
    by simp
  then show ?thesis
    by (simp add: patience_def Let_def)
qed (use ahead_bounds [OF assms] in \<open>simp add: patience_def Let_def\<close>)

lemma run_preempts_reach:
  assumes "SCHEDULERS k ! cpu = Some s" "running_ok s" "procs_ok s" "cpu < length (SCHEDULERS k)"
    and "i < length (tasks s)" "runnable (tasks s) i"
    and "\<forall>c\<in>set cs. interrupted_user_mode c" "patience i s \<le> length cs"
  shows "\<exists>m\<le>patience i s. \<exists>k' s'. run_preempts cpu (take m cs) k = Some k' \<and> SCHEDULERS k' ! cpu = Some s' \<and>
    current s' = i \<and> tasks s' ! i = tasks s ! i"
  using assms
proof (induction "patience i s" arbitrary: k s cs rule: less_induct)
  case less
  show ?case
  proof (cases "current s = i")
    case True
    then show ?thesis
      using less.prems by (intro exI [of _ 0]) simp
  next
    case False
    then have "0 < patience i s"
      using patience_pos less.prems by (simp add: running_ok_def)
    then obtain c cs' where cs: "cs = c # cs'"
      using less.prems by (cases cs) auto
    obtain r s' where step: "preempt cpu c k = Some (r, set_sched cpu s' k)" "running_ok s'" "procs_ok s'"
      "length (tasks s') = length (tasks s)" "tasks s' ! i = tasks s ! i" "current s' = i \<or> patience i s' < patience i s"
      using tick_progress [OF less.prems(1-3) _ less.prems(5,6) False, of c] less.prems(7) cs by auto
    from step(6) show ?thesis
    proof
      assume "current s' = i"
      then show ?thesis
        using step cs less.prems(4) \<open>0 < patience i s\<close> by (intro exI [of _ 1]) simp
    next
      assume lt: "patience i s' < patience i s"
      obtain m k' s'' where m: "m \<le> patience i s'" "run_preempts cpu (take m cs') (set_sched cpu s' k) = Some k'"
        "SCHEDULERS k' ! cpu = Some s''" "current s'' = i" "tasks s'' ! i = tasks s' ! i"
        using less.hyps [OF lt, of "set_sched cpu s' k" cs'] less.prems step cs lt by (auto simp: runnable_def)
      then show ?thesis
        using step cs lt by (intro exI [of _ "Suc m"]) auto
    qed
  qed
qed

text \<open>C15.  Timer preemption starves nobody.  If a processor only takes timer interrupts from user mode, then
  every runnable task of its table becomes the running one, in its place and with its saved registers, after
  at most (h + 1)(n + 1) * 256 interrupts, where n is the number of tasks and h the sum of their
  distances to the lowest priority.\<close>

theorem preemption_fair:
  assumes "kernel_ok B k" "cpu \<in> B" "SCHEDULERS k ! cpu = Some s"
    and "i < length (tasks s)" "t_state (tasks s ! i) = Runnable"
    and "\<forall>c\<in>set cs. interrupted_user_mode c"
    and "(headroom (tasks s) + 1) * (length (tasks s) + 1) * 256 \<le> length cs"
  shows "\<exists>m\<le>length cs. \<exists>k' s'. run_preempts cpu (take m cs) k = Some k' \<and> SCHEDULERS k' ! cpu = Some s' \<and>
    current s' = i \<and> tasks s' ! i = tasks s ! i"
proof -
  note s = kernel_ok_sched [OF assms(1-3)]
  have le: "patience i s \<le> length cs"
    using patience_bound [of s i] s assms by (auto simp: running_ok_def)
  have "runnable (tasks s) i"
    using assms(5) by (simp add: runnable_def)
  from run_preempts_reach [OF assms(3) s assms(4) this assms(6) le] obtain m where m: "m \<le> patience i s"
    and "\<exists>k' s'. run_preempts cpu (take m cs) k = Some k' \<and> SCHEDULERS k' ! cpu = Some s' \<and>
      current s' = i \<and> tasks s' ! i = tasks s ! i"
    by blast
  then show ?thesis
    using le_trans [OF m le] by blast
qed

section \<open>Mixing yields with preemption is not fair\<close>

text \<open>A task that gives up the processor whenever it runs, beside tasks that compute until they are
  preempted: the yielding task is the first of the table.\<close>

definition polite_step :: "nat \<Rightarrow> user_context \<Rightarrow> interrupt_context \<Rightarrow> kernel \<Rightarrow> kernel option" where
  "polite_step cpu u c k =
    (case SCHEDULERS k ! cpu of
      None \<Rightarrow> None
    | Some s \<Rightarrow> map_option snd (if current s = 0 then yield_current cpu u k else preempt cpu c k))"

primrec polite_run :: "nat \<Rightarrow> (user_context \<times> interrupt_context) list \<Rightarrow> kernel \<Rightarrow> kernel option" where
  "polite_run cpu [] k = Some k"
| "polite_run cpu (x # xs) k =
    (case polite_step cpu (fst x) (snd x) k of None \<Rightarrow> None | Some k' \<Rightarrow> polite_run cpu xs k')"

definition steady :: "scheduler \<Rightarrow> bool" where
  "steady s \<longleftrightarrow> 1 < length (tasks s) \<and> (\<forall>t\<in>set (tasks s). t_state t = Runnable \<and> \<not> t_priority t < PRIO_BATCH_MAX)"

definition ends_only :: "scheduler \<Rightarrow> bool" where
  "ends_only s \<longleftrightarrow> steady s \<and> procs_ok s \<and> (current s = 0 \<or> current s = length (tasks s) - 1)"

lemma best_of_le_last:
  "\<forall>i\<in>set is. runnable ts i \<and> tier ts i = 3 \<Longrightarrow> 3 \<le> r \<Longrightarrow> best_of (\<le>) ts is b r = (if is = [] then b else Some (last is))"
  by (induction "is" arbitrary: b r) (auto simp: Let_def tier_def runnable_def)

lemma steady_tier:
  assumes "steady s" "i < length (tasks s)"
  shows "runnable (tasks s) i \<and> tier (tasks s) i = 3"
  using assms by (auto simp: steady_def runnable_def tier_def lowest_tier)

lemma steady_yield:
  assumes "steady s" "c < length (tasks s)"
  shows "next_runnable_yield s c = (c + (length (tasks s) - 1)) mod length (tasks s)"
proof -
  let ?n = "length (tasks s)"
  let ?is = "map (\<lambda>off. (c + off) mod ?n) [1..<?n]"
  have n: "1 < ?n" "tasks s \<noteq> []"
    using assms by (auto simp: steady_def)
  have "\<forall>i\<in>set ?is. i < ?n"
    using n by (auto intro!: mod_less_divisor)
  then have "\<forall>i\<in>set ?is. runnable (tasks s) i \<and> tier (tasks s) i = 3"
    using steady_tier [OF assms(1)] by blast
  then have "best_of (\<le>) (tasks s) ?is None 255 = Some (last ?is)"
    using best_of_le_last [of ?is "tasks s" 255 None] n by (auto split: if_splits)
  moreover have "last ?is = (c + (?n - 1)) mod ?n"
    using n last_map [of "[1..<?n]" "\<lambda>off. (c + off) mod ?n"] last_upt [of 1 ?n] by auto
  ultimately show ?thesis
    by (simp add: next_runnable_yield_def Let_def)
qed

lemma steady_next:
  assumes "steady s" "c < length (tasks s)" "next_alive s c = Some i"
  shows "i = Suc c mod length (tasks s)"
proof -
  let ?n = "length (tasks s)"
  let ?j = "Suc c mod ?n"
  have n: "1 < ?n"
    using assms by (simp add: steady_def)
  then have j: "?j < ?n"
    by (intro mod_less_divisor) linarith
  have "ahead ?n c ?j = 1"
    using ahead_of_offset [of c ?n 1] assms n by simp
  then have "ahead ?n c i \<le> 1"
    using next_alive_Some [OF assms(2,3)] steady_tier [OF assms(1)] j by fastforce
  then have "ahead ?n c i = 1"
    using ahead_bounds [OF assms(2)] next_alive_Some(1) [OF assms(2,3)] by fastforce
  then show ?thesis
    using ahead_mod [OF assms(2)] next_alive_Some(1) [OF assms(2,3)] by (metis Suc_eq_plus1)
qed

lemma steady_update:
  assumes "steady s" "t_state t = Runnable" "\<not> t_priority t < PRIO_BATCH_MAX"
  shows "steady (s\<lparr>tasks := (tasks s)[c := t]\<rparr>)"
  using assms set_update_subset_insert [of "tasks s" c t] by (auto simp: steady_def)

lemma steady_tasks: "tasks s = tasks s' \<Longrightarrow> steady s = steady s'"
  by (simp add: steady_def)

lemma ends_only_runs:
  assumes "ends_only s"
  shows "running_ok s" "current s < length (tasks s)"
    "t_state (tasks s ! current s) = Runnable" "\<not> t_priority (tasks s ! current s) < PRIO_BATCH_MAX"
proof -
  show c: "current s < length (tasks s)"
    using assms by (auto simp: ends_only_def steady_def)
  then have "tasks s ! current s \<in> set (tasks s)"
    by (rule nth_mem)
  then show "t_state (tasks s ! current s) = Runnable" "\<not> t_priority (tasks s ! current s) < PRIO_BATCH_MAX"
    using assms by (auto simp: ends_only_def steady_def)
  then show "running_ok s"
    using c by (simp add: running_ok_def runnable_def)
qed

lemma demote_lowest: "\<not> t_priority t < PRIO_BATCH_MAX \<Longrightarrow> t_priority (demote t) = t_priority t"
  by (simp add: demote_def Let_def)

lemma polite_yield:
  assumes s: "SCHEDULERS k ! cpu = Some s" "ends_only s" "current s = 0" and cpu: "cpu < length (SCHEDULERS k)"
  shows "\<exists>r k' s'. yield_current cpu u k = Some (r, k') \<and> length (SCHEDULERS k') = length (SCHEDULERS k) \<and>
    SCHEDULERS k' ! cpu = Some s' \<and> ends_only s' \<and> length (tasks s') = length (tasks s)"
proof -
  note run = ends_only_runs [OF s(2)]
  have ok: "steady s" "procs_ok s" "1 < length (tasks s)" "tasks s \<noteq> []"
    using s by (auto simp: ends_only_def steady_def)
  let ?t = "tasks s ! 0"
  define t where "t = demote (?t\<lparr>t_context := u, t_interrupt := (save_regs u (t_interrupt ?t))\<lparr>ic_flags := uc_flags u\<rparr>\<rparr>)"
  let ?s = "s\<lparr>tasks := (tasks s)[0 := t]\<rparr>"
  have t: "t_state t = Runnable" "\<not> t_priority t < PRIO_BATCH_MAX" "t_process t = t_process ?t"
    using run s by (simp_all add: t_def demote_lowest)
  have st: "steady ?s"
    by (rule steady_update [OF ok(1) t(1,2)])
  have "task_ok t"
    using ok run s t task_ok_cong [of t ?t] by (simp add: procs_ok_def)
  then have pr: "procs_ok ?s"
    by (rule procs_ok_update [OF ok(2)])
  let ?i = "length (tasks s) - 1"
  have i: "next_runnable_yield ?s 0 = ?i" "?i < length (tasks ?s)" "runnable (tasks ?s) ?i"
    using steady_yield [OF st, of 0] steady_tier [OF st, of ?i] ok by simp_all
  obtain space where r: "resume cpu ?i ?s k =
    Some (Resume (t_context (tasks ?s ! ?i)) space, set_sched cpu (?s\<lparr>current := ?i, slice_ticks := 0\<rparr>) k)"
    using resume_ok [OF pr i(2,3)] by blast
  have "yield_current cpu u k = resume cpu ?i ?s k"
    using s run i by (simp add: yield_current_def Let_def t_def)
  moreover have "ends_only (?s\<lparr>current := ?i, slice_ticks := 0\<rparr>)"
    using st pr by (simp add: ends_only_def steady_def procs_ok_def)
  ultimately show ?thesis
    using r cpu by simp
qed

lemma polite_preempt:
  assumes s: "SCHEDULERS k ! cpu = Some s" "ends_only s" "current s \<noteq> 0" and cpu: "cpu < length (SCHEDULERS k)"
    and user: "interrupted_user_mode c"
  shows "\<exists>r k' s'. preempt cpu c k = Some (r, k') \<and> length (SCHEDULERS k') = length (SCHEDULERS k) \<and>
    SCHEDULERS k' ! cpu = Some s' \<and> ends_only s' \<and> length (tasks s') = length (tasks s)"
proof -
  note run = ends_only_runs [OF s(2)]
  have ok: "steady s" "procs_ok s" "current s = length (tasks s) - 1" "1 < length (tasks s)"
    using s by (auto simp: ends_only_def steady_def)
  have keep: "steady s' \<and> procs_ok s'"
    if "tasks s' = (tasks s)[current s := t]" "t_state t = Runnable" "\<not> t_priority t < PRIO_BATCH_MAX"
      "task_key t = task_key (tasks s ! current s)" for s' t
  proof -
    have "task_ok t"
      using that ok run task_ok_cong [of t "tasks s ! current s"] by (simp add: procs_ok_def task_key_def)
    then show ?thesis
      using that procs_ok_update [OF ok(2)] steady_update [OF ok(1) that(2,3)]
      by (simp add: steady_def procs_ok_def)
  qed
  from s(1) run(1) ok(2) user show ?thesis
  proof (cases rule: preempt_cases)
    case (slice r s' t)
    then have "steady s' \<and> procs_ok s'"
      using keep [of s' t] run by simp
    then show ?thesis
      using slice ok cpu by (simp add: ends_only_def)
  next
    case (switch r s' t i)
    then have st: "steady s' \<and> procs_ok s'"
      using keep [of s' t] run by (simp add: bumped_def)
    have "i = Suc (current s) mod length (tasks s')"
      using st switch run by (intro steady_next) simp_all
    moreover have "Suc (current s) = length (tasks s')"
      using switch(3) ok by simp
    ultimately have "i = 0"
      by simp
    then show ?thesis
      using switch st cpu by (simp add: ends_only_def)
  qed
qed

text \<open>C40.  A task that yields whenever it runs, together with one that computes until it is preempted, can
  keep all others off the processor for ever: \<open>yield_current\<close> takes the last task of the best tier around the
  table and the timer takes the first.  In a table of runnable tasks at the lowest priority whose first task
  always yields, only the first and the last task ever run, for every number of steps.\<close>

theorem yield_starves_middle:
  assumes "SCHEDULERS k ! cpu = Some s" "ends_only s" "cpu < length (SCHEDULERS k)"
    and "\<forall>x\<in>set xs. interrupted_user_mode (snd x)"
  shows "\<exists>k' s'. polite_run cpu xs k = Some k' \<and> SCHEDULERS k' ! cpu = Some s' \<and>
    (\<forall>t\<in>set (tasks s'). t_state t = Runnable) \<and> (current s' = 0 \<or> current s' = length (tasks s) - 1)"
  using assms
proof (induction xs arbitrary: k s)
  case Nil
  then show ?case
    by (auto simp: ends_only_def steady_def)
next
  case (Cons x xs)
  obtain r k' s' where step: "(if current s = 0 then yield_current cpu (fst x) k else preempt cpu (snd x) k) = Some (r, k')"
    and k': "length (SCHEDULERS k') = length (SCHEDULERS k)" "SCHEDULERS k' ! cpu = Some s'" "ends_only s'"
      "length (tasks s') = length (tasks s)"
    using polite_yield [OF Cons.prems(1,2) _ Cons.prems(3), of "fst x"] polite_preempt [OF Cons.prems(1,2) _ Cons.prems(3), of "snd x"]
      Cons.prems(4) by (cases "current s = 0") auto
  have "polite_step cpu (fst x) (snd x) k = Some k'"
    using step Cons.prems(1) by (simp add: polite_step_def split: if_splits)
  then show ?case
    using Cons.IH [OF k'(2,3)] Cons.prems k' by simp
qed

section \<open>Demonstration\<close>

definition demo_context :: user_context where
  "demo_context = \<lparr>uc_return_value = 0, uc_rbx = 0, uc_rbp = 0, uc_r12 = 0, uc_r13 = 0, uc_r14 = 0, uc_r15 = 0,
     uc_rdi = 0, uc_rsi = 0, uc_rdx = 0, uc_r8 = 0, uc_r9 = 0, uc_r10 = 0, uc_instruction_pointer = 0x400000,
     uc_flags = 0x202, uc_stack_pointer = 0x7000, uc_rcx = 0, uc_r11 = 0\<rparr>"

definition demo_interrupt :: interrupt_context where
  "demo_interrupt = \<lparr>ic_r15 = 0, ic_r14 = 0, ic_r13 = 0, ic_r12 = 0, ic_r11 = 0, ic_r10 = 0, ic_r9 = 0, ic_r8 = 0,
     ic_rdi = 0, ic_rsi = 0, ic_rbp = 0, ic_rdx = 0, ic_rcx = 0, ic_rbx = 0, ic_rax = 0,
     ic_instruction_pointer = 0x400000, ic_code_segment = 0x23, ic_flags = 0x202, ic_stack_pointer = 0x7000,
     ic_stack_segment = 0x1b\<rparr>"

definition demo_task :: "u64 \<Rightarrow> u8 \<Rightarrow> task" where
  "demo_task i p = \<lparr>t_tid = i, t_tgid = i, t_parent_pid = None, t_state = Runnable, t_priority = p, t_base_priority = p,
     t_slice = 1, t_process = Some \<lparr>p_space = i * 0x1000, p_native = False\<rparr>, t_context = demo_context,
     t_interrupt = demo_interrupt, t_uid = 0, t_signal_actions = 0, t_fs_base = 0, t_blocked_mask = 0, t_pending_signals = 0,
     t_clear_child_tid = 0, t_pgid = i, t_sid = i,
     t_sigaltstack = \<lparr>ss_sp = 0, ss_flags = 2, ss_pad = 0, ss_size = 0\<rparr>, t_cpu_ticks = 0\<rparr>"

definition demo_sched :: "task list \<Rightarrow> scheduler" where
  "demo_sched ts = \<lparr>tasks = ts, current = 0, kernel_space = 0, sched_ticks = 0, slice_ticks = 0\<rparr>"

definition demo_kernel :: kernel where
  "demo_kernel = \<lparr>SCHEDULERS = [Some (demo_sched [demo_task 1 19, demo_task 2 19, demo_task 3 19]),
       Some (demo_sched [demo_task 4 8]), None, None, None, None, None, None],
     FOREGROUND_PID = 0, NEXT_PID = 5, sig_tables = [[]], user_writes = [], timers = timer_init\<rparr>"

definition demo_tids :: "kernel \<Rightarrow> u64 list option list" where
  "demo_tids k = map (map_option (\<lambda>s. map t_tid (tasks s))) (SCHEDULERS k)"

lemma demo_kernel_ok: "kernel_ok {0, 1} demo_kernel"
  by (auto simp: kernel_ok_def demo_kernel_def demo_sched_def demo_task_def procs_ok_def running_ok_def runnable_def
      task_ok_def dead_def MAX_CPUS_def)


theorem preemption_fair_witness:
  "\<exists>m\<le>1024. \<exists>k' s'. run_preempts 0 (replicate m demo_interrupt) demo_kernel = Some k' \<and> SCHEDULERS k' ! 0 = Some s' \<and>
    current s' = 2 \<and> tasks s' ! 2 = demo_task 3 19"
proof -
  let ?s = "demo_sched [demo_task 1 19, demo_task 2 19, demo_task 3 19]"
  have s: "SCHEDULERS demo_kernel ! 0 = Some ?s" "tasks ?s ! 2 = demo_task 3 19" "length (tasks ?s) = 3" "headroom (tasks ?s) = 0"
    by (simp_all add: demo_kernel_def demo_sched_def headroom_def demo_task_def)
  have "interrupted_user_mode demo_interrupt"
    by (simp add: interrupted_user_mode_def demo_interrupt_def)
  then show ?thesis
    using preemption_fair [OF demo_kernel_ok _ s(1), of 2 "replicate 1024 demo_interrupt"] s
    by (auto simp: demo_task_def take_replicate min_def)
qed

theorem yield_starves_middle_witness:
  "\<exists>k' s'. polite_run 0 (replicate 1000 (demo_context, demo_interrupt)) demo_kernel = Some k' \<and>
    SCHEDULERS k' ! 0 = Some s' \<and> (\<forall>t\<in>set (tasks s'). t_state t = Runnable) \<and> current s' \<noteq> 1"
proof -
  let ?s = "demo_sched [demo_task 1 19, demo_task 2 19, demo_task 3 19]"
  have s: "SCHEDULERS demo_kernel ! 0 = Some ?s" "length (tasks ?s) = 3"
    by (simp_all add: demo_kernel_def demo_sched_def)
  have "ends_only ?s"
    by (simp add: ends_only_def steady_def procs_ok_def task_ok_def demo_sched_def demo_task_def PRIO_BATCH_MAX_def)
  moreover have "interrupted_user_mode demo_interrupt"
    by (simp add: interrupted_user_mode_def demo_interrupt_def)
  ultimately show ?thesis
    using yield_starves_middle [OF s(1), of "replicate 1000 (demo_context, demo_interrupt)"] s(2)
    by (fastforce simp: demo_kernel_def)
qed

section \<open>Lemmas: futexes wake and move exactly the first waiters\<close>

text \<open>Reference: over one list of tasks, the first \<open>n\<close> matching ones are woken and the next \<open>r\<close> moved.\<close>

primrec serve :: "('t \<Rightarrow> bool) \<Rightarrow> ('t \<Rightarrow> 't) \<Rightarrow> ('t \<Rightarrow> 't) \<Rightarrow> nat \<Rightarrow> nat \<Rightarrow> 't list \<Rightarrow> 't list" where
  "serve P f g n r [] = []"
| "serve P f g n r (t # ts) =
    (if P t \<and> 0 < n then f t # serve P f g (n - 1) r ts
     else if P t \<and> 0 < r then g t # serve P f g n (r - 1) ts
     else t # serve P f g n r ts)"

lemma serve_0 [simp]: "serve P f g 0 0 ts = ts"
  by (induction ts) simp_all

lemma serve_append:
  "serve P f g n r (xs @ ys) = serve P f g n r xs @
    serve P f g (n - length (filter P xs)) (r - (length (filter P xs) - n)) ys"
  by (induction xs arbitrary: n r) (auto simp: Suc_diff_le not_less)

lemma serve_split:
  "\<exists>xs ys zs. ts = xs @ ys @ zs \<and> serve P f g n r ts =
      map (\<lambda>t. if P t then f t else t) xs @ map (\<lambda>t. if P t then g t else t) ys @ zs \<and>
    length (filter P xs) = min n (length (filter P ts)) \<and>
    length (filter P ys) = min r (length (filter P ts) - n)"
proof (induction ts arbitrary: n r)
  case (Cons t ts)
  consider (f) "P t" "0 < n" | (g) "P t" "n = 0" "0 < r" | (stop) "P t" "n = 0" "r = 0" | (skip) "\<not> P t"
    by blast
  then show ?case
  proof cases
    case f
    then obtain m where m: "n = Suc m"
      using gr0_implies_Suc by blast
    obtain xs ys zs where *: "ts = xs @ ys @ zs" "serve P f g m r ts =
        map (\<lambda>t. if P t then f t else t) xs @ map (\<lambda>t. if P t then g t else t) ys @ zs"
      "length (filter P xs) = min m (length (filter P ts))" "length (filter P ys) = min r (length (filter P ts) - m)"
      using Cons.IH [of m r] by (elim exE conjE) (rule that)
    show ?thesis
      using f by (intro exI [of _ "t # xs"] exI [of _ ys] exI [of _ zs]) (simp add: m *(2-4), simp add: *(1))
  next
    case g
    then obtain q where q: "r = Suc q"
      using gr0_implies_Suc by blast
    obtain xs ys zs where *: "ts = xs @ ys @ zs" "serve P f g 0 q ts =
        map (\<lambda>t. if P t then f t else t) xs @ map (\<lambda>t. if P t then g t else t) ys @ zs"
      "length (filter P xs) = min 0 (length (filter P ts))" "length (filter P ys) = min q (length (filter P ts) - 0)"
      using Cons.IH [of 0 q] by (elim exE conjE) (rule that)
    have none: "map (\<lambda>t. if P t then h t else t) xs = xs" for h
      using *(3) by (induction xs) (auto split: if_splits)
    have "length (filter P xs) = 0"
      using *(3) by simp
    then show ?thesis
      using g by (intro exI [of _ "[]"] exI [of _ "t # xs @ ys"] exI [of _ zs]) (simp add: q none *(2,4), simp add: *(1))
  next
    case stop
    then show ?thesis
      by (intro exI [of _ "[]"] exI [of _ "t # ts"]) simp
  next
    case skip
    obtain xs ys zs where *: "ts = xs @ ys @ zs" "serve P f g n r ts =
        map (\<lambda>t. if P t then f t else t) xs @ map (\<lambda>t. if P t then g t else t) ys @ zs"
      "length (filter P xs) = min n (length (filter P ts))" "length (filter P ys) = min r (length (filter P ts) - n)"
      using Cons.IH [of n r] by (elim exE conjE) (rule that)
    show ?thesis
      using skip by (intro exI [of _ "t # xs"] exI [of _ ys] exI [of _ zs]) (simp add: *(2-4), simp add: *(1))
  qed
qed simp

lemma all_tasks_simps [simp]:
  "all_tasks [] = []" "all_tasks (None # ss) = all_tasks ss" "all_tasks (Some s # ss) = tasks s @ all_tasks ss"
  by (simp_all add: all_tasks_def)

lemma futex_requeue_tasks_serve:
  "futex_requeue_tasks a bits a2 n r ts =
    (min n (length (filter (futex_match a bits) ts)), min r (length (filter (futex_match a bits) ts) - n),
     serve (futex_match a bits) wake_task (requeue_task a2) n r ts)"
  by (induction ts arbitrary: n r) auto

lemma futex_wake_tasks_serve:
  "futex_wake_tasks a bits n ts =
    (min n (length (filter (futex_match a bits) ts)), serve (futex_match a bits) wake_task (requeue_task a2) n 0 ts)"
  by (induction ts arbitrary: n) auto

lemma futex_requeue_scheds_0: "futex_requeue_scheds a 0 bits a2 0 ss = (0, 0, ss)"
  by (cases ss; cases "hd ss") auto

lemma futex_requeue_scheds_None:
  "futex_requeue_scheds a n bits a2 r (None # ss) =
    (case futex_requeue_scheds a n bits a2 r ss of (w, q, ss') \<Rightarrow> (w, q, None # ss'))"
  by (simp add: futex_requeue_scheds_0)

lemma futex_requeue_scheds_Some:
  fixes ts :: "task list"
  assumes "c = length (filter (futex_match a bits) (tasks s))"
    and "ts = serve (futex_match a bits) wake_task (requeue_task a2) n r (tasks s)"
  shows "futex_requeue_scheds a n bits a2 r (Some s # ss) =
    (case futex_requeue_scheds a (n - c) bits a2 (r - (c - n)) ss of
      (w, q, ss') \<Rightarrow> (min n c + w, min r (c - n) + q, Some (s\<lparr>tasks := ts\<rparr>) # ss'))"
proof (cases "n = 0 \<and> r = 0")
  case True
  then show ?thesis
    using assms(2) by (simp add: futex_requeue_scheds_0)
next
  case False
  have m: "n - min n c = n - c" "r - min r (c - n) = r - (c - n)"
    by simp_all
  have "futex_requeue_tasks a bits a2 n r (tasks s) = (min n c, min r (c - n), ts)"
    by (simp only: futex_requeue_tasks_serve assms)
  then show ?thesis
    using False by (simp only: futex_requeue_scheds.simps if_False prod.case m)
qed

lemma min_add_min: "min n c + min (n - c) d = min n (c + d)" for n c d :: nat
  by (cases "n \<le> c") (auto simp: min_def)

lemma diff_add_diff: "c - n + (d - (n - c)) = c + d - n" for n c d :: nat
  by simp

lemma futex_requeue_scheds_serve:
  "futex_requeue_scheds a n bits a2 r ss = (w, q, ss') \<Longrightarrow>
    w = min n (length (filter (futex_match a bits) (all_tasks ss))) \<and>
    q = min r (length (filter (futex_match a bits) (all_tasks ss)) - n) \<and>
    all_tasks ss' = serve (futex_match a bits) wake_task (requeue_task a2) n r (all_tasks ss)"
proof (induction ss arbitrary: n r w q ss')
  case (Cons x ss)
  show ?case
  proof (cases x)
    case None
    then show ?thesis
      using Cons.prems Cons.IH [of n r] by (auto simp: futex_requeue_scheds_None simp del: futex_requeue_scheds.simps split: prod.splits)
  next
    case (Some s)
    define c where "c = length (filter (futex_match a bits) (tasks s))"
    obtain w' q' ss'' where rest: "futex_requeue_scheds a (n - c) bits a2 (r - (c - n)) ss = (w', q', ss'')"
      by (rule prod_cases3)
    have "w = min n c + w'" "q = min r (c - n) + q'"
      "ss' = Some (s\<lparr>tasks := serve (futex_match a bits) wake_task (requeue_task a2) n r (tasks s)\<rparr>) # ss''"
      using Cons.prems unfolding Some futex_requeue_scheds_Some [OF c_def refl] rest by simp_all
    then show ?thesis
      using Cons.IH [OF rest] by (simp add: Some serve_append min_add_min diff_add_diff flip: c_def)
  qed
qed simp

text \<open>Waking is re-queueing with nothing to move.\<close>

lemma futex_wake_scheds_requeue:
  assumes "n < 2 ^ 32"
  shows "futex_wake_scheds a n bits ss = (case futex_requeue_scheds a n bits a2 0 ss of (w, q, ss') \<Rightarrow> (w, ss'))"
  using assms
proof (induction a n bits ss rule: futex_wake_scheds.induct)
  case (2 a n bits ss)
  then show ?case
    by (cases "n = 0") (auto split: prod.splits)
next
  case (3 a n bits s ss)
  define c where "c = length (filter (futex_match a bits) (tasks s))"
  define ts where "ts = serve (futex_match a bits) wake_task (requeue_task a2) n 0 (tasks s)"
  show ?case
  proof (cases "n = 0")
    case False
    have n: "unat (of_nat n :: u32) = n"
      using 3(2) by (simp add: unat_of_nat take_bit_eq_mod)
    have step: "futex_wake_unlocked a (of_nat n) bits s = (min n c, s\<lparr>tasks := ts\<rparr>)"
      by (simp add: futex_wake_unlocked_def n futex_wake_tasks_serve [where ?a2.0 = a2] c_def ts_def)
    have "futex_wake_scheds a (n - min n c) bits ss =
      (case futex_requeue_scheds a (n - min n c) bits a2 0 ss of (w, q, ss') \<Rightarrow> (w, ss'))"
      using 3(1) [OF False step [symmetric]] 3(2) by simp
    moreover have "n - min n c = n - c"
      by simp
    ultimately show ?thesis
      using False by (simp add: step futex_requeue_scheds_Some [OF c_def ts_def] split: prod.splits del: futex_requeue_scheds.simps)
  qed simp
qed simp

lemma futex_wake_eq: "futex_wake a n bits k = (case futex_requeue a n bits a2 0 k of ((w, q), k') \<Rightarrow> (w, k'))"
proof -
  have "unat n < 2 ^ 32"
    using unsigned_less [of n, where 'a = nat] by simp
  then show ?thesis
    using futex_wake_scheds_requeue [of "unat n" a bits "SCHEDULERS k" a2]
    by (auto simp: futex_wake_def futex_requeue_def split: prod.splits)
qed

lemma futex_requeue_exact:
  assumes "futex_requeue a n bits a2 r k = ((w, q), k')"
  shows "w = min (unat n) (length (filter (futex_match a bits) (all_tasks (SCHEDULERS k)))) \<and>
    q = min (unat r) (length (filter (futex_match a bits) (all_tasks (SCHEDULERS k))) - unat n) \<and>
    all_tasks (SCHEDULERS k') =
      serve (futex_match a bits) wake_task (requeue_task a2) (unat n) (unat r) (all_tasks (SCHEDULERS k))"
proof -
  obtain ss where ss: "futex_requeue_scheds a (unat n) bits a2 (unat r) (SCHEDULERS k) = (w, q, ss)"
    "SCHEDULERS k' = ss"
    using assms by (auto simp: futex_requeue_def split: prod.splits)
  from futex_requeue_scheds_serve [OF ss(1)] show ?thesis
    by (simp add: ss(2))
qed

text \<open>C16.  Over the tables of all processors taken one after the other, \<open>futex_requeue\<close> wakes the first waiters
  on the address (as many as asked for, or all), moves the next ones to the second address, leaves every other
  task alone, and returns the exact numbers; \<open>futex_wake\<close> is the case with nothing to move.\<close>

theorem futex_exact:
  assumes "futex_requeue a n bits a2 r k = ((w, q), k')"
  defines "P \<equiv> futex_match a bits" and "ts \<equiv> all_tasks (SCHEDULERS k)"
  shows "w = min (unat n) (length (filter P ts)) \<and> q = min (unat r) (length (filter P ts) - unat n) \<and>
    (\<exists>xs ys zs. ts = xs @ ys @ zs \<and> all_tasks (SCHEDULERS k') =
        map (\<lambda>t. if P t then wake_task t else t) xs @ map (\<lambda>t. if P t then requeue_task a2 t else t) ys @ zs \<and>
      length (filter P xs) = w \<and> length (filter P ys) = q) \<and>
    (r = 0 \<longrightarrow> futex_wake a n bits k = (w, k'))"
proof -
  note exact = futex_requeue_exact [OF assms(1), folded P_def ts_def]
  have "r = 0 \<longrightarrow> futex_wake a n bits k = (w, k')"
    using assms(1) by (auto simp: futex_wake_eq [of a n bits k a2])
  then show ?thesis
    using exact serve_split [of ts P wake_task "requeue_task a2" "unat n" "unat r"] by simp
qed

definition futex_demo :: kernel where
  "futex_demo = demo_kernel\<lparr>SCHEDULERS := [Some (demo_sched [demo_task 1 8, demo_task 2 8\<lparr>t_state := FutexWait 64 1\<rparr>]),
     Some (demo_sched [demo_task 3 8\<lparr>t_state := FutexWait 64 2\<rparr>, demo_task 4 8\<lparr>t_state := FutexWait 64 1\<rparr>]),
     None, None, None, None, None, None]\<rparr>"

theorem futex_exact_witness:
  "map t_state (all_tasks (SCHEDULERS (snd (futex_requeue 64 1 1 128 5 futex_demo)))) =
     [Runnable, Runnable, FutexWait 64 2, FutexWait 128 1] \<and>
   length (filter (futex_match 64 1) (all_tasks (SCHEDULERS futex_demo))) - 1 = snd (fst (futex_requeue 64 1 1 128 5 futex_demo))"
proof -
  have run: "fst (futex_requeue 64 1 1 128 5 futex_demo) = (1, 1)"
    "map t_state (all_tasks (SCHEDULERS (snd (futex_requeue 64 1 1 128 5 futex_demo)))) =
     [Runnable, Runnable, FutexWait 64 2, FutexWait 128 1]"
    "length (filter (futex_match 64 1) (all_tasks (SCHEDULERS futex_demo))) = 2"
    by code_simp+
  obtain k' where k': "futex_requeue 64 1 1 128 5 futex_demo = ((1, 1), k')"
    using run(1) by (metis prod.collapse)
  from futex_exact [OF k'] show ?thesis
    using run by simp
qed

end
