(* ===== verification/Signals.thy ===== *)
theory Signals
  imports Sched
begin

text \<open>
  Signals: masks and actions (\<open>rust/kernel/src/scheduler.rs\<close>), sending them to processes, groups and
  threads, and the frame on the user stack that runs a handler and the return from it
  (\<open>rust/kernel/src/syscall.rs\<close>, with the layouts of \<open>rust/linuxd/src/lib.rs\<close>).
\<close>

section \<open>Masks and actions\<close>

definition UNBLOCKABLE_SIGNALS_MASK :: u64 where
  "UNBLOCKABLE_SIGNALS_MASK = push_bit 8 1 OR push_bit 18 1"

datatype signal_default_action = Terminate | CoreDump | Ignore | Stop | SigContinue

definition default_signal_action :: "u64 \<Rightarrow> signal_default_action" where
  "default_signal_action n =
    (if n \<in> {17, 23, 28} then Ignore
     else if n \<in> {19, 20, 21, 22} then Stop
     else if n = 18 then SigContinue
     else if n \<in> {3, 4, 5, 6, 7, 8, 11, 31} then CoreDump
     else Terminate)"

definition current_blocked_mask :: "nat \<Rightarrow> kernel \<Rightarrow> u64 option" where
  "current_blocked_mask = current_field 0 t_blocked_mask"

definition current_pending_signals :: "nat \<Rightarrow> kernel \<Rightarrow> u64 option" where
  "current_pending_signals = current_field 0 t_pending_signals"

text \<open>An update of the current task that does nothing without a scheduler.\<close>

definition modify_current :: "(task \<Rightarrow> task) \<Rightarrow> nat \<Rightarrow> kernel \<Rightarrow> kernel option" where
  "modify_current f cpu k =
    (case SCHEDULERS k ! cpu of
      None \<Rightarrow> Some k
    | Some s \<Rightarrow> map_option (\<lambda>s'. set_sched cpu s' k) (update_current f s))"

definition set_current_blocked_mask :: "nat \<Rightarrow> u64 \<Rightarrow> kernel \<Rightarrow> kernel option" where
  "set_current_blocked_mask cpu m =
    modify_current (t_blocked_mask_update (\<lambda>_. m AND NOT UNBLOCKABLE_SIGNALS_MASK)) cpu"

definition LinuxSigAction_default :: sig_action where
  "LinuxSigAction_default = \<lparr>sa_handler = 0, sa_flags = 0, sa_restorer = 0, sa_mask = 0\<rparr>"

text \<open>Every table of actions has 65 entries, so a signal number up to 64 is a valid index.\<close>

definition action_of :: "kernel \<Rightarrow> task \<Rightarrow> u64 \<Rightarrow> sig_action" where
  "action_of k t n = sig_tables k ! t_signal_actions t ! unat n"

definition put_action :: "task \<Rightarrow> u64 \<Rightarrow> sig_action \<Rightarrow> kernel \<Rightarrow> kernel" where
  "put_action t n a k =
    (let i = t_signal_actions t in k\<lparr>sig_tables := (sig_tables k)[i := (sig_tables k ! i)[unat n := a]]\<rparr>)"

definition signal_action :: "nat \<Rightarrow> u64 \<Rightarrow> kernel \<Rightarrow> sig_action option option" where
  "signal_action cpu n k =
    (case SCHEDULERS k ! cpu of
      None \<Rightarrow> Some None
    | Some s \<Rightarrow>
       if n = 0 \<or> 64 < n then Some None
       else if current s < length (tasks s) then Some (Some (action_of k (tasks s ! current s) n))
       else None)"

definition set_signal_action :: "nat \<Rightarrow> u64 \<Rightarrow> sig_action \<Rightarrow> kernel \<Rightarrow> (unit, sig_action \<times> kernel) outcome" where
  "set_signal_action cpu n a k =
    (case SCHEDULERS k ! cpu of
      None \<Rightarrow> Err ()
    | Some s \<Rightarrow>
       if n = 0 \<or> 64 < n then Err ()
       else if n = 9 \<or> n = 19 then Err ()
       else if current s < length (tasks s) then
         (let t = tasks s ! current s in Ok (action_of k t n, put_action t n a k))
       else Panic)"

definition reset_signal_action :: "nat \<Rightarrow> u64 \<Rightarrow> kernel \<Rightarrow> kernel option" where
  "reset_signal_action cpu n k =
    (case SCHEDULERS k ! cpu of
      None \<Rightarrow> Some k
    | Some s \<Rightarrow>
       if 1 \<le> n \<and> n \<le> 64 then
         (if current s < length (tasks s)
          then Some (put_action (tasks s ! current s) n LinuxSigAction_default k) else None)
       else Some k)"

definition trailing_zeros :: "u64 \<Rightarrow> nat" where
  "trailing_zeros w = length (takeWhile (\<lambda>i. \<not> bit w i) [0..<64])"

text \<open>The signal to deliver to the current task: its number and action, with its pending bit cleared.\<close>

definition check_pending_signal_to_deliver :: "nat \<Rightarrow> kernel \<Rightarrow> ((u64 \<times> sig_action) option \<times> kernel) option" where
  "check_pending_signal_to_deliver cpu k =
    (case SCHEDULERS k ! cpu of
      None \<Rightarrow> Some (None, k)
    | Some s \<Rightarrow>
       if current s < length (tasks s) then
         (let t = tasks s ! current s;
              deliverable = t_pending_signals t AND NOT (t_blocked_mask t) in
          if t_process t = None \<or> deliverable = 0 then Some (None, k)
          else
            (let b = trailing_zeros deliverable;
                 n = of_nat (b + 1);
                 t' = t\<lparr>t_pending_signals := t_pending_signals t AND NOT (push_bit b 1)\<rparr>;
                 k' = set_sched cpu (s\<lparr>tasks := (tasks s)[current s := t']\<rparr>) k in
             Some (Some (n, action_of k t n), k')))
       else None)"

record signalfd_siginfo =
  ssi_signo :: u32
  ssi_pid :: u32
  ssi_uid :: u32

definition pop_matching_signal_current :: "nat \<Rightarrow> u64 \<Rightarrow> kernel \<Rightarrow> (signalfd_siginfo option \<times> kernel) option" where
  "pop_matching_signal_current cpu m k =
    (case SCHEDULERS k ! cpu of
      None \<Rightarrow> Some (None, k)
    | Some s \<Rightarrow>
       if current s < length (tasks s) then
         (let t = tasks s ! current s; matching = t_pending_signals t AND m in
          if matching = 0 then Some (None, k)
          else
            (let b = trailing_zeros matching;
                 t' = t\<lparr>t_pending_signals := t_pending_signals t AND NOT (push_bit b 1)\<rparr>;
                 k' = set_sched cpu (s\<lparr>tasks := (tasks s)[current s := t']\<rparr>) k in
             Some (Some \<lparr>ssi_signo = of_nat b + 1, ssi_pid = ucast (t_tgid t), ssi_uid = t_uid t\<rparr>, k')))
       else None)"

section \<open>Sending signals\<close>

definition FUTEX_BITSET_MATCH_ANY :: u32 where
  "FUTEX_BITSET_MATCH_ANY = 0xFFFFFFFF"

text \<open>A task that ends: it gives up its process, its \<open>clear_child_tid\<close> word is zeroed (the result of the
  write is ignored) and one waiter on that word is woken.\<close>

definition terminated :: "u64 \<Rightarrow> task \<Rightarrow> task" where
  "terminated code t = t\<lparr>t_clear_child_tid := 0, t_process := None, t_state := Zombie code\<rparr>"

definition clear_tid_write :: "task \<Rightarrow> (u64 \<times> u64 \<times> bytes) list" where
  "clear_tid_write t =
    (case t_process t of
      Some p \<Rightarrow> if t_clear_child_tid t \<noteq> 0 then [(p_space p, t_clear_child_tid t, to_le 4 (0 :: u32))] else []
    | None \<Rightarrow> [])"

definition wake_clear_tids :: "u64 list \<Rightarrow> scheduler \<Rightarrow> scheduler" where
  "wake_clear_tids = fold (\<lambda>a s. snd (futex_wake_unlocked a 1 FUTEX_BITSET_MATCH_ANY s))"

definition clear_tids :: "task list \<Rightarrow> u64 list" where
  "clear_tids ts = filter (\<lambda>a. a \<noteq> 0) (map t_clear_child_tid ts)"

definition terminate_tasks :: "(task \<Rightarrow> bool) \<Rightarrow> u64 \<Rightarrow> nat \<Rightarrow> scheduler \<Rightarrow> kernel \<Rightarrow> kernel" where
  "terminate_tasks P code cpu s k =
    (let ended = filter P (tasks s);
         s' = s\<lparr>tasks := map (\<lambda>t. if P t then terminated code t else t) (tasks s)\<rparr> in
     set_sched cpu (wake_clear_tids (clear_tids ended) s')
       (k\<lparr>user_writes := user_writes k @ concat (map clear_tid_write ended)\<rparr>))"

text \<open>A task with a new pending signal; unless the signal is blocked, waiting for a pipe, a futex or a
  timer ends, and an interrupted sleep stores the remaining time and returns \<open>-EINTR\<close>.\<close>

definition remaining_time :: "u64 \<Rightarrow> u64 \<Rightarrow> bytes" where
  "remaining_time target now =
    (let left = saturating_sub target now in to_le 8 (left div 1000) @ to_le 8 ((left mod 1000) * 1000000))"

definition interrupt_sleep :: "u64 \<Rightarrow> u64 \<Rightarrow> task \<Rightarrow> kernel \<Rightarrow> task \<times> kernel" where
  "interrupt_sleep target rem t k =
    (let k1 = k\<lparr>timers := snd (cancel_sleep_timer (t_tid t) (timers k))\<rparr>;
         ws = (case t_process t of
             Some p \<Rightarrow> if rem \<noteq> 0 then [(p_space p, rem, remaining_time target (GLOBAL_TICKS (timers k)))] else []
           | None \<Rightarrow> []) in
     (t\<lparr>t_state := Runnable, t_interrupt := (t_interrupt t)\<lparr>ic_rax := - 4\<rparr>,
        t_context := (t_context t)\<lparr>uc_return_value := - 4\<rparr>\<rparr>,
      k1\<lparr>user_writes := user_writes k1 @ ws\<rparr>))"

definition pend_task :: "u64 \<Rightarrow> bool \<Rightarrow> task \<Rightarrow> kernel \<Rightarrow> task \<times> kernel" where
  "pend_task sig_bit blocked t k =
    (let t1 = t\<lparr>t_pending_signals := t_pending_signals t OR sig_bit\<rparr> in
     if blocked then (t1, k)
     else case t_state t of
       PipeWaiting _ \<Rightarrow> (t1\<lparr>t_state := Runnable\<rparr>, k)
     | FutexWait _ _ \<Rightarrow> (t1\<lparr>t_state := Runnable\<rparr>, k)
     | Sleeping target rem \<Rightarrow> interrupt_sleep target rem t1 k
     | _ \<Rightarrow> (t1, k))"

primrec pend_tasks :: "(task \<Rightarrow> bool) \<Rightarrow> u64 \<Rightarrow> bool \<Rightarrow> task list \<Rightarrow> kernel \<Rightarrow> task list \<times> kernel" where
  "pend_tasks P sig_bit blocked [] k = ([], k)"
| "pend_tasks P sig_bit blocked (t # ts) k =
    (let (t', k') = (if P t then pend_task sig_bit blocked t k else (t, k));
         (ts', k'') = pend_tasks P sig_bit blocked ts k' in
     (t' # ts', k''))"

text \<open>A parent that waits for the child (or for any child) is woken with the status.\<close>

definition waits_for :: "u64 \<Rightarrow> u64 \<Rightarrow> task \<Rightarrow> bool" where
  "waits_for parent child t \<longleftrightarrow> t_tgid t = parent \<and>
    (case t_state t of Waiting c _ \<Rightarrow> c = child \<or> c = - 1 \<or> c = 0 | _ \<Rightarrow> False)"

definition woken_parent :: "u64 \<Rightarrow> u64 \<Rightarrow> task \<Rightarrow> task" where
  "woken_parent child code t =
    (let linux = (case t_process t of Some p \<Rightarrow> \<not> p_native p | None \<Rightarrow> False);
         r = (if linux then child else code) in
     t\<lparr>t_state := Runnable, t_context := (t_context t)\<lparr>uc_return_value := r\<rparr>,
       t_interrupt := (t_interrupt t)\<lparr>ic_rax := r\<rparr>\<rparr>)"

definition status_write :: "u32 \<Rightarrow> task \<Rightarrow> (u64 \<times> u64 \<times> bytes) list" where
  "status_write status t =
    (case (t_state t, t_process t) of
      (Waiting _ ptr, Some p) \<Rightarrow> if ptr \<noteq> 0 then [(p_space p, ptr, to_le 4 status)] else []
    | _ \<Rightarrow> [])"

primrec wake_parent_tasks ::
  "u64 \<Rightarrow> u64 \<Rightarrow> u64 \<Rightarrow> u32 \<Rightarrow> task list \<Rightarrow> (task list \<times> (u64 \<times> u64 \<times> bytes) list) option" where
  "wake_parent_tasks parent child code status [] = None"
| "wake_parent_tasks parent child code status (t # ts) =
    (if waits_for parent child t then Some (woken_parent child code t # ts, status_write status t)
     else map_option (\<lambda>(ts', ws). (t # ts', ws)) (wake_parent_tasks parent child code status ts))"

text \<open>The processors of the list in order, until one of them has such a parent.\<close>

primrec wake_parent_on :: "nat list \<Rightarrow> u64 \<Rightarrow> u64 \<Rightarrow> u64 \<Rightarrow> u32 \<Rightarrow> kernel \<Rightarrow> bool \<times> kernel" where
  "wake_parent_on [] parent child code status k = (False, k)"
| "wake_parent_on (c # cs) parent child code status k =
    (case SCHEDULERS k ! c of
      None \<Rightarrow> wake_parent_on cs parent child code status k
    | Some s \<Rightarrow>
       (case wake_parent_tasks parent child code status (tasks s) of
         None \<Rightarrow> wake_parent_on cs parent child code status k
       | Some (ts, ws) \<Rightarrow>
          (True, set_sched c (s\<lparr>tasks := ts\<rparr>) (k\<lparr>user_writes := user_writes k @ ws\<rparr>))))"

text \<open>\<open>kill_process\<close>.  On each processor the first matching task decides for all matching ones there whether
  the signal ends them, is ignored or becomes pending.\<close>

definition kill_target :: "bool \<Rightarrow> u64 \<Rightarrow> u64 \<Rightarrow> task \<Rightarrow> bool" where
  "kill_target is_group pgid tgid t \<longleftrightarrow>
    t_process t \<noteq> None \<and> (if is_group then t_pgid t = pgid else t_tgid t = tgid)"

datatype verdict = Kills | Ignored | Pends bool

definition is_fatal :: "signal_default_action \<Rightarrow> bool" where
  "is_fatal d \<longleftrightarrow> d = Terminate \<or> d = CoreDump"

definition kill_verdict :: "u64 \<Rightarrow> sig_action \<Rightarrow> u64 \<Rightarrow> verdict" where
  "kill_verdict n a blocked_mask =
    (let d = default_signal_action n;
         blocked = blocked_mask AND push_bit (unat (n - 1)) 1 \<noteq> 0 \<and> n \<noteq> 9 \<and> n \<noteq> 19 in
     if (n = 9 \<or> sa_handler a = 0 \<and> is_fatal d) \<and> \<not> blocked then Kills
     else if (sa_handler a = 1 \<or> sa_handler a = 0 \<and> d = Ignore) \<and> \<not> blocked then Ignored
     else Pends blocked)"

definition kill_on :: "(task \<Rightarrow> bool) \<Rightarrow> u64 \<Rightarrow> u64 \<Rightarrow> nat \<Rightarrow> bool \<times> u64 option \<times> kernel \<Rightarrow> bool \<times> u64 option \<times> kernel" where
  "kill_on P n tgid cpu r =
    (case r of (found, parent, k) \<Rightarrow>
     case SCHEDULERS k ! cpu of
       None \<Rightarrow> r
     | Some s \<Rightarrow>
        (case filter P (tasks s) of
          [] \<Rightarrow> r
        | t # _ \<Rightarrow>
           if n = 0 then (True, parent, k)
           else case kill_verdict n (action_of k t n) (t_blocked_mask t) of
             Kills \<Rightarrow>
               (let k' = terminate_tasks P (128 + n) cpu s k in
                (True, (if parent = None then t_parent_pid t else parent),
                 if FOREGROUND_PID k' = tgid then k'\<lparr>FOREGROUND_PID := 0\<rparr> else k'))
           | Ignored \<Rightarrow> (True, parent, k)
           | Pends blocked \<Rightarrow>
               (case pend_tasks P (push_bit (unat (n - 1)) 1) blocked (tasks s) k of
                 (ts, k') \<Rightarrow> (True, parent, set_sched cpu (s\<lparr>tasks := ts\<rparr>) k'))))"

definition kill_process :: "nat \<Rightarrow> u64 \<Rightarrow> u64 \<Rightarrow> kernel \<Rightarrow> (unit, kernel) outcome" where
  "kill_process cpu pid n k =
    (if 64 < n then Err ()
     else case SCHEDULERS k ! cpu of
       None \<Rightarrow> Err ()
     | Some s \<Rightarrow>
        if current s < length (tasks s) then
          (let cur = tasks s ! current s;
               is_group = sint pid \<le> 0;
               pgid = (if sint pid < 0 then - pid else t_pgid cur);
               tgid = (if pid = 0 then t_tgid cur else pid);
               P = kill_target is_group pgid tgid in
           case fold (kill_on P n tgid) [0..<MAX_CPUS] (False, None, k) of
             (False, _, _) \<Rightarrow> Err ()
           | (True, None, k') \<Rightarrow> Ok k'
           | (True, Some parent, k') \<Rightarrow>
               Ok (snd (wake_parent_on [0..<MAX_CPUS] parent tgid (128 + n) (ucast (128 + n) AND 0x7F) k')))
        else Panic)"

definition signal_pgrp :: "nat \<Rightarrow> u32 \<Rightarrow> u64 \<Rightarrow> kernel \<Rightarrow> (unit, kernel) outcome" where
  "signal_pgrp cpu pgid n k = (if pgid = 0 then Ok k else kill_process cpu (- ucast pgid) n k)"

text \<open>\<open>kill_thread\<close> looks at the first task with the identifier that has a process, on the first processor
  that has one.\<close>

definition thread_verdict :: "u64 \<Rightarrow> sig_action \<Rightarrow> verdict" where
  "thread_verdict n a =
    (let d = default_signal_action n in
     if n = 9 then Kills
     else if sa_handler a = 1 \<or> sa_handler a = 0 \<and> d = Ignore then Ignored
     else if sa_handler a = 0 \<and> is_fatal d then Kills
     else Pends False)"

definition kill_thread_at :: "nat \<Rightarrow> u64 \<Rightarrow> nat \<Rightarrow> scheduler \<Rightarrow> kernel \<Rightarrow> kernel" where
  "kill_thread_at i n cpu s k =
    (let t = tasks s ! i in
     if n = 0 then k
     else case thread_verdict n (action_of k t n) of
       Kills \<Rightarrow>
         (let s' = s\<lparr>tasks := (tasks s)[i := terminated (128 + n) t]\<rparr> in
          set_sched cpu (wake_clear_tids (clear_tids [t]) s')
            (k\<lparr>user_writes := user_writes k @ clear_tid_write t\<rparr>))
     | Ignored \<Rightarrow> k
     | Pends b \<Rightarrow>
         (case pend_task (push_bit (unat (n - 1)) 1) b t k of
           (t', k') \<Rightarrow> set_sched cpu (s\<lparr>tasks := (tasks s)[i := t']\<rparr>) k'))"

definition position :: "('a \<Rightarrow> bool) \<Rightarrow> 'a list \<Rightarrow> nat option" where
  "position P xs = (let n = length (takeWhile (\<lambda>x. \<not> P x) xs) in if n < length xs then Some n else None)"

primrec kill_thread_on :: "nat list \<Rightarrow> u64 \<Rightarrow> u64 \<Rightarrow> kernel \<Rightarrow> (unit, kernel) outcome" where
  "kill_thread_on [] tid n k = Err ()"
| "kill_thread_on (c # cs) tid n k =
    (case SCHEDULERS k ! c of
      None \<Rightarrow> kill_thread_on cs tid n k
    | Some s \<Rightarrow>
       (case position (\<lambda>t. t_tid t = tid \<and> t_process t \<noteq> None) (tasks s) of
         None \<Rightarrow> kill_thread_on cs tid n k
       | Some i \<Rightarrow> Ok (kill_thread_at i n c s k)))"

definition kill_thread :: "u64 \<Rightarrow> u64 \<Rightarrow> kernel \<Rightarrow> (unit, kernel) outcome" where
  "kill_thread tid n k = (if 64 < n then Err () else kill_thread_on [0..<MAX_CPUS] tid n k)"

text \<open>The interrupt key and broken pipes signal the foreground process, or the current one.\<close>

definition interrupt_current :: "nat \<Rightarrow> u64 \<Rightarrow> kernel \<Rightarrow> kernel option" where
  "interrupt_current cpu n k =
    (if n = 0 \<or> 64 < n then Some k
     else case (if FOREGROUND_PID k = 0 then current_pid cpu k else Some (FOREGROUND_PID k)) of
       None \<Rightarrow> None
     | Some target \<Rightarrow> (case kill_process cpu target n k of Ok k' \<Rightarrow> Some k' | Err _ \<Rightarrow> Some k | Panic \<Rightarrow> None))"

section \<open>Lemmas: delivery\<close>

lemma trailing_zeros_bit:
  assumes "w \<noteq> 0"
  shows "trailing_zeros w < 64" "bit w (trailing_zeros w)" "\<And>i. i < trailing_zeros w \<Longrightarrow> \<not> bit w i"
proof -
  let ?xs = "takeWhile (\<lambda>i. \<not> bit w i) [0..<64]"
  obtain j where j: "bit w j"
    using assms bit_word_eqI [of w 0] by auto
  then have "j < 64"
    using bit_imp_le_length [of w j] by simp
  then have "?xs \<noteq> [0..<64]"
    using j by (metis atLeastLessThan_iff set_takeWhileD set_upt zero_le)
  then have "length ?xs \<noteq> length [0..<64]"
    by (metis takeWhile_eq_take take_all_iff order_refl)
  then have lt: "length ?xs < length [0..<64]"
    using length_takeWhile_le [of "\<lambda>i. \<not> bit w i" "[0..<64]"] by linarith
  then show "trailing_zeros w < 64"
    by (simp add: trailing_zeros_def)
  show "bit w (trailing_zeros w)"
    using nth_length_takeWhile [OF lt] lt by (simp add: trailing_zeros_def)
  show "\<not> bit w i" if "i < trailing_zeros w" for i
  proof -
    have "?xs ! i = i" "i < length ?xs"
      using that takeWhile_nth [of i "\<lambda>i. \<not> bit w i" "[0..<64]"] lt by (simp_all add: trailing_zeros_def)
    then show ?thesis
      using nth_mem [of i ?xs] set_takeWhileD [of i "\<lambda>i. \<not> bit w i" "[0..<64]"] by auto
  qed
qed

text \<open>The signals, as numbers from 1 to 64, in a set of bits.\<close>

definition signals :: "u64 \<Rightarrow> nat set" where
  "signals w = {n. 1 \<le> n \<and> n \<le> 64 \<and> bit w (n - 1)}"

lemma signals_finite [simp]: "finite (signals w)"
  by (rule finite_subset [of _ "{1..64}"]) (auto simp: signals_def)

lemma signals_empty: "signals w = {} \<longleftrightarrow> w = 0"
proof
  assume e: "signals w = {}"
  show "w = 0"
  proof (rule bit_word_eqI)
    fix n assume "n < LENGTH(64)"
    then have "\<not> bit w n"
      using e by (auto simp: signals_def dest!: spec [of _ "Suc n"])
    then show "bit w n = bit (0 :: u64) n" by simp
  qed
qed (simp add: signals_def)

lemma signals_diff: "signals (p AND NOT b) = signals p - signals b"
  by (auto simp: signals_def bit_simps)

lemma signals_or: "signals (p OR b) = signals p \<union> signals b"
  by (auto simp: signals_def bit_simps)

lemma signals_bit: "n < 64 \<Longrightarrow> signals (push_bit n 1) = {Suc n}"
  by (auto simp: signals_def bit_simps)

lemma signals_exp: "n < 64 \<Longrightarrow> signals (2 ^ n) = {Suc n}"
  using signals_bit [of n] by simp

lemma Min_signals:
  assumes "w \<noteq> 0"
  shows "Min (signals w) = Suc (trailing_zeros w)"
proof (rule Min_eqI)
  note tz = trailing_zeros_bit [OF assms]
  show "Suc (trailing_zeros w) \<in> signals w"
    using tz by (simp add: signals_def)
  fix n assume "n \<in> signals w"
  then have "1 \<le> n" "\<not> n - 1 < trailing_zeros w"
    using tz(3) by (auto simp: signals_def)
  then show "Suc (trailing_zeros w) \<le> n"
    by linarith
qed simp

lemma check_pending_spec:
  assumes s: "SCHEDULERS k ! cpu = Some s" "current s < length (tasks s)"
    and t: "t = tasks s ! current s" "t_process t \<noteq> None"
  defines "D \<equiv> signals (t_pending_signals t) - signals (t_blocked_mask t)"
  shows "check_pending_signal_to_deliver cpu k =
    (if D = {} then Some (None, k)
     else Some (Some (of_nat (Min D), action_of k t (of_nat (Min D))),
       set_sched cpu (s\<lparr>tasks := (tasks s)[current s :=
         t\<lparr>t_pending_signals := t_pending_signals t AND NOT (push_bit (Min D - 1) 1)\<rparr>]\<rparr>) k))"
proof -
  let ?w = "t_pending_signals t AND NOT (t_blocked_mask t)"
  have D: "D = signals ?w"
    by (simp add: D_def signals_diff)
  show ?thesis
  proof (cases "?w = 0")
    case True
    then have "D = {}"
      by (simp add: D signals_empty)
    then show ?thesis
      using s t True by (simp add: check_pending_signal_to_deliver_def Let_def)
  next
    case False
    have "D \<noteq> {}" "Min D = Suc (trailing_zeros ?w)"
      using False by (simp_all add: D signals_empty Min_signals)
    then show ?thesis
      using s t False by (simp add: check_pending_signal_to_deliver_def Let_def)
  qed
qed

text \<open>C17.  A task gets its pending signals one at a time: on the way back to user mode it is handed the
  lowest-numbered signal that is pending and not blocked, with the action its process has set, and exactly that one
  stops being pending; without such a signal nothing changes.  The masks a task can set never block
  signals 9 and 19.\<close>

theorem signal_delivery_order:
  assumes "SCHEDULERS k ! cpu = Some s" "current s < length (tasks s)" "cpu < length (SCHEDULERS k)"
    and "t = tasks s ! current s" "t_process t \<noteq> None"
  defines "D \<equiv> signals (t_pending_signals t) - signals (t_blocked_mask t)"
  shows "(D = {} \<longrightarrow> check_pending_signal_to_deliver cpu k = Some (None, k)) \<and>
    (D \<noteq> {} \<longrightarrow> (\<exists>k'. check_pending_signal_to_deliver cpu k =
        Some (Some (of_nat (Min D), action_of k t (of_nat (Min D))), k') \<and>
      (\<exists>w. signals w = signals (t_pending_signals t) - {Min D} \<and>
        k' = set_sched cpu (s\<lparr>tasks := (tasks s)[current s := t\<lparr>t_pending_signals := w\<rparr>]\<rparr>) k))) \<and>
    (\<exists>k'. set_current_blocked_mask cpu w0 k = Some k' \<and>
      map_option signals (current_blocked_mask cpu k') = Some (signals w0 - {9, 19}))"
proof (intro conjI impI)
  note spec = check_pending_spec [OF assms(1,2,4,5), folded D_def]
  show "check_pending_signal_to_deliver cpu k = Some (None, k)" if "D = {}"
    using spec that by simp
  show "\<exists>k'. check_pending_signal_to_deliver cpu k =
        Some (Some (of_nat (Min D), action_of k t (of_nat (Min D))), k') \<and>
      (\<exists>w. signals w = signals (t_pending_signals t) - {Min D} \<and>
        k' = set_sched cpu (s\<lparr>tasks := (tasks s)[current s := t\<lparr>t_pending_signals := w\<rparr>]\<rparr>) k)" if "D \<noteq> {}"
  proof -
    have "Min D \<in> D"
      using that by (intro Min_in) (simp_all add: D_def)
    then have "1 \<le> Min D" "Min D \<le> 64"
      by (simp_all add: D_def signals_def)
    then have "signals (t_pending_signals t AND NOT (push_bit (Min D - 1) 1)) = signals (t_pending_signals t) - {Min D}"
      by (simp add: signals_diff signals_exp)
    then show ?thesis
      using spec that by auto
  qed
  have "signals UNBLOCKABLE_SIGNALS_MASK = {9, 19}"
    by (simp only: UNBLOCKABLE_SIGNALS_MASK_def signals_or signals_bit) auto
  then show "\<exists>k'. set_current_blocked_mask cpu w0 k = Some k' \<and>
      map_option signals (current_blocked_mask cpu k') = Some (signals w0 - {9, 19})"
    using assms(1-3) by (simp add: set_current_blocked_mask_def modify_current_def update_current_def
        current_blocked_mask_def current_field_def signals_diff)
qed

section \<open>Lemmas: the effect of SIGKILL\<close>

text \<open>The identities and processes of the tasks in every table, and what a kill does to them.\<close>

definition table_keys :: "scheduler option list \<Rightarrow> (u64 \<times> u64 \<times> process option) list option list" where
  "table_keys ss = map (map_option (\<lambda>s. map task_key (tasks s))) ss"

definition kill_key :: "u64 \<Rightarrow> u64 \<times> u64 \<times> process option \<Rightarrow> u64 \<times> u64 \<times> process option" where
  "kill_key pid x = (case x of (i, g, p) \<Rightarrow> (i, g, if g = pid then None else p))"

lemma update_same: "xs ! i = y \<Longrightarrow> xs[i := y] = xs"
  by (metis list_update_id)

lemma table_keys_set: "table_keys (SCHEDULERS (set_sched c s k)) = (table_keys (SCHEDULERS k))[c := Some (map task_key (tasks s))]"
  by (simp add: table_keys_def set_sched_def map_update)

lemma table_keys_nth: "c < length ss \<Longrightarrow> table_keys ss ! c = map_option (\<lambda>s. map task_key (tasks s)) (ss ! c)"
  by (simp add: table_keys_def)

lemma map_task_key_woken: "list_all2 woken ts ts' \<Longrightarrow> map task_key ts' = map task_key ts"
  by (induction rule: list_all2_induct) (auto simp: woken_def)

lemma wake_clear_tids_keys: "map task_key (tasks (wake_clear_tids as s)) = map task_key (tasks s)"
proof (induction as arbitrary: s)
  case (Cons a as)
  have "map task_key (tasks (snd (futex_wake_unlocked a 1 FUTEX_BITSET_MATCH_ANY s))) = map task_key (tasks s)"
    by (auto simp: futex_wake_unlocked_def split: prod.splits dest!: futex_wake_tasks_woken map_task_key_woken)
  then show ?case
    using Cons by (simp add: wake_clear_tids_def)
qed (simp add: wake_clear_tids_def)

lemma terminate_tasks_keys:
  assumes "P = kill_target False g pid"
  shows "table_keys (SCHEDULERS (terminate_tasks P code c s k)) =
    (table_keys (SCHEDULERS k))[c := Some (map (kill_key pid) (map task_key (tasks s)))]"
proof -
  have "task_key (if P t then terminated code t else t) = kill_key pid (task_key t)" for t
    by (auto simp: assms kill_target_def terminated_def task_key_def kill_key_def)
  then show ?thesis
    by (simp add: terminate_tasks_def Let_def table_keys_set wake_clear_tids_keys comp_def)
qed

lemma terminate_tasks_others [simp]:
  "length (SCHEDULERS (terminate_tasks P code c s k)) = length (SCHEDULERS k)"
  "d \<noteq> c \<Longrightarrow> SCHEDULERS (terminate_tasks P code c s k) ! d = SCHEDULERS k ! d"
  by (simp_all add: terminate_tasks_def Let_def)

definition has_target :: "u64 \<Rightarrow> scheduler option \<Rightarrow> bool" where
  "has_target pid x = (case x of None \<Rightarrow> False | Some s \<Rightarrow> \<exists>t\<in>set (tasks s). t_tgid t = pid \<and> t_process t \<noteq> None)"

lemma kill_key_idle: "\<not> has_target pid (Some s) \<Longrightarrow> map (kill_key pid) (map task_key (tasks s)) = map task_key (tasks s)"
  by (auto simp: has_target_def kill_key_def task_key_def)

lemma kill_on_keys:
  assumes "c < length (SCHEDULERS k)" "kill_on (kill_target False g pid) 9 tgid c (found, parent, k) = (found', parent', k')"
  shows "length (SCHEDULERS k') = length (SCHEDULERS k) \<and>
    table_keys (SCHEDULERS k') =
      (table_keys (SCHEDULERS k))[c := map_option (map (kill_key pid)) (table_keys (SCHEDULERS k) ! c)] \<and>
    found' = (found \<or> has_target pid (SCHEDULERS k ! c)) \<and> (\<forall>d. d \<noteq> c \<longrightarrow> SCHEDULERS k' ! d = SCHEDULERS k ! d)"
proof (cases "SCHEDULERS k ! c")
  case None
  then have "table_keys (SCHEDULERS k) ! c = None"
    using assms(1) by (simp add: table_keys_nth)
  then show ?thesis
    using assms None by (auto simp: kill_on_def has_target_def update_same)
next
  case (Some s)
  let ?P = "kill_target False g pid"
  have nth: "table_keys (SCHEDULERS k) ! c = Some (map task_key (tasks s))"
    using assms(1) Some by (simp add: table_keys_nth)
  have target: "filter ?P (tasks s) \<noteq> [] \<longleftrightarrow> has_target pid (Some s)"
    by (auto simp: has_target_def kill_target_def filter_empty_conv)
  show ?thesis
  proof (cases "filter ?P (tasks s)")
    case Nil
    then have "map_option (map (kill_key pid)) (table_keys (SCHEDULERS k) ! c) = table_keys (SCHEDULERS k) ! c"
      using target kill_key_idle nth by simp
    then show ?thesis
      using assms Some Nil target by (auto simp: kill_on_def update_same)
  next
    case (Cons t ts)
    have "kill_verdict 9 a m = Kills" for a m
      by (simp add: kill_verdict_def)
    then have "found'" "SCHEDULERS k' = SCHEDULERS (terminate_tasks ?P (128 + 9) c s k)"
      using assms(2) Some Cons by (auto simp: kill_on_def Let_def split: if_splits)
    then show ?thesis
      using Some Cons nth target terminate_tasks_keys [of ?P g pid "128 + 9" c s k] terminate_tasks_others
      by simp
  qed
qed

lemma kill_all_keys:
  assumes "n \<le> length (SCHEDULERS k)"
  shows "\<exists>parent' k'. fold (kill_on (kill_target False g pid) 9 tgid) [0..<n] (False, None, k) =
      (\<exists>c<n. has_target pid (SCHEDULERS k ! c), parent', k') \<and>
    length (SCHEDULERS k') = length (SCHEDULERS k) \<and>
    (\<forall>d<length (SCHEDULERS k). table_keys (SCHEDULERS k') ! d =
      (if d < n then map_option (map (kill_key pid)) (table_keys (SCHEDULERS k) ! d) else table_keys (SCHEDULERS k) ! d)) \<and>
    (\<forall>d. n \<le> d \<longrightarrow> SCHEDULERS k' ! d = SCHEDULERS k ! d)"
  using assms
proof (induction n)
  case (Suc n)
  then obtain parent k1 where k1: "fold (kill_on (kill_target False g pid) 9 tgid) [0..<n] (False, None, k) =
      (\<exists>c<n. has_target pid (SCHEDULERS k ! c), parent, k1)"
    "length (SCHEDULERS k1) = length (SCHEDULERS k)"
    "\<forall>d<length (SCHEDULERS k). table_keys (SCHEDULERS k1) ! d =
      (if d < n then map_option (map (kill_key pid)) (table_keys (SCHEDULERS k) ! d) else table_keys (SCHEDULERS k) ! d)"
    "\<forall>d. n \<le> d \<longrightarrow> SCHEDULERS k1 ! d = SCHEDULERS k ! d"
    by auto
  obtain found parent' k' where k': "kill_on (kill_target False g pid) 9 tgid n
      (\<exists>c<n. has_target pid (SCHEDULERS k ! c), parent, k1) = (found, parent', k')"
    by (rule prod_cases3)
  have n: "n < length (SCHEDULERS k1)" "n < length (table_keys (SCHEDULERS k1))"
    using Suc.prems k1(2) by (simp_all add: table_keys_def)
  note step = kill_on_keys [OF n(1) k']
  have "found = (\<exists>c<Suc n. has_target pid (SCHEDULERS k ! c))"
    using step k1(4) by (auto simp: less_Suc_eq)
  moreover have "table_keys (SCHEDULERS k') ! d =
      (if d < Suc n then map_option (map (kill_key pid)) (table_keys (SCHEDULERS k) ! d) else table_keys (SCHEDULERS k) ! d)"
    if "d < length (SCHEDULERS k)" for d
    using step k1(3) that n by (cases "d = n") (auto simp: nth_list_update)
  ultimately show ?case
    using k1 k' step by simp
qed simp

lemma wake_parent_tasks_keys:
  "wake_parent_tasks p c code st ts = Some (ts', ws) \<Longrightarrow> map task_key ts' = map task_key ts"
  by (induction ts arbitrary: ts') (auto simp: woken_parent_def task_key_def Let_def split: if_splits)

lemma wake_parent_on_keys:
  "wake_parent_on cs p c code st k = (b, k') \<Longrightarrow> table_keys (SCHEDULERS k') = table_keys (SCHEDULERS k)"
proof (induction cs arbitrary: k)
  case (Cons d cs)
  show ?case
  proof (cases "SCHEDULERS k ! d")
    case (Some s)
    then show ?thesis
    proof (cases "wake_parent_tasks p c code st (tasks s)")
      case hit: (Some r)
      obtain ts ws where r: "r = (ts, ws)" by (cases r)
      have "map task_key ts = map task_key (tasks s)"
        using hit r wake_parent_tasks_keys by simp
      moreover have "(table_keys (SCHEDULERS k))[d := Some (map task_key (tasks s))] = table_keys (SCHEDULERS k)"
      proof (cases "d < length (SCHEDULERS k)")
        case True
        then show ?thesis
          using Some by (intro update_same) (simp add: table_keys_nth)
      qed (simp add: table_keys_def list_update_beyond)
      ultimately show ?thesis
        using Cons.prems Some hit r by (auto simp: table_keys_set)
    qed (use Cons Some in auto)
  qed (use Cons in auto)
qed simp

lemma all_tasks_keys: "map task_key (all_tasks ss) = concat (map (\<lambda>x. case x of None \<Rightarrow> [] | Some ks \<Rightarrow> ks) (table_keys ss))"
  by (induction ss) (auto simp: table_keys_def all_tasks_def split: option.splits)

lemma has_target_iff:
  "(\<exists>c<length ss. has_target pid (ss ! c)) \<longleftrightarrow> (\<exists>t\<in>set (all_tasks ss). t_tgid t = pid \<and> t_process t \<noteq> None)"
proof -
  have "(\<exists>c<length ss. has_target pid (ss ! c)) \<longleftrightarrow> (\<exists>x\<in>set ss. has_target pid x)"
    by (metis in_set_conv_nth)
  moreover have "(\<exists>x\<in>set ss. has_target pid x) \<longleftrightarrow> (\<exists>t\<in>set (all_tasks ss). t_tgid t = pid \<and> t_process t \<noteq> None)"
  proof (induction ss)
    case (Cons x ss)
    then show ?case
      by (cases x) (auto simp: has_target_def)
  qed simp
  ultimately show ?thesis
    by simp
qed

lemma sigkill_tables:
  assumes "kernel_ok B k" "cpu \<in> B" "0 < sint pid"
  shows "if \<exists>t\<in>set (all_tasks (SCHEDULERS k)). t_tgid t = pid \<and> t_process t \<noteq> None
    then \<exists>k'. kill_process cpu pid 9 k = Ok k' \<and>
      table_keys (SCHEDULERS k') = map (map_option (map (kill_key pid))) (table_keys (SCHEDULERS k))
    else kill_process cpu pid 9 k = Err ()"
proof -
  obtain s where s: "SCHEDULERS k ! cpu = Some s" "running_ok s"
    using kernel_ok_at [OF assms(1,2)] by metis
  have len: "length (SCHEDULERS k) = MAX_CPUS"
    using assms(1) by (rule kernel_ok_len)
  have pid: "pid \<noteq> 0"
    using assms(3) by auto
  let ?g = "t_pgid (tasks s ! current s)"
  let ?found = "\<exists>t\<in>set (all_tasks (SCHEDULERS k)). t_tgid t = pid \<and> t_process t \<noteq> None"
  obtain parent k1 where k1: "fold (kill_on (kill_target False ?g pid) 9 pid) [0..<MAX_CPUS] (False, None, k) = (?found, parent, k1)"
    "length (SCHEDULERS k1) = length (SCHEDULERS k)"
    "\<forall>d<length (SCHEDULERS k). table_keys (SCHEDULERS k1) ! d = map_option (map (kill_key pid)) (table_keys (SCHEDULERS k) ! d)"
    using kill_all_keys [of MAX_CPUS k ?g pid pid] len has_target_iff [of "SCHEDULERS k" pid] by auto
  have kill: "kill_process cpu pid 9 k =
    (case (?found, parent, k1) of (False, _, _) \<Rightarrow> Err () | (True, None, k') \<Rightarrow> Ok k'
      | (True, Some p, k') \<Rightarrow> Ok (snd (wake_parent_on [0..<MAX_CPUS] p pid (128 + 9) (ucast (128 + 9 :: u64) AND 0x7F) k')))"
    using s assms(3) pid k1(1) by (simp add: kill_process_def Let_def running_ok_def)
  have keys: "table_keys (SCHEDULERS k1) = map (map_option (map (kill_key pid))) (table_keys (SCHEDULERS k))"
    using k1(2,3) by (intro nth_equalityI) (simp_all add: table_keys_def)
  show ?thesis
  proof (cases ?found)
    case True
    obtain k' where k': "kill_process cpu pid 9 k = Ok k'" "table_keys (SCHEDULERS k') = table_keys (SCHEDULERS k1)"
    proof (cases parent)
      case None
      then show ?thesis using that [of k1] kill True by simp
    next
      case (Some p)
      then show ?thesis
        using that [of "snd (wake_parent_on [0..<MAX_CPUS] p pid (128 + 9) (ucast (128 + 9 :: u64) AND 0x7F) k1)"] kill True
          wake_parent_on_keys [OF prod.collapse [symmetric]] by simp
    qed
    then show ?thesis
      using True keys by auto
  next
    case False
    then have f: "?found = False"
      by (simp only: simp_thms)
    have "kill_process cpu pid 9 k = Err ()"
      using kill unfolding f by simp
    then show ?thesis
      unfolding f by simp
  qed
qed

text \<open>C5.  SIGKILL cannot be escaped: sent to an existing process it always succeeds, and afterwards no task of that
  process, on any processor, has a process any more, whatever its signal actions and masks; every other task keeps its
  identity and process, and tasks keep their places.  Without such a task it fails and changes nothing.\<close>

theorem sigkill_certain:
  assumes "kernel_ok B k" "cpu \<in> B" "0 < sint pid"
  shows "if \<exists>t\<in>set (all_tasks (SCHEDULERS k)). t_tgid t = pid \<and> t_process t \<noteq> None
    then \<exists>k'. kill_process cpu pid 9 k = Ok k' \<and>
      map task_key (all_tasks (SCHEDULERS k')) = map (kill_key pid) (map task_key (all_tasks (SCHEDULERS k))) \<and>
      (\<forall>t\<in>set (all_tasks (SCHEDULERS k')). t_tgid t = pid \<longrightarrow> t_process t = None)
    else kill_process cpu pid 9 k = Err ()"
proof -
  have after: "map task_key (all_tasks (SCHEDULERS k')) = map (kill_key pid) (map task_key (all_tasks (SCHEDULERS k)))"
    if "table_keys (SCHEDULERS k') = map (map_option (map (kill_key pid))) (table_keys (SCHEDULERS k))" for k' :: kernel
    unfolding all_tasks_keys that by (auto simp: map_concat comp_def intro!: arg_cong [of _ _ concat] split: option.splits)
  have none: "t_process t = None" if "t \<in> set (all_tasks (SCHEDULERS k'))" "t_tgid t = pid"
    "map task_key (all_tasks (SCHEDULERS k')) = map (kill_key pid) (map task_key (all_tasks (SCHEDULERS k)))" for t and k' :: kernel
  proof -
    have "task_key t \<in> set (map (kill_key pid) (map task_key (all_tasks (SCHEDULERS k))))"
      using that(1) unfolding that(3) [symmetric] by simp
    then show ?thesis
      using that(2) by (auto simp: kill_key_def task_key_def split: if_splits)
  qed
  show ?thesis
    using sigkill_tables [OF assms] after none by (auto split: if_splits)
qed

section \<open>Where signals go wrong\<close>

text \<open>No signal moves a processor to another task.\<close>

definition currents :: "kernel \<Rightarrow> nat option list" where
  "currents k = map (map_option current) (SCHEDULERS k)"

lemma currents_set: "SCHEDULERS k ! c = Some s \<Longrightarrow> current s' = current s \<Longrightarrow> currents (set_sched c s' k) = currents k"
  by (cases "c < length (SCHEDULERS k)") (auto simp: currents_def set_sched_def map_update list_update_beyond update_same)

lemma currents_simps [simp]:
  "currents (user_writes_update f k) = currents k" "currents (FOREGROUND_PID_update g k) = currents k"
  "currents (timers_update h k) = currents k"
  by (simp_all add: currents_def)

lemma wake_clear_tids_current [simp]: "current (wake_clear_tids as s) = current s"
  by (induction as arbitrary: s) (auto simp: wake_clear_tids_def futex_wake_unlocked_def split: prod.splits)

lemma pend_tasks_scheds: "pend_tasks P b bl ts k = (ts', k') \<Longrightarrow> SCHEDULERS k' = SCHEDULERS k"
  by (induction ts arbitrary: k ts' k')
    (auto simp: pend_task_def interrupt_sleep_def Let_def split: if_splits prod.splits task_state.splits)

lemma kill_on_currents: "kill_on P n g c (f, p, k) = (f', p', k') \<Longrightarrow> currents k' = currents k"
proof (cases "SCHEDULERS k ! c")
  case (Some s)
  assume r: "kill_on P n g c (f, p, k) = (f', p', k')"
  show ?thesis
  proof (cases "filter P (tasks s)")
    case (Cons t ts)
    show ?thesis
    proof (cases "n = 0")
      case False
      show ?thesis
      proof (cases "kill_verdict n (action_of k t n) (t_blocked_mask t)")
        case Kills
        have "currents (terminate_tasks P (128 + n) c s k) = currents k"
          using Some by (simp add: terminate_tasks_def Let_def currents_set [where s = s])
        then show ?thesis
          using r Some Cons False Kills by (auto simp: kill_on_def Let_def)
      next
        case Ignored
        then show ?thesis using r Some Cons False by (simp add: kill_on_def)
      next
        case (Pends b)
        obtain ts' k1 where k1: "pend_tasks P (push_bit (unat (n - 1)) 1) b (tasks s) k = (ts', k1)"
          by (rule prod.exhaust)
        have "currents (set_sched c (s\<lparr>tasks := ts'\<rparr>) k1) = currents k1"
          using Some pend_tasks_scheds [OF k1] by (intro currents_set [where s = s]) simp_all
        moreover have "currents k1 = currents k"
          using pend_tasks_scheds [OF k1] by (simp add: currents_def)
        ultimately show ?thesis
          using r Some Cons False Pends k1 by (auto simp: kill_on_def)
      qed
    qed (use r Some Cons in \<open>simp add: kill_on_def\<close>)
  qed (use r Some in \<open>simp add: kill_on_def\<close>)
qed (simp add: kill_on_def)

lemma kill_fold_currents: "fold (kill_on P n g) cs (f, p, k) = (f', p', k') \<Longrightarrow> currents k' = currents k"
proof (induction cs arbitrary: f p k)
  case (Cons c cs)
  obtain f1 p1 k1 where step: "kill_on P n g c (f, p, k) = (f1, p1, k1)"
    by (rule prod_cases3)
  then show ?case
    using Cons kill_on_currents [OF step] by simp
qed simp

lemma wake_parent_on_currents: "wake_parent_on cs p c code st k = (b, k') \<Longrightarrow> currents k' = currents k"
proof (induction cs arbitrary: k)
  case (Cons d cs)
  then show ?case
    by (auto split: option.splits simp: currents_set)
qed simp

lemma kill_process_currents: "kill_process cpu pid n k = Ok k' \<Longrightarrow> currents k' = currents k"
  by (auto simp: kill_process_def Let_def split: if_splits option.splits prod.splits bool.splits
      simp: wake_parent_on_currents [OF prod.collapse [symmetric]] dest!: kill_fold_currents)

lemma preempt_alone:
  assumes s: "SCHEDULERS k ! cpu = Some s" "length (tasks s) = 1" "current s = 0" and user: "interrupted_user_mode i"
  shows "\<exists>k'. preempt cpu i k = Some (Continue i, k')"
proof -
  let ?t = "tasks s ! 0"
  define left where "left = (if 0 < t_slice ?t then t_slice ?t - 1 else t_slice ?t)"
  let ?s = "s\<lparr>sched_ticks := sched_ticks s + 1, tasks := (tasks s)
    [0 := demote (?t\<lparr>t_cpu_ticks := t_cpu_ticks ?t + 1, t_slice := left\<rparr>)], slice_ticks := 0\<rparr>"
  have "next_alive ?s 0 = None \<or> next_alive ?s 0 = Some 0"
    using next_alive_in [of ?s 0] s(2) by (cases "next_alive ?s 0") auto
  then show ?thesis
    using s user by (elim disjE) (simp_all add: preempt_def Let_def flip: left_def)
qed


lemma kill_on_ignored:
  assumes "\<And>s t ts. SCHEDULERS k ! c = Some s \<Longrightarrow> filter P (tasks s) = t # ts \<Longrightarrow>
      kill_verdict n (action_of k t n) (t_blocked_mask t) = Ignored"
    and "n \<noteq> 0"
  shows "\<exists>b. kill_on P n tgid c (found, parent, k) = (b, parent, k) \<and>
    b = (found \<or> (\<exists>s. SCHEDULERS k ! c = Some s \<and> filter P (tasks s) \<noteq> []))"
  using assms by (auto simp: kill_on_def split: option.splits list.splits)

lemma kill_fold_ignored:
  assumes "\<And>c s t ts. c \<in> set cs \<Longrightarrow> SCHEDULERS k ! c = Some s \<Longrightarrow> filter P (tasks s) = t # ts \<Longrightarrow>
      kill_verdict n (action_of k t n) (t_blocked_mask t) = Ignored"
    and "n \<noteq> 0"
  shows "fold (kill_on P n tgid) cs (found, None, k) =
    (found \<or> (\<exists>c\<in>set cs. \<exists>s. SCHEDULERS k ! c = Some s \<and> filter P (tasks s) \<noteq> []), None, k)"
  using assms
proof (induction cs arbitrary: found)
  case (Cons c cs)
  obtain b where "kill_on P n tgid c (found, None, k) = (b, None, k)"
    "b = (found \<or> (\<exists>s. SCHEDULERS k ! c = Some s \<and> filter P (tasks s) \<noteq> []))"
    using kill_on_ignored [of k c P n tgid found None] Cons.prems by fastforce
  moreover have "fold (kill_on P n tgid) cs (b, None, k) =
    (b \<or> (\<exists>c\<in>set cs. \<exists>s. SCHEDULERS k ! c = Some s \<and> filter P (tasks s) \<noteq> []), None, k)"
    using Cons.prems by (intro Cons.IH) auto
  ultimately show ?case
    by auto
qed simp


section \<open>Demonstration\<close>

definition signal_demo :: kernel where
  "signal_demo = demo_kernel\<lparr>
     SCHEDULERS := [Some (demo_sched [demo_task 1 8\<lparr>t_pending_signals := 6, t_blocked_mask := 2\<rparr>,
         demo_task 2 8\<lparr>t_parent_pid := Some 5, t_signal_actions := 1\<rparr>, demo_task 3 8\<lparr>t_pgid := 2\<rparr>,
         demo_task 5 8\<lparr>t_state := Waiting (- 1) 0, t_clear_child_tid := 0\<rparr>]),
       Some (demo_sched [demo_task 4 8]), None, None, None, None, None, None],
     FOREGROUND_PID := 2,
     sig_tables := [replicate 65 LinuxSigAction_default,
       (replicate 65 LinuxSigAction_default)[2 := LinuxSigAction_default\<lparr>sa_handler := 1\<rparr>]]\<rparr>"

lemma signal_demo_ok: "kernel_ok {0, 1} signal_demo"
  by (auto simp: signal_demo_def kernel_ok_def demo_kernel_def demo_sched_def demo_task_def procs_ok_def running_ok_def
      runnable_def task_ok_def dead_def MAX_CPUS_def)

theorem signal_delivery_order_witness:
  "map_option fst (check_pending_signal_to_deliver 0 signal_demo) = Some (Some (3, LinuxSigAction_default)) \<and>
   signals 6 - signals 2 = {3}"
proof -
  let ?s = "demo_sched [demo_task 1 8\<lparr>t_pending_signals := 6, t_blocked_mask := 2\<rparr>,
         demo_task 2 8\<lparr>t_parent_pid := Some 5, t_signal_actions := 1\<rparr>, demo_task 3 8\<lparr>t_pgid := 2\<rparr>,
         demo_task 5 8\<lparr>t_state := Waiting (- 1) 0, t_clear_child_tid := 0\<rparr>]"
  have s: "SCHEDULERS signal_demo ! 0 = Some ?s" "current ?s < length (tasks ?s)" "0 < length (SCHEDULERS signal_demo)"
    by (simp_all add: signal_demo_def demo_sched_def)
  have t: "t_process (tasks ?s ! current ?s) \<noteq> None" "t_pending_signals (tasks ?s ! current ?s) = 6"
    "t_blocked_mask (tasks ?s ! current ?s) = 2" "action_of signal_demo (tasks ?s ! current ?s) 3 = LinuxSigAction_default"
    by (simp_all add: demo_sched_def demo_task_def action_of_def signal_demo_def)
  have "signals (push_bit 1 1 OR push_bit 2 1) = {2, 3}" "signals (push_bit 1 1) = {2}"
    by (simp_all only: signals_or signals_bit) auto
  then have "signals 6 = {2, 3}" "signals 2 = {2}"
    by simp_all
  then show ?thesis
    using signal_delivery_order [OF s refl t(1), of 0] t by auto
qed

theorem sigkill_certain_witness:
  "\<exists>k'. kill_process 0 4 9 signal_demo = Ok k' \<and>
    (\<forall>t\<in>set (all_tasks (SCHEDULERS k')). t_tgid t = 4 \<longrightarrow> t_process t = None) \<and>
    map (\<lambda>x. fst x) (map task_key (all_tasks (SCHEDULERS k'))) = [1, 2, 3, 5, 4]"
proof -
  have "\<exists>t\<in>set (all_tasks (SCHEDULERS signal_demo)). t_tgid t = 4 \<and> t_process t \<noteq> None"
    by (simp add: signal_demo_def all_tasks_def demo_sched_def demo_task_def)
  moreover have "map (\<lambda>x. fst (kill_key 4 x)) (map task_key (all_tasks (SCHEDULERS signal_demo))) = [1, 2, 3, 5, 4]"
    by (simp add: signal_demo_def all_tasks_def demo_sched_def demo_task_def kill_key_def task_key_def)
  ultimately show ?thesis
    using sigkill_certain [OF signal_demo_ok, of 0 4] by (auto simp: comp_def)
qed



text \<open>A signal that ends a group leaves the foreground process set and reports the negated group number to a
  parent that waits for any child.\<close>

lemma group_kill_report:
  "case kill_process 0 (- 2) 15 signal_demo of
     Ok k' \<Rightarrow> FOREGROUND_PID k' = 2 \<and>
       map (\<lambda>t. (t_tid t, t_state t, uc_return_value (t_context t))) (take 4 (all_tasks (SCHEDULERS k'))) =
         [(1, Runnable, 0), (2, Zombie 143, 0), (3, Zombie 143, 0), (5, Runnable, - 2)]
   | _ \<Rightarrow> False"
  by code_simp

end
