(* ===== verification/Sigframe.thy ===== *)
theory Sigframe
  imports Signals
begin

text \<open>
  Running a signal handler: the frame that \<open>inject_signal_frame\<close> puts on the user stack, the delivery of a
  pending signal on the way back to user mode, and \<open>rt_sigreturn\<close> (\<open>rust/kernel/src/syscall.rs\<close>), with the
  layouts of \<open>SigContext\<close>, \<open>UContext\<close> and \<open>RtSigFrame\<close> (\<open>rust/linuxd/src/lib.rs\<close>).
\<close>

section \<open>User memory\<close>

text \<open>The memory of the running process as the copy routines see it: the bytes, and whether the translation of an
  address for reading (\<open>False\<close>) or writing (\<open>True\<close>) succeeds, demand paging and copy-on-write included.\<close>

record user_mem =
  um_byte :: "u64 \<Rightarrow> u8"
  um_mapped :: "u64 \<Rightarrow> bool \<Rightarrow> bool"

definition USER_ADDRESS_LIMIT :: u64 where
  "USER_ADDRESS_LIMIT = 0x800000000000"

definition user_ok :: "user_mem \<Rightarrow> u64 \<Rightarrow> bool \<Rightarrow> bool" where
  "user_ok m a writable \<longleftrightarrow> a < USER_ADDRESS_LIMIT \<and> um_mapped m a writable"

definition read_user_byte :: "user_mem \<Rightarrow> u64 \<Rightarrow> bool \<Rightarrow> u8 option" where
  "read_user_byte m a writable = (if user_ok m a writable then Some (um_byte m a) else None)"

primrec read_user_bytes :: "user_mem \<Rightarrow> u64 \<Rightarrow> bool \<Rightarrow> nat list \<Rightarrow> bytes option" where
  "read_user_bytes m p writable [] = Some []"
| "read_user_bytes m p writable (off # offs) =
    (case checked_add p (of_nat off) of
      None \<Rightarrow> None
    | Some a \<Rightarrow>
       (case read_user_byte m a writable of
         None \<Rightarrow> None
       | Some b \<Rightarrow> map_option ((#) b) (read_user_bytes m p writable offs)))"

definition copy_from_user :: "user_mem \<Rightarrow> u64 \<Rightarrow> nat \<Rightarrow> bool \<Rightarrow> bytes option" where
  "copy_from_user m p len writable = (if 65536 < len then None else read_user_bytes m p writable [0..<len])"

primrec write_user_bytes :: "u64 \<Rightarrow> (nat \<times> u8) list \<Rightarrow> user_mem \<Rightarrow> bool \<times> user_mem" where
  "write_user_bytes p [] m = (True, m)"
| "write_user_bytes p (x # xs) m =
    (case checked_add p (of_nat (fst x)) of
      None \<Rightarrow> (False, m)
    | Some a \<Rightarrow>
       if user_ok m a True
       then write_user_bytes p xs (m\<lparr>um_byte := (um_byte m)(a := snd x)\<rparr>) else (False, m))"

definition copy_to_user :: "u64 \<Rightarrow> bytes \<Rightarrow> user_mem \<Rightarrow> bool \<times> user_mem" where
  "copy_to_user p bs m = write_user_bytes p (enumerate 0 bs) m"

section \<open>Layouts\<close>

record sig_context =
  sc_r8 :: u64
  sc_r9 :: u64
  sc_r10 :: u64
  sc_r11 :: u64
  sc_r12 :: u64
  sc_r13 :: u64
  sc_r14 :: u64
  sc_r15 :: u64
  sc_rdi :: u64
  sc_rsi :: u64
  sc_rbp :: u64
  sc_rbx :: u64
  sc_rdx :: u64
  sc_rax :: u64
  sc_rcx :: u64
  sc_rsp :: u64
  sc_rip :: u64
  sc_rflags :: u64
  sc_cs :: u16
  sc_gs :: u16
  sc_fs :: u16
  sc_pad0 :: u16
  sc_err :: u64
  sc_trapno :: u64
  sc_oldmask :: u64
  sc_cr2 :: u64
  sc_fpstate :: u64
  sc_reserved :: "u64 list"

record ucontext =
  ucx_flags :: u64
  ucx_link :: u64
  ucx_stack :: sig_alt_stack
  ucx_mcontext :: sig_context
  ucx_sigmask :: u64
  ucx_fpregs :: "u64 list"

abbreviation le64s :: "u64 list \<Rightarrow> bytes" where
  "le64s ws \<equiv> concat (map (to_le 8) ws)"

definition SigAltStack_bytes :: "sig_alt_stack \<Rightarrow> bytes" where
  "SigAltStack_bytes a = to_le 8 (ss_sp a) @ to_le 4 (ss_flags a) @ to_le 4 (ss_pad a) @ to_le 8 (ss_size a)"

definition SigContext_bytes :: "sig_context \<Rightarrow> bytes" where
  "SigContext_bytes c =
    le64s [sc_r8 c, sc_r9 c, sc_r10 c, sc_r11 c, sc_r12 c, sc_r13 c, sc_r14 c, sc_r15 c, sc_rdi c, sc_rsi c, sc_rbp c,
      sc_rbx c, sc_rdx c, sc_rax c, sc_rcx c, sc_rsp c, sc_rip c, sc_rflags c] @
    to_le 2 (sc_cs c) @ to_le 2 (sc_gs c) @ to_le 2 (sc_fs c) @ to_le 2 (sc_pad0 c) @
    le64s ([sc_err c, sc_trapno c, sc_oldmask c, sc_cr2 c, sc_fpstate c] @ sc_reserved c)"

definition UContext_bytes :: "ucontext \<Rightarrow> bytes" where
  "UContext_bytes u =
    to_le 8 (ucx_flags u) @ to_le 8 (ucx_link u) @ SigAltStack_bytes (ucx_stack u) @ SigContext_bytes (ucx_mcontext u) @
    to_le 8 (ucx_sigmask u) @ le64s (ucx_fpregs u)"

definition SigAltStack_read :: "bytes \<Rightarrow> sig_alt_stack" where
  "SigAltStack_read bs = \<lparr>ss_sp = u64_at bs 0, ss_flags = u32_at bs 8, ss_pad = u32_at bs 12, ss_size = u64_at bs 16\<rparr>"

definition SigContext_read :: "bytes \<Rightarrow> sig_context" where
  "SigContext_read bs = \<lparr>sc_r8 = u64_at bs 0, sc_r9 = u64_at bs 8, sc_r10 = u64_at bs 16, sc_r11 = u64_at bs 24,
     sc_r12 = u64_at bs 32, sc_r13 = u64_at bs 40, sc_r14 = u64_at bs 48, sc_r15 = u64_at bs 56, sc_rdi = u64_at bs 64,
     sc_rsi = u64_at bs 72, sc_rbp = u64_at bs 80, sc_rbx = u64_at bs 88, sc_rdx = u64_at bs 96, sc_rax = u64_at bs 104,
     sc_rcx = u64_at bs 112, sc_rsp = u64_at bs 120, sc_rip = u64_at bs 128, sc_rflags = u64_at bs 136,
     sc_cs = u16_at bs 144, sc_gs = u16_at bs 146, sc_fs = u16_at bs 148, sc_pad0 = u16_at bs 150,
     sc_err = u64_at bs 152, sc_trapno = u64_at bs 160, sc_oldmask = u64_at bs 168, sc_cr2 = u64_at bs 176,
     sc_fpstate = u64_at bs 184, sc_reserved = map (\<lambda>i. u64_at bs (192 + 8 * i)) [0..<8]\<rparr>"

definition UContext_read :: "bytes \<Rightarrow> ucontext" where
  "UContext_read bs = \<lparr>ucx_flags = u64_at bs 0, ucx_link = u64_at bs 8, ucx_stack = SigAltStack_read (drop 16 bs),
     ucx_mcontext = SigContext_read (drop 40 bs), ucx_sigmask = u64_at bs 296,
     ucx_fpregs = map (\<lambda>i. u64_at bs (304 + 8 * i)) [0..<64]\<rparr>"

definition UCONTEXT_SIZE :: nat where
  "UCONTEXT_SIZE = 816"

definition RTSIGFRAME_SIZE :: nat where
  "RTSIGFRAME_SIZE = 976"

definition OFFSET_UC :: nat where
  "OFFSET_UC = 8"

definition OFFSET_INFO :: nat where
  "OFFSET_INFO = 824"

definition OFFSET_RETCODE :: nat where
  "OFFSET_RETCODE = 952"

definition RETCODE :: bytes where
  "RETCODE = [0x48, 0xc7, 0xc0, 0x0f, 0x00, 0x00, 0x00, 0x0f, 0x05, 0x90, 0x90, 0x90, 0x90, 0x90, 0x90, 0x90]"

text \<open>\<open>SigInfo\<close>: number, error, code and 29 words of padding.\<close>

definition SigInfo_bytes :: "i32 \<Rightarrow> bytes" where
  "SigInfo_bytes signo = concat (map (to_le 4) ([signo, 0, 0] @ replicate 29 (0 :: i32)))"

text \<open>\<open>RtSigFrame\<close> is aligned to 16 bytes, so it ends in eight bytes of padding that no field initialises.\<close>

definition RtSigFrame_bytes :: "u64 \<Rightarrow> ucontext \<Rightarrow> i32 \<Rightarrow> bytes \<Rightarrow> bytes" where
  "RtSigFrame_bytes pretcode u signo padding =
    to_le 8 pretcode @ UContext_bytes u @ SigInfo_bytes signo @ RETCODE @ padding"

section \<open>Building the frame\<close>

definition SA_ONSTACK :: u64 where
  "SA_ONSTACK = 0x08000000"
definition SA_RESTORER :: u64 where
  "SA_RESTORER = 0x04000000"
definition SA_NODEFER :: u64 where
  "SA_NODEFER = 0x40000000"
definition SA_RESETHAND :: u64 where
  "SA_RESETHAND = 0x80000000"
definition SS_ONSTACK :: i32 where
  "SS_ONSTACK = 1"
definition SS_DISABLE :: i32 where
  "SS_DISABLE = 2"
definition MINSIGSTKSZ :: u64 where
  "MINSIGSTKSZ = 2048"

text \<open>Where the frame goes, and whether that is on the alternate stack.\<close>

definition signal_base :: "sig_action \<Rightarrow> sig_alt_stack \<Rightarrow> u64 \<Rightarrow> u64 \<times> bool" where
  "signal_base a alt sp =
    (if sa_flags a AND SA_ONSTACK \<noteq> 0 \<and> ss_flags alt AND SS_DISABLE = 0 \<and> MINSIGSTKSZ \<le> ss_size alt then
       (let alt_end = saturating_add (ss_sp alt) (ss_size alt) in
        if ss_sp alt \<le> sp \<and> sp \<le> alt_end then (sp, True) else (alt_end, True))
     else (sp, False))"

definition new_user_sp :: "u64 \<Rightarrow> u64" where
  "new_user_sp base = (saturating_sub base (of_nat RTSIGFRAME_SIZE) AND NOT 15) - 8"

definition signal_frame :: "u64 \<Rightarrow> sig_action \<Rightarrow> sig_alt_stack \<Rightarrow> sig_context \<Rightarrow> u64 \<Rightarrow> bytes \<Rightarrow> u64 \<times> bytes" where
  "signal_frame signo a alt sc blk padding =
    (let (base, on_alt) = signal_base a alt (sc_rsp sc);
         sp = new_user_sp base;
         pretcode = (if sa_flags a AND SA_RESTORER \<noteq> 0 \<and> sa_restorer a \<noteq> 0
           then sa_restorer a else sp + of_nat OFFSET_RETCODE);
         u = \<lparr>ucx_flags = 0, ucx_link = 0, ucx_stack = (if on_alt then alt\<lparr>ss_flags := SS_ONSTACK\<rparr> else alt),
           ucx_mcontext = sc, ucx_sigmask = blk, ucx_fpregs = replicate 64 0\<rparr> in
     (sp, RtSigFrame_bytes pretcode u (ucast signo) padding))"

text \<open>The registers of a system call: the fifteen words pushed on entry, with the return address in word 7 and
  the flags in word 8, and the user stack pointer.\<close>

definition sig_context_of_frame :: "u64 list \<Rightarrow> u64 \<Rightarrow> u64 \<Rightarrow> sig_context" where
  "sig_context_of_frame f rsp blk = \<lparr>sc_r8 = f ! 4, sc_r9 = f ! 5, sc_r10 = f ! 6, sc_r11 = 0, sc_r12 = f ! 11,
     sc_r13 = f ! 12, sc_r14 = f ! 13, sc_r15 = f ! 14, sc_rdi = f ! 1, sc_rsi = f ! 2, sc_rbp = f ! 10, sc_rbx = f ! 9,
     sc_rdx = f ! 3, sc_rax = f ! 0, sc_rcx = 0, sc_rsp = rsp, sc_rip = f ! 7, sc_rflags = f ! 8, sc_cs = 0x23,
     sc_gs = 0x1b, sc_fs = 0x1b, sc_pad0 = 0, sc_err = 0, sc_trapno = 0, sc_oldmask = blk, sc_cr2 = 0,
     sc_fpstate = 0, sc_reserved = replicate 8 0\<rparr>"

definition inject_signal_frame ::
  "u64 \<Rightarrow> sig_action \<Rightarrow> sig_alt_stack \<Rightarrow> u64 \<Rightarrow> bytes \<Rightarrow> u64 list \<Rightarrow> u64 \<Rightarrow> user_mem \<Rightarrow> bool \<times> u64 list \<times> u64 \<times> user_mem" where
  "inject_signal_frame signo a alt blk padding f rsp m =
    (let (sp, bs) = signal_frame signo a alt (sig_context_of_frame f rsp blk) blk padding in
     case copy_to_user sp bs m of
       (False, m') \<Rightarrow> (False, f, rsp, m')
     | (True, m') \<Rightarrow>
        (True, f[0 := 0, 1 := signo, 2 := sp + of_nat OFFSET_INFO, 3 := sp + of_nat OFFSET_UC, 7 := sa_handler a], sp, m'))"

definition sig_context_of_user :: "user_context \<Rightarrow> u64 \<Rightarrow> sig_context" where
  "sig_context_of_user c blk = \<lparr>sc_r8 = uc_r8 c, sc_r9 = uc_r9 c, sc_r10 = uc_r10 c, sc_r11 = 0, sc_r12 = uc_r12 c,
     sc_r13 = uc_r13 c, sc_r14 = uc_r14 c, sc_r15 = uc_r15 c, sc_rdi = uc_rdi c, sc_rsi = uc_rsi c, sc_rbp = uc_rbp c,
     sc_rbx = uc_rbx c, sc_rdx = uc_rdx c, sc_rax = uc_return_value c, sc_rcx = 0, sc_rsp = uc_stack_pointer c,
     sc_rip = uc_instruction_pointer c, sc_rflags = uc_flags c, sc_cs = 0x23, sc_gs = 0x1b, sc_fs = 0x1b, sc_pad0 = 0,
     sc_err = 0, sc_trapno = 0, sc_oldmask = blk, sc_cr2 = 0, sc_fpstate = 0, sc_reserved = replicate 8 0\<rparr>"

definition inject_signal_frame_context ::
  "u64 \<Rightarrow> sig_action \<Rightarrow> sig_alt_stack \<Rightarrow> u64 \<Rightarrow> bytes \<Rightarrow> user_context \<Rightarrow> user_mem \<Rightarrow> bool \<times> user_context \<times> user_mem" where
  "inject_signal_frame_context signo a alt blk padding c m =
    (let (sp, bs) = signal_frame signo a alt (sig_context_of_user c blk) blk padding in
     case copy_to_user sp bs m of
       (False, m') \<Rightarrow> (False, c, m')
     | (True, m') \<Rightarrow>
        (True, c\<lparr>uc_return_value := 0, uc_rdi := signo, uc_rsi := sp + of_nat OFFSET_INFO,
           uc_rdx := sp + of_nat OFFSET_UC, uc_instruction_pointer := sa_handler a, uc_stack_pointer := sp\<rparr>, m'))"

section \<open>Returning from a handler\<close>

definition SYSCALL_ERROR :: u64 where
  "SYSCALL_ERROR = - 2"

definition restore_frame :: "sig_context \<Rightarrow> u64 list" where
  "restore_frame c = [sc_rax c, sc_rdi c, sc_rsi c, sc_rdx c, sc_r8 c, sc_r9 c, sc_r10 c, sc_rip c, sc_rflags c OR 0x202,
     sc_rbx c, sc_rbp c, sc_r12 c, sc_r13 c, sc_r14 c, sc_r15 c]"

definition linux_rt_sigreturn_user ::
  "nat \<Rightarrow> u64 list \<Rightarrow> u64 \<Rightarrow> user_mem \<Rightarrow> kernel \<Rightarrow> (u64 \<times> u64 list \<times> u64 \<times> kernel) option" where
  "linux_rt_sigreturn_user cpu f rsp m k =
    (case (case copy_from_user m rsp UCONTEXT_SIZE False of
            Some bs \<Rightarrow> Some bs | None \<Rightarrow> copy_from_user m (rsp + 8) UCONTEXT_SIZE False) of
      None \<Rightarrow> Some (SYSCALL_ERROR, f, rsp, k)
    | Some bs \<Rightarrow>
       (let u = UContext_read bs; c = ucx_mcontext u in
        case set_current_blocked_mask cpu (ucx_sigmask u AND NOT UNBLOCKABLE_SIGNALS_MASK) k of
          None \<Rightarrow> None
        | Some k' \<Rightarrow> Some (sc_rax c, restore_frame c, sc_rsp c, k')))"

section \<open>Delivery\<close>

definition SYSCALL_RETURN_EXIT :: u64 where
  "SYSCALL_RETURN_EXIT = - 50001"

definition current_sigaltstack :: "nat \<Rightarrow> kernel \<Rightarrow> sig_alt_stack option" where
  "current_sigaltstack =
    current_field \<lparr>ss_sp = 0, ss_flags = 0, ss_pad = 0, ss_size = 0\<rparr> t_sigaltstack"

text \<open>After the frame is in place: the signals blocked while the handler runs, and a one-shot handler is reset.\<close>

definition enter_handler :: "nat \<Rightarrow> u64 \<Rightarrow> sig_action \<Rightarrow> u64 \<Rightarrow> kernel \<Rightarrow> kernel option" where
  "enter_handler cpu signo a blocked k =
    (let m = blocked OR sa_mask a;
         m' = (if sa_flags a AND SA_NODEFER = 0 then m OR push_bit (unat (signo - 1)) 1 else m) in
     case set_current_blocked_mask cpu m' k of
       None \<Rightarrow> None
     | Some k' \<Rightarrow> if sa_flags a AND SA_RESETHAND \<noteq> 0 then reset_signal_action cpu signo k' else Some k')"

record syscall_exit =
  se_result :: u64
  se_frame :: "u64 list"
  se_rsp :: u64
  se_mem :: user_mem
  se_exit_code :: "u64 option"
  se_kernel :: kernel

text \<open>The end of \<open>vanta_syscall_dispatch\<close> for a call that returns to its caller.\<close>

definition deliver_after_syscall ::
  "nat \<Rightarrow> u64 \<Rightarrow> bytes \<Rightarrow> u64 list \<Rightarrow> u64 \<Rightarrow> user_mem \<Rightarrow> kernel \<Rightarrow> syscall_exit option" where
  "deliver_after_syscall cpu result padding f rsp m k =
    (let f0 = f[0 := result];
         plain = (\<lambda>m k. \<lparr>se_result = result, se_frame = f0, se_rsp = rsp, se_mem = m, se_exit_code = None, se_kernel = k\<rparr>) in
     case check_pending_signal_to_deliver cpu k of
       None \<Rightarrow> None
     | Some (None, k1) \<Rightarrow> Some (plain m k1)
     | Some (Some (signo, a), k1) \<Rightarrow>
        if 1 < sa_handler a then
          (case (current_blocked_mask cpu k1, current_sigaltstack cpu k1) of
            (Some blocked, Some alt) \<Rightarrow>
              (case inject_signal_frame signo a alt blocked padding f0 rsp m of
                (True, f', rsp', m') \<Rightarrow>
                  map_option (\<lambda>k2. \<lparr>se_result = f' ! 0, se_frame = f', se_rsp = rsp', se_mem = m', se_exit_code = None,
                    se_kernel = k2\<rparr>) (enter_handler cpu signo a blocked k1)
              | (False, _, _, m') \<Rightarrow> Some (plain m' k1))
          | _ \<Rightarrow> None)
        else if sa_handler a = 0 \<and> is_fatal (default_signal_action signo) then
          Some ((plain m k1)\<lparr>se_result := SYSCALL_RETURN_EXIT, se_exit_code := Some (128 + signo)\<rparr>)
        else Some (plain m k1))"

text \<open>The signal part of \<open>prepare_user_return\<close>, on the way to a task that was switched to.\<close>

definition prepare_user_return ::
  "nat \<Rightarrow> bytes \<Rightarrow> user_context \<Rightarrow> user_mem \<Rightarrow> kernel \<Rightarrow> (user_context \<times> user_mem \<times> kernel) option" where
  "prepare_user_return cpu padding c m k =
    (case check_pending_signal_to_deliver cpu k of
      None \<Rightarrow> None
    | Some (None, k1) \<Rightarrow> Some (c, m, k1)
    | Some (Some (signo, a), k1) \<Rightarrow>
       if 1 < sa_handler a then
         (case (current_blocked_mask cpu k1, current_sigaltstack cpu k1) of
           (Some blocked, Some alt) \<Rightarrow>
             (case inject_signal_frame_context signo a alt blocked padding c m of
               (True, c', m') \<Rightarrow> map_option (\<lambda>k2. (c', m', k2)) (enter_handler cpu signo a blocked k1)
             | (False, c', m') \<Rightarrow> Some (c', m', k1))
         | _ \<Rightarrow> None)
       else Some (c, m, k1))"

section \<open>Signal system calls\<close>

definition LinuxSigAction_bytes :: "sig_action \<Rightarrow> bytes" where
  "LinuxSigAction_bytes a = le64s [sa_handler a, sa_flags a, sa_restorer a, sa_mask a]"

definition LinuxSigAction_read :: "bytes \<Rightarrow> sig_action" where
  "LinuxSigAction_read bs =
    \<lparr>sa_handler = u64_at bs 0, sa_flags = u64_at bs 8, sa_restorer = u64_at bs 16, sa_mask = u64_at bs 24\<rparr>"

definition linux_rt_sigaction_user ::
  "nat \<Rightarrow> u64 \<Rightarrow> u64 \<Rightarrow> u64 \<Rightarrow> u64 \<Rightarrow> user_mem \<Rightarrow> kernel \<Rightarrow> (u64 \<times> user_mem \<times> kernel) option" where
  "linux_rt_sigaction_user cpu n new old sigsetsize m k =
    (if n = 0 \<or> 64 < n \<or> sigsetsize \<noteq> 0 \<and> sigsetsize \<noteq> 8 \<or> new \<noteq> 0 \<and> (n = 9 \<or> n = 19) then Some (SYSCALL_ERROR, m, k)
     else case signal_action cpu n k of
       None \<Rightarrow> None
     | Some None \<Rightarrow> Some (SYSCALL_ERROR, m, k)
     | Some (Some a) \<Rightarrow>
        (case (if old \<noteq> 0 then copy_to_user old (LinuxSigAction_bytes a) m else (True, m)) of
          (False, m1) \<Rightarrow> Some (SYSCALL_ERROR, m1, k)
        | (True, m1) \<Rightarrow>
           if new = 0 then Some (0, m1, k)
           else case copy_from_user m1 new 32 False of
             None \<Rightarrow> Some (SYSCALL_ERROR, m1, k)
           | Some bs \<Rightarrow>
              (case set_signal_action cpu n (LinuxSigAction_read bs) k of
                Ok (_, k') \<Rightarrow> Some (0, m1, k')
              | Err _ \<Rightarrow> Some (SYSCALL_ERROR, m1, k)
              | Panic \<Rightarrow> None)))"

definition linux_rt_sigprocmask_user ::
  "nat \<Rightarrow> u64 \<Rightarrow> u64 \<Rightarrow> u64 \<Rightarrow> u64 \<Rightarrow> user_mem \<Rightarrow> kernel \<Rightarrow> (u64 \<times> user_mem \<times> kernel) option" where
  "linux_rt_sigprocmask_user cpu how new old sigsetsize m k =
    (if sigsetsize \<noteq> 0 \<and> sigsetsize \<noteq> 8 then Some (SYSCALL_ERROR, m, k)
     else case current_blocked_mask cpu k of
       None \<Rightarrow> None
     | Some cur \<Rightarrow>
        (case (if old \<noteq> 0 then copy_to_user old (to_le 8 cur) m else (True, m)) of
          (False, m1) \<Rightarrow> Some (SYSCALL_ERROR, m1, k)
        | (True, m1) \<Rightarrow>
           if new = 0 then Some (0, m1, k)
           else case copy_from_user m1 new 8 False of
             None \<Rightarrow> Some (SYSCALL_ERROR, m1, k)
           | Some bs \<Rightarrow>
              (let set = from_le bs;
                   put = (\<lambda>w. map_option (\<lambda>k'. (0, m1, k'))
                     (set_current_blocked_mask cpu (w AND NOT UNBLOCKABLE_SIGNALS_MASK) k)) in
               if how = 0 then put (cur OR set)
               else if how = 1 then put (cur AND NOT set)
               else if how = 2 then put set
               else Some (SYSCALL_ERROR, m1, k))))"

definition EFAULT :: u64 where
  "EFAULT = - 14"

definition linux_sigaltstack_user ::
  "nat \<Rightarrow> u64 \<Rightarrow> u64 \<Rightarrow> u64 \<Rightarrow> user_mem \<Rightarrow> kernel \<Rightarrow> (u64 \<times> user_mem \<times> kernel) option" where
  "linux_sigaltstack_user cpu rsp ss_ptr old m k =
    (case current_sigaltstack cpu k of
      None \<Rightarrow> None
    | Some alt \<Rightarrow>
       (let on_alt = ss_flags alt AND SS_DISABLE = 0 \<and> 0 < ss_size alt \<and> ss_sp alt \<le> rsp \<and>
              rsp < saturating_add (ss_sp alt) (ss_size alt);
            reported = (if on_alt then alt\<lparr>ss_flags := SS_ONSTACK\<rparr> else alt) in
        if old \<noteq> 0 \<and> USER_ADDRESS_LIMIT \<le> old then Some (EFAULT, m, k)
        else case (if old \<noteq> 0 then copy_to_user old (SigAltStack_bytes reported) m else (True, m)) of
          (False, m1) \<Rightarrow> Some (EFAULT, m1, k)
        | (True, m1) \<Rightarrow>
           if ss_ptr = 0 then Some (0, m1, k)
           else if USER_ADDRESS_LIMIT \<le> ss_ptr then Some (EFAULT, m1, k)
           else if on_alt then Some (- 1, m1, k)
           else case read_user_bytes m1 ss_ptr False [0..<24] of
             None \<Rightarrow> Some (EFAULT, m1, k)
           | Some bs \<Rightarrow>
              (let ss = SigAltStack_read bs in
               if ss_flags ss AND NOT SS_DISABLE \<noteq> 0 then Some (- 22, m1, k)
               else if ss_flags ss AND SS_DISABLE = 0 \<and> ss_size ss < MINSIGSTKSZ then Some (- 12, m1, k)
               else map_option (\<lambda>k'. (0, m1, k')) (modify_current (t_sigaltstack_update (\<lambda>_. ss)) cpu k))))"

section \<open>Lemmas: copying\<close>

text \<open>The range \<open>[p, p + n)\<close> can be accessed without wrapping around.\<close>

definition user_range :: "user_mem \<Rightarrow> u64 \<Rightarrow> nat \<Rightarrow> bool \<Rightarrow> bool" where
  "user_range m p n w \<longleftrightarrow> (\<forall>i<n. unat p + i < 2 ^ 64 \<and> user_ok m (p + of_nat i) w)"

lemma checked_add_offset:
  "i < 2 ^ 64 \<Longrightarrow> checked_add p (of_nat i :: u64) = (if unat p + i < 2 ^ 64 then Some (p + of_nat i) else None)"
  by (simp add: checked_add_def unat_of_nat take_bit_eq_mod)

lemma of_nat_inj64: "j < 2 ^ 64 \<Longrightarrow> k < 2 ^ 64 \<Longrightarrow> (of_nat j :: u64) = of_nat k \<Longrightarrow> j = k"
  by (simp add: word_of_nat_eq_iff take_bit_nat_eq_self)

lemma write_user_bytes_ok:
  assumes "write_user_bytes p (enumerate j bs) m = (True, m')" "j + length bs \<le> 2 ^ 64"
  shows "um_mapped m' = um_mapped m \<and>
    (\<forall>i<length bs. unat p + (j + i) < 2 ^ 64 \<and> user_ok m (p + of_nat (j + i)) True \<and> um_byte m' (p + of_nat (j + i)) = bs ! i) \<and>
    (\<forall>a. (\<forall>i<length bs. a \<noteq> p + of_nat (j + i)) \<longrightarrow> um_byte m' a = um_byte m a)"
  using assms
proof (induction bs arbitrary: j m)
  case (Cons b bs)
  let ?a = "p + of_nat j"
  let ?m = "m\<lparr>um_byte := (um_byte m)(?a := b)\<rparr>"
  have j: "unat p + j < 2 ^ 64" "user_ok m ?a True" "write_user_bytes p (enumerate (Suc j) bs) ?m = (True, m')"
    using Cons.prems by (auto simp: checked_add_offset split: if_splits option.splits)
  have IH: "um_mapped m' = um_mapped ?m"
    "\<And>i. i < length bs \<Longrightarrow> unat p + (Suc j + i) < 2 ^ 64 \<and> user_ok ?m (p + of_nat (Suc j + i)) True \<and>
      um_byte m' (p + of_nat (Suc j + i)) = bs ! i"
    "\<And>a. (\<forall>i<length bs. a \<noteq> p + of_nat (Suc j + i)) \<Longrightarrow> um_byte m' a = um_byte ?m a"
    using Cons.IH [OF j(3)] Cons.prems(2) by auto
  have ok: "user_ok ?m a True = user_ok m a True" for a
    by (simp add: user_ok_def)
  have ne: "?a \<noteq> p + of_nat (Suc j + i)" if "i < length bs" for i
  proof
    assume "?a = p + of_nat (Suc j + i)"
    then have "(of_nat j :: u64) = of_nat (Suc j + i)"
      by simp
    moreover have "Suc j + i < 2 ^ 64" "j < 2 ^ 64"
      using IH(2) [OF that] by linarith+
    ultimately have "j = Suc j + i"
      using of_nat_inj64 by blast
    then show False by simp
  qed
  show ?case
  proof (intro conjI allI impI)
    fix i assume i: "i < length (b # bs)"
    show "unat p + (j + i) < 2 ^ 64" "user_ok m (p + of_nat (j + i)) True" "um_byte m' (p + of_nat (j + i)) = (b # bs) ! i"
    proof -
      show "unat p + (j + i) < 2 ^ 64"
        using i j IH(2) [of "i - 1"] by (cases i) auto
      show "user_ok m (p + of_nat (j + i)) True"
        using i j IH(2) [of "i - 1"] ok by (cases i) auto
      show "um_byte m' (p + of_nat (j + i)) = (b # bs) ! i"
        using i IH(2) [of "i - 1"] IH(3) [of ?a] ne by (cases i) auto
    qed
  next
    fix a assume a: "\<forall>i<length (b # bs). a \<noteq> p + of_nat (j + i)"
    have "a \<noteq> ?a"
      using a by (auto dest: spec [of _ 0])
    moreover have "\<forall>i<length bs. a \<noteq> p + of_nat (Suc j + i)"
      using a by (auto dest: spec [of _ "Suc i" for i])
    ultimately show "um_byte m' a = um_byte m a"
      using IH(3) [of a] by simp
  qed (use IH(1) in simp)
qed simp

lemmas copy_to_user_ok = write_user_bytes_ok [where j = 0, simplified, folded copy_to_user_def]

lemma read_user_bytes_ok:
  assumes "user_range m p n w" "n \<le> 2 ^ 64"
  shows "set is \<subseteq> {..<n} \<Longrightarrow> read_user_bytes m p w is = Some (map (\<lambda>i. um_byte m (p + of_nat i)) is)"
proof (induction "is")
  case (Cons i "is")
  then have "unat p + i < 2 ^ 64 \<and> user_ok m (p + of_nat i) w" "i < 2 ^ 64"
    using assms by (auto simp: user_range_def)
  then show ?case
    using Cons by (simp add: checked_add_offset read_user_byte_def)
qed simp

lemma copy_from_user_ok:
  assumes "user_range m p n w" "n \<le> 65536" "length bs = n" "\<forall>i<n. um_byte m (p + of_nat i) = bs ! i"
  shows "copy_from_user m p n w = Some bs"
proof -
  have "map (\<lambda>i. um_byte m (p + of_nat i)) [0..<n] = bs"
    using assms by (auto intro: nth_equalityI)
  then show ?thesis
    using read_user_bytes_ok [OF assms(1), of "[0..<n]"] assms by (auto simp: copy_from_user_def atLeast0LessThan)
qed

section \<open>Lemmas: layouts\<close>

lemma read_le8 [simp]:
  "take 8 (to_le 8 (w :: u64) @ r) = to_le 8 w" "8 \<le> n \<Longrightarrow> drop n (to_le 8 w @ r) = drop (n - 8) r"
  by simp_all

lemma u64_at_le64s:
  "i < length ws \<Longrightarrow> u64_at (le64s ws @ r) (8 * i) = ws ! i"
proof (induction ws arbitrary: i)
  case (Cons w ws)
  then show ?case
    by (cases i) (simp_all add: from_le_to_le)
qed simp

lemma u64_at_append: "length xs \<le> n \<Longrightarrow> u64_at (xs @ ys) n = u64_at ys (n - length xs)"
  by simp

lemma length_le64s [simp]: "length (le64s ws) = 8 * length ws"
  by (induction ws) simp_all

lemma SigAltStack_read_bytes: "SigAltStack_read (SigAltStack_bytes a @ r) = a"
  by (simp add: SigAltStack_read_def SigAltStack_bytes_def from_le_to_le)

lemma length_SigContext_bytes: "length (SigContext_bytes c) = 192 + 8 * length (sc_reserved c)"
  by (simp add: SigContext_bytes_def)

lemma SigContext_read_bytes:
  assumes "length (sc_reserved c) = 8"
  shows "SigContext_read (SigContext_bytes c @ r) = c"
proof -
  have "map (\<lambda>i. u64_at (SigContext_bytes c @ r) (192 + 8 * i)) [0..<8] = sc_reserved c"
  proof (rule nth_equalityI)
    fix i assume "i < length (map (\<lambda>i. u64_at (SigContext_bytes c @ r) (192 + 8 * i)) [0..<8])"
    then show "map (\<lambda>i. u64_at (SigContext_bytes c @ r) (192 + 8 * i)) [0..<8] ! i = sc_reserved c ! i"
      using u64_at_le64s [of i "sc_reserved c" r] assms by (simp add: SigContext_bytes_def del: upt_Suc)
  qed (use assms in simp)
  then show ?thesis
    by (simp add: SigContext_read_def del: upt_Suc) (simp add: SigContext_bytes_def from_le_to_le)
qed

lemma UContext_read_bytes:
  assumes "length (sc_reserved (ucx_mcontext u)) = 8" "length (ucx_fpregs u) = 64"
  shows "UContext_read (UContext_bytes u) = u"
proof -
  have lc: "length (SigContext_bytes (ucx_mcontext u)) = 256"
    using assms by (simp add: length_SigContext_bytes)
  have la: "length (SigAltStack_bytes (ucx_stack u)) = 24"
    by (simp add: SigAltStack_bytes_def)
  have "map (\<lambda>i. u64_at (UContext_bytes u) (304 + 8 * i)) [0..<64] = ucx_fpregs u"
  proof (rule nth_equalityI)
    fix i assume "i < length (map (\<lambda>i. u64_at (UContext_bytes u) (304 + 8 * i)) [0..<64])"
    then show "map (\<lambda>i. u64_at (UContext_bytes u) (304 + 8 * i)) [0..<64] ! i = ucx_fpregs u ! i"
      using u64_at_le64s [of i "ucx_fpregs u" "[]"] assms lc la by (simp add: UContext_bytes_def del: upt_Suc)
  qed (use assms in simp)
  then show ?thesis
    by (simp add: UContext_read_def del: upt_Suc)
      (simp add: UContext_bytes_def from_le_to_le SigAltStack_read_bytes SigContext_read_bytes assms lc la)
qed

lemma length_UContext_bytes:
  "length (sc_reserved (ucx_mcontext u)) = 8 \<Longrightarrow> length (ucx_fpregs u) = 64 \<Longrightarrow> length (UContext_bytes u) = UCONTEXT_SIZE"
  by (simp add: UContext_bytes_def length_SigContext_bytes SigAltStack_bytes_def UCONTEXT_SIZE_def)

lemma length_RtSigFrame_bytes:
  assumes "length (sc_reserved (ucx_mcontext u)) = 8" "length (ucx_fpregs u) = 64" "length padding = 8"
  shows "length (RtSigFrame_bytes r u signo padding) = RTSIGFRAME_SIZE"
  using assms by (simp add: RtSigFrame_bytes_def length_UContext_bytes UCONTEXT_SIZE_def SigInfo_bytes_def RETCODE_def length_concat sum_list_replicate
      RTSIGFRAME_SIZE_def)

text \<open>The frame on the stack: its bytes, among them the context to return to, and the rest of memory untouched.\<close>

lemma signal_frame_written:
  assumes "signal_frame signo a alt sc blk padding = (sp, bs)" "copy_to_user sp bs m = (True, m')"
    and "length (sc_reserved sc) = 8" "length padding = 8"
  obtains u where "ucx_mcontext u = sc" "ucx_sigmask u = blk" "length (UContext_bytes u) = UCONTEXT_SIZE"
    "UContext_read (UContext_bytes u) = u" "um_mapped m' = um_mapped m"
    "\<forall>i<UCONTEXT_SIZE. um_byte m' (sp + 8 + of_nat i) = UContext_bytes u ! i"
    "\<forall>x. (\<forall>i<RTSIGFRAME_SIZE. x \<noteq> sp + of_nat i) \<longrightarrow> um_byte m' x = um_byte m x"
    "\<forall>i<RTSIGFRAME_SIZE. user_ok m (sp + of_nat i) True"
proof -
  obtain base on_alt where base: "signal_base a alt (sc_rsp sc) = (base, on_alt)"
    by (cases "signal_base a alt (sc_rsp sc)")
  define u where "u = \<lparr>ucx_flags = 0, ucx_link = 0, ucx_stack = (if on_alt then alt\<lparr>ss_flags := SS_ONSTACK\<rparr> else alt),
    ucx_mcontext = sc, ucx_sigmask = blk, ucx_fpregs = replicate 64 0\<rparr>"
  define r where "r = (if sa_flags a AND SA_RESTORER \<noteq> 0 \<and> sa_restorer a \<noteq> 0
    then sa_restorer a else new_user_sp base + of_nat OFFSET_RETCODE)"
  have bs: "bs = RtSigFrame_bytes r u (ucast signo) padding"
    using assms(1) base by (simp add: signal_frame_def Let_def u_def r_def)
  have u: "ucx_mcontext u = sc" "ucx_sigmask u = blk" "length (ucx_fpregs u) = 64"
    by (simp_all add: u_def)
  have len: "length bs = RTSIGFRAME_SIZE" "length (UContext_bytes u) = UCONTEXT_SIZE"
    using assms u bs by (simp_all add: length_RtSigFrame_bytes length_UContext_bytes)
  have w: "um_mapped m' = um_mapped m" "\<forall>i<RTSIGFRAME_SIZE. um_byte m' (sp + of_nat i) = bs ! i \<and> user_ok m (sp + of_nat i) True"
    "\<forall>x. (\<forall>i<RTSIGFRAME_SIZE. x \<noteq> sp + of_nat i) \<longrightarrow> um_byte m' x = um_byte m x"
    using copy_to_user_ok [OF assms(2)] len by (simp_all add: RTSIGFRAME_SIZE_def)
  have "um_byte m' (sp + 8 + of_nat i) = UContext_bytes u ! i" if "i < UCONTEXT_SIZE" for i
  proof -
    have "bs ! (8 + i) = UContext_bytes u ! i"
      using that len by (simp add: bs RtSigFrame_bytes_def nth_append)
    then show ?thesis
      using w(2) [rule_format, of "8 + i"] that by (simp add: UCONTEXT_SIZE_def RTSIGFRAME_SIZE_def add.assoc)
  qed
  then show ?thesis
    using that [of u] u w len UContext_read_bytes [of u] assms(3) by simp
qed

lemma sigreturn_reads:
  assumes "length (UContext_bytes u) = UCONTEXT_SIZE" "UContext_read (UContext_bytes u) = u"
    and "user_range m p UCONTEXT_SIZE False" "\<forall>i<UCONTEXT_SIZE. um_byte m (p + of_nat i) = UContext_bytes u ! i"
  shows "linux_rt_sigreturn_user cpu f p m k =
    map_option (\<lambda>k'. (sc_rax (ucx_mcontext u), restore_frame (ucx_mcontext u), sc_rsp (ucx_mcontext u), k'))
      (set_current_blocked_mask cpu (ucx_sigmask u) k)"
proof -
  have "copy_from_user m p UCONTEXT_SIZE False = Some (UContext_bytes u)"
    using assms by (intro copy_from_user_ok) (simp_all add: UCONTEXT_SIZE_def)
  moreover have "set_current_blocked_mask cpu (w AND NOT UNBLOCKABLE_SIGNALS_MASK) k = set_current_blocked_mask cpu w k" for w
    by (simp add: set_current_blocked_mask_def and.assoc)
  ultimately show ?thesis
    using assms(2) by (simp add: linux_rt_sigreturn_user_def Let_def split: option.splits)
qed

lemma restore_frame_of_frame:
  assumes "length f = 15"
  shows "restore_frame (sig_context_of_frame f rsp blk) = f[8 := f ! 8 OR 0x202]"
proof -
  obtain a b c d e g h i j l n p q r s where "f = [a, b, c, d, e, g, h, i, j, l, n, p, q, r, s]"
    using assms by (auto simp: length_Suc_conv numeral_eq_Suc)
  then show ?thesis
    by (simp add: restore_frame_def sig_context_of_frame_def)
qed

lemma check_pending_mask:
  "check_pending_signal_to_deliver cpu k = Some (x, k') \<Longrightarrow> current_blocked_mask cpu k' = current_blocked_mask cpu k"
  by (cases "cpu < length (SCHEDULERS k)")
    (auto simp: check_pending_signal_to_deliver_def current_blocked_mask_def current_field_def Let_def set_sched_def
      list_update_beyond split: option.splits if_splits)

text \<open>A system call whose return enters a handler.\<close>

lemma deliver_enters:
  assumes "deliver_after_syscall cpu result padding f rsp m k = Some e" "se_rsp e \<noteq> rsp"
  obtains signo a alt blk bs f' where "current_blocked_mask cpu k = Some blk" "1 < sa_handler a"
    "signal_frame signo a alt (sig_context_of_frame (f[0 := result]) rsp blk) blk padding = (se_rsp e, bs)"
    "copy_to_user (se_rsp e) bs m = (True, se_mem e)"
  using assms check_pending_mask [of cpu k]
  by (fastforce simp: deliver_after_syscall_def inject_signal_frame_def Let_def
      split: option.splits prod.splits bool.splits if_splits)

text \<open>C6.  A signal handler is transparent to the code it interrupts.  When the return from a system call enters a
  handler instead, the call's result, the fourteen other registers, the return address, the stack pointer and the
  mask of blocked signals are all saved in the frame on the stack, and nothing else in memory is written.  As long as
  the handler leaves the saved context alone, \<open>rt_sigreturn\<close> on it, on whatever processor, gives back exactly this state
  (with the interrupt flag and the reserved flag forced on).\<close>

theorem signal_roundtrip:
  assumes "deliver_after_syscall cpu result padding f rsp m k = Some e" "se_rsp e \<noteq> rsp"
    and "length f = 15" "length padding = 8"
    and "user_range m2 (se_rsp e + 8) UCONTEXT_SIZE False"
    and "\<forall>i<UCONTEXT_SIZE. um_byte m2 (se_rsp e + 8 + of_nat i) = um_byte (se_mem e) (se_rsp e + 8 + of_nat i)"
  shows "\<exists>blk. current_blocked_mask cpu k = Some blk \<and>
      linux_rt_sigreturn_user cpu2 f2 (se_rsp e + 8) m2 k2 =
        map_option (\<lambda>k3. (result, f[0 := result, 8 := f ! 8 OR 0x202], rsp, k3)) (set_current_blocked_mask cpu2 blk k2) \<and>
      (\<forall>x. (\<forall>i<RTSIGFRAME_SIZE. x \<noteq> se_rsp e + of_nat i) \<longrightarrow> um_byte (se_mem e) x = um_byte m x)"
proof -
  obtain signo a alt blk bs where d: "current_blocked_mask cpu k = Some blk"
    "signal_frame signo a alt (sig_context_of_frame (f[0 := result]) rsp blk) blk padding = (se_rsp e, bs)"
    "copy_to_user (se_rsp e) bs m = (True, se_mem e)"
    using deliver_enters [OF assms(1,2)] .
  have "length (sc_reserved (sig_context_of_frame (f[0 := result]) rsp blk)) = 8"
    by (simp add: sig_context_of_frame_def)
  from signal_frame_written [OF d(2,3) this assms(4)]
  obtain u where u: "ucx_mcontext u = sig_context_of_frame (f[0 := result]) rsp blk" "ucx_sigmask u = blk"
    "length (UContext_bytes u) = UCONTEXT_SIZE" "UContext_read (UContext_bytes u) = u"
    and w: "\<forall>i<UCONTEXT_SIZE. um_byte (se_mem e) (se_rsp e + 8 + of_nat i) = UContext_bytes u ! i"
    "\<forall>x. (\<forall>i<RTSIGFRAME_SIZE. x \<noteq> se_rsp e + of_nat i) \<longrightarrow> um_byte (se_mem e) x = um_byte m x"
    by metis
  have "sc_rax (ucx_mcontext u) = result" "sc_rsp (ucx_mcontext u) = rsp"
    "restore_frame (ucx_mcontext u) = f[0 := result, 8 := f ! 8 OR 0x202]"
    using assms(3) unfolding u(1) by (simp_all add: restore_frame_of_frame) (simp_all add: sig_context_of_frame_def)
  then show ?thesis
    using sigreturn_reads [OF u(3,4) assms(5)] assms(6) w d(1) u(2) by simp
qed

lemma write_user_bytes_total:
  assumes "\<forall>(i, b)\<in>set xs. i < 2 ^ 64 \<and> unat p + i < 2 ^ 64 \<and> user_ok m (p + of_nat i) True"
  shows "\<exists>m'. write_user_bytes p xs m = (True, m') \<and> um_mapped m' = um_mapped m"
  using assms
proof (induction xs arbitrary: m)
  case (Cons x xs)
  then show ?case
    using Cons.IH [of "m\<lparr>um_byte := (um_byte m)(p + of_nat (fst x) := snd x)\<rparr>"]
    by (auto simp: checked_add_offset user_ok_def)
qed simp

lemma copy_to_user_total:
  "user_range m p (length bs) True \<Longrightarrow> length bs \<le> 2 ^ 64 \<Longrightarrow> \<exists>m'. copy_to_user p bs m = (True, m') \<and> um_mapped m' = um_mapped m"
  unfolding copy_to_user_def by (rule write_user_bytes_total) (auto simp: user_range_def in_set_enumerate_eq)

text \<open>C37.  The two ways back to user mode disagree about a pending signal whose default action ends the process.
  At the end of a system call the process exits with status 128 plus the signal; on the way back to a task that was
  switched to, the same signal is taken off the pending set and forgotten, and the task continues unharmed.\<close>

theorem fatal_signal_forgotten:
  assumes "SCHEDULERS k ! cpu = Some s" "current s < length (tasks s)" "t = tasks s ! current s" "t_process t \<noteq> None"
    and "signals (t_pending_signals t) - signals (t_blocked_mask t) \<noteq> {}"
    and "n = Min (signals (t_pending_signals t) - signals (t_blocked_mask t))"
    and "sa_handler (action_of k t (of_nat n)) = 0" "is_fatal (default_signal_action (of_nat n))"
  shows "\<exists>k'. deliver_after_syscall cpu result padding f rsp m k = Some \<lparr>se_result = SYSCALL_RETURN_EXIT,
        se_frame = f[0 := result], se_rsp = rsp, se_mem = m, se_exit_code = Some (128 + of_nat n), se_kernel = k'\<rparr> \<and>
      prepare_user_return cpu padding c m k = Some (c, m, k') \<and>
      k' = set_sched cpu (s\<lparr>tasks := (tasks s)[current s :=
        t\<lparr>t_pending_signals := t_pending_signals t AND NOT (push_bit (n - 1) 1)\<rparr>]\<rparr>) k"
  using check_pending_spec [OF assms(1-4)] assms(5-8)
  by (simp add: deliver_after_syscall_def prepare_user_return_def Let_def)

section \<open>A concrete delivery\<close>

definition frame_demo_task :: task where
  "frame_demo_task = demo_task 1 8\<lparr>t_pending_signals := 4\<rparr>"

definition frame_demo :: "sig_action \<Rightarrow> kernel" where
  "frame_demo a = demo_kernel\<lparr>SCHEDULERS := [Some (demo_sched [frame_demo_task])],
     sig_tables := [replicate 65 a]\<rparr>"

definition demo_mem :: user_mem where
  "demo_mem = \<lparr>um_byte = (\<lambda>_. 0), um_mapped = (\<lambda>_ _. True)\<rparr>"

lemma signals_demo: "signals 4 = {3}" "signals 0 = {}"
  using signals_bit [of 2] by (simp_all add: signals_def)

lemma trailing_zeros_demo: "check_pending_signal_to_deliver 0 (frame_demo a) =
  Some (Some (3, a), set_sched 0 (demo_sched [frame_demo_task\<lparr>t_pending_signals := 0\<rparr>]) (frame_demo a))"
  using check_pending_spec [of "frame_demo a" 0 "demo_sched [frame_demo_task]" frame_demo_task]
  by (simp add: frame_demo_def demo_sched_def frame_demo_task_def signals_demo action_of_def demo_task_def)

theorem fatal_signal_forgotten_witness:
  "map_option se_exit_code (deliver_after_syscall 0 0 [] [] 0x7000 demo_mem (frame_demo LinuxSigAction_default)) = Some (Some 131) \<and>
   map_option fst (prepare_user_return 0 [] demo_context demo_mem (frame_demo LinuxSigAction_default)) = Some demo_context"
proof -
  let ?k = "frame_demo LinuxSigAction_default" and ?s = "demo_sched [frame_demo_task]"
  have s: "SCHEDULERS ?k ! 0 = Some ?s" "current ?s < length (tasks ?s)" "frame_demo_task = tasks ?s ! current ?s"
    "t_process frame_demo_task \<noteq> None"
    by (simp_all add: frame_demo_def demo_sched_def frame_demo_task_def demo_task_def)
  have "signals (t_pending_signals frame_demo_task) - signals (t_blocked_mask frame_demo_task) = {3}"
    by (simp add: frame_demo_task_def demo_task_def signals_demo)
  then have D: "signals (t_pending_signals frame_demo_task) - signals (t_blocked_mask frame_demo_task) \<noteq> {}"
    "3 = Min (signals (t_pending_signals frame_demo_task) - signals (t_blocked_mask frame_demo_task))"
    by simp_all
  have a: "sa_handler (action_of ?k frame_demo_task (of_nat 3)) = 0" "is_fatal (default_signal_action (of_nat 3))"
    by (simp_all add: frame_demo_def frame_demo_task_def demo_task_def action_of_def LinuxSigAction_default_def
        is_fatal_def default_signal_action_def)
  obtain k' where "deliver_after_syscall 0 0 [] [] 0x7000 demo_mem ?k = Some \<lparr>se_result = SYSCALL_RETURN_EXIT,
        se_frame = [], se_rsp = 0x7000, se_mem = demo_mem, se_exit_code = Some (128 + of_nat 3), se_kernel = k'\<rparr>"
      "prepare_user_return 0 [] demo_context demo_mem ?k = Some (demo_context, demo_mem, k')"
    using fatal_signal_forgotten [OF s D a, of 0 "[]" "[]" "0x7000" demo_mem demo_context] by auto
  then show ?thesis
    by simp
qed

lemma user_range_mapped:
  assumes "unat p + n \<le> unat USER_ADDRESS_LIMIT" "\<And>a w. um_mapped m a w"
  shows "user_range m p n w"
proof -
  have "unat (p + of_nat i) = unat p + i" if "i < n" for i
  proof -
    have "unat (of_nat i :: u64) = i"
      using that assms(1) by (simp add: unat_of_nat take_bit_nat_eq_self USER_ADDRESS_LIMIT_def)
    then show ?thesis
      using that assms(1) by (subst unat_add_no_overflow) (simp_all add: USER_ADDRESS_LIMIT_def)
  qed
  then show ?thesis
    using assms by (auto simp: user_range_def user_ok_def word_less_nat_alt USER_ADDRESS_LIMIT_def)
qed

definition demo_action :: sig_action where
  "demo_action = \<lparr>sa_handler = 0x500000, sa_flags = 0, sa_restorer = 0, sa_mask = 0\<rparr>"

definition demo_regs :: "u64 list" where
  "demo_regs = [1, 2, 3, 4, 5, 6, 7, 8, 9, 10, 11, 12, 13, 14, 15]"

lemma demo_mask_set:
  "\<exists>t'. set_current_blocked_mask 0 w (set_sched 0 (demo_sched [t]) (frame_demo a)) = Some (set_sched 0 (demo_sched [t']) (frame_demo a))"
  by (auto simp: set_current_blocked_mask_def modify_current_def set_sched_def frame_demo_def demo_sched_def
      update_current_def)

lemma demo_frame_written:
  defines "alt \<equiv> t_sigaltstack frame_demo_task"
  obtains f' m' where "inject_signal_frame 3 demo_action alt 0 (replicate 8 0) (demo_regs[0 := 7]) 0x7000 demo_mem =
    (True, f', 0x6c28, m')" "um_mapped m' = um_mapped demo_mem"
proof -
  define sc where "sc = sig_context_of_frame (demo_regs[0 := 7]) 0x7000 0"
  have sc: "sc_rsp sc = 0x7000" "length (sc_reserved sc) = 8"
    by (simp_all add: sc_def sig_context_of_frame_def)
  obtain bs where bs: "signal_frame 3 demo_action alt sc 0 (replicate 8 0) = (0x6c28, bs)" "length bs = RTSIGFRAME_SIZE"
    using sc by (auto simp: signal_frame_def signal_base_def demo_action_def Let_def new_user_sp_def saturating_sub_def
        RTSIGFRAME_SIZE_def length_RtSigFrame_bytes)
  have "user_range demo_mem 0x6c28 976 True"
    by (rule user_range_mapped) (simp_all add: USER_ADDRESS_LIMIT_def demo_mem_def)
  then obtain m' where m': "copy_to_user 0x6c28 bs demo_mem = (True, m')" "um_mapped m' = um_mapped demo_mem"
    using copy_to_user_total [of demo_mem "0x6c28" bs] bs(2) by (auto simp: RTSIGFRAME_SIZE_def)
  show thesis
    using that bs(1) m' by (simp add: inject_signal_frame_def sc_def)
qed

lemma demo_delivered:
  obtains e t where "deliver_after_syscall 0 7 (replicate 8 0) demo_regs 0x7000 demo_mem (frame_demo demo_action) = Some e"
    "se_rsp e = 0x6c28" "um_mapped (se_mem e) = um_mapped demo_mem"
    "se_kernel e = set_sched 0 (demo_sched [t]) (frame_demo demo_action)"
proof -
  define k where "k = frame_demo demo_action"
  define k1 where "k1 = set_sched 0 (demo_sched [frame_demo_task\<lparr>t_pending_signals := 0\<rparr>]) k"
  have cur: "current_blocked_mask 0 k1 = Some 0" "current_sigaltstack 0 k1 = Some (t_sigaltstack frame_demo_task)"
    by (simp_all add: current_blocked_mask_def current_sigaltstack_def current_field_def k1_def k_def set_sched_def frame_demo_def
        demo_sched_def frame_demo_task_def demo_task_def)
  obtain t where k2: "enter_handler 0 3 demo_action 0 k1 = Some (set_sched 0 (demo_sched [t]) k)"
    using demo_mask_set [of "push_bit (unat (3 - 1 :: u64)) 1" "frame_demo_task\<lparr>t_pending_signals := 0\<rparr>" demo_action]
    by (auto simp: enter_handler_def demo_action_def k1_def k_def)
  have "check_pending_signal_to_deliver 0 k = Some (Some (3, demo_action), k1)" "1 < sa_handler demo_action"
    using trailing_zeros_demo [of demo_action] by (simp_all add: k_def k1_def demo_action_def)
  moreover obtain f' m' where
    "inject_signal_frame 3 demo_action (t_sigaltstack frame_demo_task) 0 (replicate 8 0) (demo_regs[0 := 7]) 0x7000 demo_mem =
      (True, f', 0x6c28, m')" "um_mapped m' = um_mapped demo_mem"
    using demo_frame_written .
  ultimately show thesis
    using that [of _ t] cur k2 unfolding k_def [symmetric] by (simp add: deliver_after_syscall_def Let_def)
qed

theorem signal_roundtrip_witness:
  "\<exists>e k3. deliver_after_syscall 0 7 (replicate 8 0) demo_regs 0x7000 demo_mem (frame_demo demo_action) = Some e \<and>
    se_rsp e = 0x6c28 \<and>
    linux_rt_sigreturn_user 0 (se_frame e) (se_rsp e + 8) (se_mem e) (se_kernel e) =
      Some (7, [7, 2, 3, 4, 5, 6, 7, 8, 0x20b, 10, 11, 12, 13, 14, 15], 0x7000, k3)"
proof -
  obtain e t where e: "deliver_after_syscall 0 7 (replicate 8 0) demo_regs 0x7000 demo_mem (frame_demo demo_action) = Some e"
    "se_rsp e = 0x6c28" "um_mapped (se_mem e) = um_mapped demo_mem"
    "se_kernel e = set_sched 0 (demo_sched [t]) (frame_demo demo_action)"
    using demo_delivered .
  have "current_blocked_mask 0 (frame_demo demo_action) = Some 0"
    by (simp add: current_blocked_mask_def current_field_def frame_demo_def demo_sched_def frame_demo_task_def demo_task_def)
  moreover have "user_range (se_mem e) (se_rsp e + 8) UCONTEXT_SIZE False"
    by (rule user_range_mapped) (simp_all add: e demo_mem_def UCONTEXT_SIZE_def USER_ADDRESS_LIMIT_def)
  ultimately have "linux_rt_sigreturn_user 0 (se_frame e) (se_rsp e + 8) (se_mem e) (se_kernel e) =
      map_option (\<lambda>k3. (7, demo_regs[0 := 7, 8 := demo_regs ! 8 OR 0x202], 0x7000, k3)) (set_current_blocked_mask 0 0 (se_kernel e))"
    using signal_roundtrip [OF e(1), of "se_mem e" 0 "se_frame e" "se_kernel e"] e by (simp add: demo_regs_def)
  then show ?thesis
    using e demo_mask_set [of 0 t demo_action] by (auto simp: demo_regs_def)
qed

end
