(* ===== verification/Tasks.thy ===== *)
theory Tasks
  imports Sigframe Abi
begin

text \<open>
  The life of a task (\<open>rust/kernel/src/scheduler.rs\<close>): creation by \<open>spawn\<close> and \<open>clone\<close>, \<open>exec\<close>, exit of a thread and of a
  thread group, waiting for children, and the timer interrupt, with the system calls for waiting
  (\<open>rust/kernel/src/syscall.rs\<close>).  A task has no descriptor table, working directory, name or resource limits here.
\<close>

section \<open>Creation\<close>

text \<open>A loaded program: the process, its entry point and the top of its stack.\<close>

record image =
  im_process :: process
  im_entry :: u64
  im_stack_top :: u64

definition initial_context :: "u64 \<Rightarrow> u64 \<Rightarrow> user_context" where
  "initial_context entry stack_top = \<lparr>uc_return_value = 0, uc_rbx = 0, uc_rbp = 0, uc_r12 = stack_top, uc_r13 = 0,
     uc_r14 = 0, uc_r15 = 0, uc_rdi = 0, uc_rsi = 0, uc_rdx = 0, uc_r8 = 0, uc_r9 = 0, uc_r10 = 0,
     uc_instruction_pointer = entry, uc_flags = 0x202, uc_stack_pointer = stack_top, uc_rcx = 0, uc_r11 = 0x202\<rparr>"

text \<open>\<open>selectors\<close> is the result of \<open>user_interrupt_selectors\<close>: the code and the data segment.\<close>

definition InterruptContext_initial :: "u64 \<times> u64 \<Rightarrow> u64 \<Rightarrow> u64 \<Rightarrow> interrupt_context" where
  "InterruptContext_initial selectors entry stack_pointer = \<lparr>ic_r15 = 0, ic_r14 = 0, ic_r13 = 0, ic_r12 = 0, ic_r11 = 0,
     ic_r10 = 0, ic_r9 = 0, ic_r8 = 0, ic_rdi = 0, ic_rsi = 0, ic_rbp = 0, ic_rdx = 0, ic_rcx = 0, ic_rbx = 0,
     ic_rax = 0, ic_instruction_pointer = entry, ic_code_segment = fst selectors, ic_flags = 0x202,
     ic_stack_pointer = stack_pointer, ic_stack_segment = snd selectors\<rparr>"

text \<open>\<open>tbl\<close> is the index of a fresh table of signal actions.\<close>

definition new_task :: "u64 \<times> u64 \<Rightarrow> u64 \<Rightarrow> u64 \<Rightarrow> u64 option \<Rightarrow> u32 \<Rightarrow> image \<Rightarrow> nat \<Rightarrow> task" where
  "new_task selectors tid tgid parent owner im tbl =
    (let p = (if tgid \<le> 2 then PRIO_INTERACTIVE_MIN else PRIO_NORMAL_MIN) in
     \<lparr>t_tid = tid, t_tgid = tgid, t_parent_pid = parent, t_state = Runnable, t_priority = p, t_base_priority = p,
      t_slice = slice_for_priority p, t_process = Some (im_process im),
      t_context = initial_context (im_entry im) (im_stack_top im),
      t_interrupt = InterruptContext_initial selectors (im_entry im) (im_stack_top im), t_uid = owner,
      t_signal_actions = tbl, t_fs_base = 0, t_blocked_mask = 0, t_pending_signals = 0, t_clear_child_tid = 0,
      t_pgid = tgid, t_sid = tgid, t_sigaltstack = \<lparr>ss_sp = 0, ss_flags = SS_DISABLE, ss_pad = 0, ss_size = 0\<rparr>,
      t_cpu_ticks = 0\<rparr>)"

definition allocate_pid :: "kernel \<Rightarrow> u64 \<times> kernel" where
  "allocate_pid k = (NEXT_PID k, k\<lparr>NEXT_PID := NEXT_PID k + 1\<rparr>)"

definition add_sig_table :: "sig_action list \<Rightarrow> kernel \<Rightarrow> nat \<times> kernel" where
  "add_sig_table tbl k = (length (sig_tables k), k\<lparr>sig_tables := sig_tables k @ [tbl]\<rparr>)"

text \<open>A new task takes the first slot of a reaped task, or a new one below the limit.\<close>

definition place_task :: "task \<Rightarrow> scheduler \<Rightarrow> scheduler option" where
  "place_task t s =
    (case position (\<lambda>u. t_state u = Reaped) (tasks s) of
      Some i \<Rightarrow> Some (s\<lparr>tasks := (tasks s)[i := t]\<rparr>)
    | None \<Rightarrow> if length (tasks s) < MAX_TASKS then Some (s\<lparr>tasks := tasks s @ [t]\<rparr>) else None)"

text \<open>The results are \<open>None\<close> for a panic, and otherwise the error (\<open>None\<close>) or the new identifier, with the kernel.\<close>

definition spawn_current :: "u64 \<times> u64 \<Rightarrow> nat \<Rightarrow> image \<Rightarrow> kernel \<Rightarrow> (u64 option \<times> kernel) option" where
  "spawn_current selectors cpu im k =
    (case SCHEDULERS k ! cpu of
      None \<Rightarrow> Some (None, k)
    | Some s \<Rightarrow>
       if current s < length (tasks s) then
         (let par = tasks s ! current s;
              owner = (if t_uid par = 0 then uid Credentials_vanta else t_uid par);
              (pid, k1) = allocate_pid k;
              (tbl, k2) = add_sig_table (replicate 65 LinuxSigAction_default) k1 in
          case place_task (new_task selectors pid pid (Some (t_tgid par)) owner im tbl) s of
            None \<Rightarrow> Some (None, k2)
          | Some s' \<Rightarrow> Some (Some pid, set_sched cpu s' (k2\<lparr>FOREGROUND_PID := pid\<rparr>)))
       else None)"

definition CLONE_VM :: u64 where
  "CLONE_VM = 0x00000100"
definition CLONE_SIGHAND :: u64 where
  "CLONE_SIGHAND = 0x00000800"
definition CLONE_THREAD :: u64 where
  "CLONE_THREAD = 0x00010000"
definition CLONE_SETTLS :: u64 where
  "CLONE_SETTLS = 0x00080000"
definition CLONE_PARENT_SETTID :: u64 where
  "CLONE_PARENT_SETTID = 0x00100000"
definition CLONE_CHILD_CLEARTID :: u64 where
  "CLONE_CHILD_CLEARTID = 0x00200000"
definition CLONE_CHILD_SETTID :: u64 where
  "CLONE_CHILD_SETTID = 0x01000000"

record clone_request =
  cl_flags :: u64
  cl_child_stack :: u64
  cl_parent_tidptr :: u64
  cl_child_tidptr :: u64
  cl_tls :: u64
  cl_context :: user_context
  cl_interrupt :: interrupt_context

definition clone_child :: "clone_request \<Rightarrow> u64 \<Rightarrow> process \<Rightarrow> nat \<Rightarrow> task \<Rightarrow> task" where
  "clone_child r child_tid proc tbl par =
    (let f = cl_flags r; c = cl_context r; i = cl_interrupt r;
         thread = f AND CLONE_THREAD \<noteq> 0;
         sp = (if cl_child_stack r \<noteq> 0 then cl_child_stack r else uc_stack_pointer c);
         rip = ic_instruction_pointer i in
     \<lparr>t_tid = child_tid, t_tgid = (if thread then t_tgid par else child_tid),
      t_parent_pid = (if thread then t_parent_pid par else Some (t_tgid par)), t_state = Runnable,
      t_priority = t_priority par, t_base_priority = t_base_priority par, t_slice = slice_for_priority (t_priority par),
      t_process = Some proc,
      t_context = c\<lparr>uc_return_value := 0, uc_instruction_pointer := rip, uc_flags := uc_flags c OR 0x202,
        uc_stack_pointer := sp\<rparr>,
      t_interrupt = i\<lparr>ic_rax := 0, ic_instruction_pointer := rip, ic_flags := uc_flags c OR 0x202,
        ic_stack_pointer := sp\<rparr>,
      t_uid = t_uid par, t_signal_actions = tbl,
      t_fs_base = (if f AND CLONE_SETTLS \<noteq> 0 then cl_tls r else t_fs_base par),
      t_blocked_mask = t_blocked_mask par, t_pending_signals = 0,
      t_clear_child_tid = (if f AND CLONE_CHILD_CLEARTID \<noteq> 0
        then (if cl_child_tidptr r \<noteq> 0 then cl_child_tidptr r else cl_parent_tidptr r) else 0),
      t_pgid = t_pgid par, t_sid = t_sid par, t_sigaltstack = t_sigaltstack par, t_cpu_ticks = 0\<rparr>)"

definition clone_writes :: "clone_request \<Rightarrow> u64 \<Rightarrow> u64 \<Rightarrow> (u64 \<times> u64 \<times> bytes) list" where
  "clone_writes r space child_tid =
    (if cl_flags r AND CLONE_PARENT_SETTID \<noteq> 0 \<and> cl_parent_tidptr r \<noteq> 0
     then [(space, cl_parent_tidptr r, to_le 4 (ucast child_tid :: u32))] else []) @
    (if cl_flags r AND CLONE_CHILD_SETTID \<noteq> 0 \<and> cl_child_tidptr r \<noteq> 0
     then [(space, cl_child_tidptr r, to_le 4 (ucast child_tid :: u32))] else [])"

text \<open>\<open>copied\<close> is the result of \<open>clone_user_address_space\<close>, used without \<open>CLONE_VM\<close>.\<close>

definition clone_task_current :: "nat \<Rightarrow> clone_request \<Rightarrow> u64 option \<Rightarrow> kernel \<Rightarrow> (u64 option \<times> kernel) option" where
  "clone_task_current cpu r copied k =
    (case SCHEDULERS k ! cpu of
      None \<Rightarrow> Some (None, k)
    | Some s \<Rightarrow>
       if current s < length (tasks s) then
         (let par = tasks s ! current s in
          case t_process par of
            None \<Rightarrow> Some (None, k)
          | Some proc \<Rightarrow>
             (let (child_tid, k1) = allocate_pid k in
              case (if cl_flags r AND CLONE_VM \<noteq> 0 then Some proc
                    else map_option (\<lambda>space. proc\<lparr>p_space := space\<rparr>) copied) of
                None \<Rightarrow> Some (None, k1)
              | Some child_proc \<Rightarrow>
                 (let (tbl, k2) = (if cl_flags r AND (CLONE_SIGHAND OR CLONE_THREAD) \<noteq> 0 then (t_signal_actions par, k1)
                        else add_sig_table (sig_tables k1 ! t_signal_actions par) k1);
                      k3 = k2\<lparr>user_writes := user_writes k2 @ clone_writes r (p_space proc) child_tid\<rparr> in
                  case place_task (clone_child r child_tid child_proc tbl par) s of
                    None \<Rightarrow> Some (None, k3)
                  | Some s' \<Rightarrow> Some (Some child_tid, set_sched cpu s' k3))))
       else None)"

definition exec_current :: "u64 \<times> u64 \<Rightarrow> nat \<Rightarrow> image \<Rightarrow> kernel \<Rightarrow> (switch \<times> kernel) option" where
  "exec_current selectors cpu im k =
    (case SCHEDULERS k ! cpu of
      None \<Rightarrow> None
    | Some s \<Rightarrow>
       (let c = initial_context (im_entry im) (im_stack_top im);
            (tbl, k1) = add_sig_table (replicate 65 LinuxSigAction_default) k in
        map_option (\<lambda>s'. (Resume c (p_space (im_process im)), set_sched cpu s' k1))
          (update_current (\<lambda>t. t\<lparr>t_process := Some (im_process im), t_context := c,
             t_interrupt := InterruptContext_initial selectors (im_entry im) (im_stack_top im), t_signal_actions := tbl,
             t_blocked_mask := 0, t_pending_signals := 0, t_fs_base := 0, t_clear_child_tid := 0\<rparr>) s)))"

section \<open>Exit\<close>

definition exit_status :: "u64 \<Rightarrow> u32" where
  "exit_status code = push_bit 8 (ucast code AND 0xFF)"

definition thread_alive :: "u64 \<Rightarrow> task \<Rightarrow> bool" where
  "thread_alive tgid t \<longleftrightarrow> t_tgid t = tgid \<and> t_process t \<noteq> None"

text \<open>The first half of \<open>exit_current\<close>, under the lock of the processor: the task ends, and when no other thread of
  the group is left on this processor, a parent waiting on this processor is woken and the task is reaped.\<close>

definition exit_clear_tid :: "scheduler \<Rightarrow> scheduler" where
  "exit_clear_tid s =
    (let a = t_clear_child_tid (tasks s ! current s) in
     if a \<noteq> 0 then
       snd (futex_wake_unlocked a 1 FUTEX_BITSET_MATCH_ANY
         (s\<lparr>tasks := (tasks s)[current s := (tasks s ! current s)\<lparr>t_clear_child_tid := 0\<rparr>]\<rparr>))
     else s)"

definition exit_local :: "u64 \<Rightarrow> scheduler \<Rightarrow> scheduler \<times> (u64 \<times> u64 \<times> bytes) list" where
  "exit_local code s =
    (let cur = current s; t = tasks s ! cur;
         s1 = exit_clear_tid s;
         s2 = s1\<lparr>tasks := (tasks s1)[cur := (tasks s1 ! cur)\<lparr>t_process := None, t_state := Zombie code\<rparr>]\<rparr> in
     if list_ex (thread_alive (t_tgid t)) (tasks s2) then (s2, clear_tid_write t)
     else case wake_parent_tasks (case t_parent_pid t of Some p \<Rightarrow> p | None \<Rightarrow> 0) (t_tgid t) code (exit_status code) (tasks s2) of
       None \<Rightarrow> (s2, clear_tid_write t)
     | Some (ts, ws) \<Rightarrow> (s2\<lparr>tasks := ts[cur := (ts ! cur)\<lparr>t_state := Reaped\<rparr>]\<rparr>, clear_tid_write t @ ws))"

text \<open>The second half: a parent waiting on another processor, when no thread of the group is left anywhere.\<close>

definition exit_remote :: "nat \<Rightarrow> u64 \<Rightarrow> u64 option \<Rightarrow> u64 \<Rightarrow> kernel \<Rightarrow> kernel option" where
  "exit_remote cpu code parent tgid k =
    (case parent of
      None \<Rightarrow> Some k
    | Some p \<Rightarrow>
       if list_ex (thread_alive tgid) (all_tasks (SCHEDULERS k)) then Some k
       else case wake_parent_on (filter (\<lambda>c. c \<noteq> cpu) [0..<MAX_CPUS]) p tgid code (exit_status code) k of
         (False, k') \<Rightarrow> Some k'
       | (True, k') \<Rightarrow>
          (case SCHEDULERS k' ! cpu of
            None \<Rightarrow> Some k'
          | Some s \<Rightarrow> map_option (\<lambda>s'. set_sched cpu s' k') (update_current (t_state_update (\<lambda>_. Reaped)) s)))"

definition exit_current :: "nat \<Rightarrow> u64 \<Rightarrow> (nat \<Rightarrow> bool) \<Rightarrow> kernel \<Rightarrow> (switch \<times> kernel) option" where
  "exit_current cpu code free k =
    (case SCHEDULERS k ! cpu of
      None \<Rightarrow> None
    | Some s \<Rightarrow>
       if current s < length (tasks s) then
         (let t = tasks s ! current s;
              fg = (if FOREGROUND_PID k = t_tgid t \<or> FOREGROUND_PID k = t_tid t then 0 else FOREGROUND_PID k);
              (s1, ws) = exit_local code s;
              remaining = length (filter (\<lambda>u. t_process u \<noteq> None) (tasks s1));
              nxt = next_alive s1 (current s);
              s2 = (case nxt of Some i \<Rightarrow> s1\<lparr>current := i\<rparr> | None \<Rightarrow> s1);
              k1 = set_sched cpu s2 (k\<lparr>FOREGROUND_PID := fg, user_writes := user_writes k @ ws\<rparr>);
              run = (case nxt of Some i \<Rightarrow> map_option (\<lambda>p. Some (Resume (t_context (tasks s1 ! i)) (p_space p)))
                      (t_process (tasks s1 ! i)) | None \<Rightarrow> Some None) in
          case (run, exit_remote cpu code (t_parent_pid t) (t_tgid t) k1) of
            (Some r, Some k2) \<Rightarrow>
              (case r of
                Some sw \<Rightarrow> Some (sw, k2)
              | None \<Rightarrow>
                 if 0 < remaining then dispatch cpu 0 free k2
                 else Some (NoTasks, k2\<lparr>SCHEDULERS := (SCHEDULERS k2)[cpu := None]\<rparr>))
          | _ \<Rightarrow> None)
       else None)"

definition exit_group_current :: "nat \<Rightarrow> u64 \<Rightarrow> (nat \<Rightarrow> bool) \<Rightarrow> kernel \<Rightarrow> (switch \<times> kernel) option" where
  "exit_group_current cpu code free k =
    (case SCHEDULERS k ! cpu of
      None \<Rightarrow> None
    | Some s \<Rightarrow>
       if current s < length (tasks s) then
         (let t = tasks s ! current s;
              P = (\<lambda>u. thread_alive (t_tgid t) u \<and> t_tid u \<noteq> t_tid t) in
          exit_current cpu code free (terminate_tasks P code cpu s k))
       else None)"

section \<open>Waiting for children\<close>

definition child_of :: "u64 \<Rightarrow> u64 \<Rightarrow> task \<Rightarrow> bool" where
  "child_of parent target t \<longleftrightarrow> t_parent_pid t = Some parent \<and> (target = - 1 \<or> target = 0 \<or> t_tgid t = target)"

definition is_zombie :: "task \<Rightarrow> bool" where
  "is_zombie t = (case t_state t of Zombie _ \<Rightarrow> True | _ \<Rightarrow> False)"

primrec reap_first :: "u64 \<Rightarrow> u64 \<Rightarrow> task list \<Rightarrow> ((u64 \<times> u64) \<times> task list) option" where
  "reap_first parent target [] = None"
| "reap_first parent target (t # ts) =
    (if child_of parent target t \<and> is_zombie t
     then Some ((t_tgid t, exit_code (t_state t)), t\<lparr>t_state := Reaped\<rparr> # ts)
     else map_option (\<lambda>(r, ts'). (r, t # ts')) (reap_first parent target ts))"

primrec reap_on :: "nat list \<Rightarrow> u64 \<Rightarrow> u64 \<Rightarrow> kernel \<Rightarrow> ((u64 \<times> u64) \<times> kernel) option" where
  "reap_on [] parent target k = None"
| "reap_on (c # cs) parent target k =
    (case SCHEDULERS k ! c of
      None \<Rightarrow> reap_on cs parent target k
    | Some s \<Rightarrow>
       (case reap_first parent target (tasks s) of
         Some (r, ts) \<Rightarrow> Some (r, set_sched c (s\<lparr>tasks := ts\<rparr>) k)
       | None \<Rightarrow> reap_on cs parent target k))"

definition has_child :: "u64 \<Rightarrow> u64 \<Rightarrow> scheduler option \<Rightarrow> bool" where
  "has_child parent target s =
    (case s of None \<Rightarrow> False | Some s \<Rightarrow> list_ex (\<lambda>t. child_of parent target t \<and> t_state t \<noteq> Reaped) (tasks s))"

text \<open>The table of this processor first, then the others in order.\<close>

definition wait_child_current :: "nat \<Rightarrow> u64 \<Rightarrow> kernel \<Rightarrow> (unit, (u64 \<times> u64) option \<times> kernel) outcome" where
  "wait_child_current cpu target k =
    (case SCHEDULERS k ! cpu of
      None \<Rightarrow> Err ()
    | Some s \<Rightarrow>
       if current s < length (tasks s) then
         (let parent = t_tgid (tasks s ! current s); others = filter (\<lambda>c. c \<noteq> cpu) [0..<MAX_CPUS] in
          case reap_on (cpu # others) parent target k of
            Some (r, k') \<Rightarrow> Ok (Some r, k')
          | None \<Rightarrow>
             if has_child parent target (Some s) \<or> list_ex (\<lambda>c. has_child parent target (SCHEDULERS k ! c)) others
             then Ok (None, k) else Err ())
       else Panic)"

definition SYSCALL_RETURN_WAIT :: u64 where
  "SYSCALL_RETURN_WAIT = - 50003"

definition waitpid_user :: "nat \<Rightarrow> u64 \<Rightarrow> kernel \<Rightarrow> (u64 \<times> kernel) option" where
  "waitpid_user cpu pid k =
    (case wait_child_current cpu pid k of
      Ok (Some (_, code), k') \<Rightarrow> Some (code, k')
    | Ok (None, k') \<Rightarrow> Some (SYSCALL_RETURN_WAIT, k')
    | Err _ \<Rightarrow> Some (SYSCALL_ERROR, k)
    | Panic \<Rightarrow> None)"

definition linux_wait4_user :: "nat \<Rightarrow> u64 \<Rightarrow> u64 \<Rightarrow> u64 \<Rightarrow> user_mem \<Rightarrow> kernel \<Rightarrow> (u64 \<times> user_mem \<times> kernel) option" where
  "linux_wait4_user cpu pid status_pointer options m k =
    (let target = (if pid = - 1 \<or> pid = 0 then - 1 else pid) in
     case wait_child_current cpu target k of
       Ok (Some (child, code), k') \<Rightarrow>
         Some (child, (if status_pointer \<noteq> 0 then snd (copy_to_user status_pointer (to_le 4 (exit_status code)) m) else m), k')
     | Ok (None, k') \<Rightarrow> Some (if options AND 1 \<noteq> 0 then 0 else SYSCALL_RETURN_WAIT, m, k')
     | Err _ \<Rightarrow> Some (SYSCALL_ERROR, m, k)
     | Panic \<Rightarrow> None)"

section \<open>The timer interrupt\<close>

definition SIGALRM :: u64 where
  "SIGALRM = 14"

definition expire :: "nat \<Rightarrow> timer_entry \<Rightarrow> kernel \<Rightarrow> kernel option" where
  "expire cpu e k =
    (case te_kind e of
      Sleep tid \<Rightarrow> Some (wake_sleeping_task tid k)
    | ITimerReal pid interval \<Rightarrow>
       (let rearm = (\<lambda>k. if 0 < interval then k\<lparr>timers := rearm_itimer (te_id e) interval (timers k)\<rparr> else k) in
        case kill_process cpu pid SIGALRM k of
          Ok k' \<Rightarrow> Some (rearm k')
        | Err _ \<Rightarrow> Some (rearm k)
        | Panic \<Rightarrow> None))"

primrec expire_all :: "nat \<Rightarrow> timer_entry list \<Rightarrow> kernel \<Rightarrow> kernel option" where
  "expire_all cpu [] k = Some k"
| "expire_all cpu (e # es) k = (case expire cpu e k of None \<Rightarrow> None | Some k' \<Rightarrow> expire_all cpu es k')"

text \<open>Processor 0 drives the timer wheel; the network bottom half and the page-cache flusher, which also run here,
  do not touch this state.\<close>

definition timer_tick :: "nat \<Rightarrow> interrupt_context \<Rightarrow> kernel \<Rightarrow> (switch \<times> kernel) option" where
  "timer_tick cpu c k =
    (case (if cpu = 0 then (let (es, ts) = tick (timers k) in expire_all cpu es (k\<lparr>timers := ts\<rparr>)) else Some k) of
      None \<Rightarrow> None
    | Some k' \<Rightarrow> preempt cpu c k')"

section \<open>Lemmas: waiting\<close>

text \<open>The places of the tasks on the listed processors, in the order of the search.\<close>

definition tasks_on :: "kernel \<Rightarrow> nat \<Rightarrow> task list" where
  "tasks_on k c = (case SCHEDULERS k ! c of None \<Rightarrow> [] | Some s \<Rightarrow> tasks s)"

definition places :: "kernel \<Rightarrow> nat list \<Rightarrow> (nat \<times> nat) list" where
  "places k cs = concat (map (\<lambda>c. map (Pair c) [0..<length (tasks_on k c)]) cs)"

definition task_at :: "kernel \<Rightarrow> nat \<times> nat \<Rightarrow> task" where
  "task_at k x = tasks_on k (fst x) ! snd x"

definition put_task :: "nat \<times> nat \<Rightarrow> task \<Rightarrow> kernel \<Rightarrow> kernel" where
  "put_task x t k =
    (case SCHEDULERS k ! fst x of None \<Rightarrow> k | Some s \<Rightarrow> set_sched (fst x) (s\<lparr>tasks := (tasks s)[snd x := t]\<rparr>) k)"

lemma find_map_eq: "find P (map f xs) = map_option f (find (\<lambda>x. P (f x)) xs)"
  by (induction xs) auto

lemma find_append: "find P (xs @ ys) = (case find P xs of Some x \<Rightarrow> Some x | None \<Rightarrow> find P ys)"
  by (induction xs) auto

lemma find_filter: "find P (filter Q xs) = find (\<lambda>x. Q x \<and> P x) xs"
  by (induction xs) auto

definition reapable :: "u64 \<Rightarrow> u64 \<Rightarrow> task \<Rightarrow> bool" where
  "reapable parent target t \<longleftrightarrow> child_of parent target t \<and> is_zombie t"

definition report :: "task \<Rightarrow> u64 \<times> u64" where
  "report t = (t_tgid t, exit_code (t_state t))"

lemma reap_first_find:
  "reap_first p g ts =
    map_option (\<lambda>i. (report (ts ! i), ts[i := (ts ! i)\<lparr>t_state := Reaped\<rparr>]))
      (find (\<lambda>i. reapable p g (ts ! i)) [0..<length ts])"
proof (induction ts)
  case (Cons t ts)
  have "[0..<length (t # ts)] = 0 # map Suc [0..<length ts]"
    by (simp add: upt_conv_Cons map_Suc_upt del: upt_Suc)
  then show ?case
    using Cons by (simp add: find_map_eq reapable_def report_def option.map_comp comp_def del: upt_Suc)
qed simp

lemma reap_on_find:
  "reap_on cs p g k =
    map_option (\<lambda>x. (report (task_at k x), put_task x ((task_at k x)\<lparr>t_state := Reaped\<rparr>) k))
      (find (\<lambda>x. reapable p g (task_at k x)) (places k cs))"
proof (induction cs)
  case (Cons c cs)
  have f: "find (\<lambda>x. reapable p g (task_at k x)) (places k (c # cs)) =
      (case map_option (Pair c) (find (\<lambda>i. reapable p g (tasks_on k c ! i)) [0..<length (tasks_on k c)]) of
        Some x \<Rightarrow> Some x | None \<Rightarrow> find (\<lambda>x. reapable p g (task_at k x)) (places k cs))"
    by (simp add: places_def find_append find_map_eq task_at_def split: option.splits)
  show ?case
  proof (cases "SCHEDULERS k ! c")
    case None
    then show ?thesis
      using Cons by (simp add: f tasks_on_def)
  next
    case (Some s)
    then have on: "tasks_on k c = tasks s"
      by (simp add: tasks_on_def)
    have "task_at k (c, i) = tasks s ! i" "put_task (c, i) t k = set_sched c (s\<lparr>tasks := (tasks s)[i := t]\<rparr>) k" for i t
      using Some on by (simp_all add: task_at_def put_task_def)
    then show ?thesis
      using Cons Some on
      by (cases "find (\<lambda>i. reapable p g (tasks s ! i)) [0..<length (tasks s)]") (simp_all add: f reap_first_find)
  qed
qed (simp add: places_def)

lemma places_mem: "(c, i) \<in> set (places k cs) \<longleftrightarrow> c \<in> set cs \<and> i < length (tasks_on k c)"
  by (fastforce simp: places_def)

lemma has_child_places:
  "list_ex (\<lambda>c. has_child p g (SCHEDULERS k ! c)) cs \<longleftrightarrow>
    (\<exists>x\<in>set (places k cs). child_of p g (task_at k x) \<and> t_state (task_at k x) \<noteq> Reaped)"
proof -
  have "has_child p g (SCHEDULERS k ! c) \<longleftrightarrow>
      (\<exists>i<length (tasks_on k c). child_of p g (tasks_on k c ! i) \<and> t_state (tasks_on k c ! i) \<noteq> Reaped)" for c
    by (auto simp: has_child_def tasks_on_def list_ex_length split: option.splits)
  then show ?thesis
    unfolding list_ex_iff Bex_def split_paired_Ex places_mem task_at_def by simp
qed

text \<open>The matching children of a process, the table of \<open>cpu\<close> first.\<close>

definition kids :: "nat \<Rightarrow> u64 \<Rightarrow> u64 \<Rightarrow> kernel \<Rightarrow> (nat \<times> nat) list" where
  "kids cpu parent target k =
    filter (\<lambda>x. child_of parent target (task_at k x)) (places k (cpu # filter (\<lambda>c. c \<noteq> cpu) [0..<MAX_CPUS]))"

text \<open>C18.  Waiting for children is exact over the tables of all processors: the first zombie among the matching
  children, this processor's table first and then the others in order, is reported with its exit code, and exactly it
  is reaped, so that it is never reported again.  Without a zombie the caller must wait exactly if some matching child
  has not been reaped; otherwise the call fails.  Nothing else changes.\<close>

theorem wait_child_exact:
  assumes "SCHEDULERS k ! cpu = Some s" "current s < length (tasks s)"
    and "t_tgid (tasks s ! current s) = p"
  shows "wait_child_current cpu target k =
    (case find (\<lambda>x. is_zombie (task_at k x)) (kids cpu p target k) of
      Some x \<Rightarrow> Ok (Some (t_tgid (task_at k x), exit_code (t_state (task_at k x))),
        put_task x ((task_at k x)\<lparr>t_state := Reaped\<rparr>) k)
    | None \<Rightarrow> if \<exists>x\<in>set (kids cpu p target k). t_state (task_at k x) \<noteq> Reaped then Ok (None, k) else Err ())"
proof -
  let ?cs = "cpu # filter (\<lambda>c. c \<noteq> cpu) [0..<MAX_CPUS]"
  have "find (\<lambda>x. is_zombie (task_at k x)) (kids cpu p target k) = find (\<lambda>x. reapable p target (task_at k x)) (places k ?cs)"
    by (simp add: kids_def find_filter reapable_def)
  moreover have "(\<exists>x\<in>set (kids cpu p target k). t_state (task_at k x) \<noteq> Reaped) \<longleftrightarrow>
      list_ex (\<lambda>c. has_child p target (SCHEDULERS k ! c)) ?cs"
    unfolding has_child_places by (auto simp: kids_def)
  ultimately show ?thesis
    using assms reap_on_find [of ?cs p target k]
    by (auto simp: wait_child_current_def Let_def report_def split: option.splits)
qed

section \<open>Lemmas: exit\<close>

lemma woken_trans: "woken t u \<Longrightarrow> woken u v \<Longrightarrow> woken t v"
  by (auto simp: woken_def)

lemma waits_for_woken: "waits_for p g t \<Longrightarrow> woken t (woken_parent g code t)"
  by (auto simp: waits_for_def woken_def woken_parent_def task_key_def dead_def Let_def split: task_state.splits)

lemma wake_parent_tasks_woken: "wake_parent_tasks p g code st ts = Some (ts', ws) \<Longrightarrow> list_all2 woken ts ts'"
  by (induction ts arbitrary: ts') (auto split: if_splits intro: waits_for_woken)

lemma wake_parent_tasks_None: "wake_parent_tasks p g code st ts = None \<longleftrightarrow> \<not> list_ex (waits_for p g) ts"
  by (induction ts) auto

lemma futex_wake_tasks_waits:
  "futex_wake_tasks a bits n ts = (w, ts') \<Longrightarrow> list_ex (waits_for p g) ts' = list_ex (waits_for p g) ts"
proof (induction ts arbitrary: n w ts')
  case (Cons t ts)
  have "futex_match a bits t \<Longrightarrow> \<not> waits_for p g t" "\<not> waits_for p g (wake_task t)"
    by (auto simp: futex_match_def waits_for_def wake_task_def Let_def split: task_state.splits)
  then show ?case
    using Cons by (auto split: if_splits prod.splits)
qed simp

lemma exit_clear_tid_shape:
  assumes "current s < length (tasks s)" "t_state (tasks s ! current s) = Runnable" "exit_clear_tid s = s1"
  shows "current s1 = current s" "length (tasks s1) = length (tasks s)"
    "\<And>j. j < length (tasks s) \<Longrightarrow> j \<noteq> current s \<Longrightarrow> woken (tasks s ! j) (tasks s1 ! j)"
    "tasks s1 ! current s = (tasks s ! current s)\<lparr>t_clear_child_tid := 0\<rparr>"
    "list_ex (waits_for p g) (tasks s1) = list_ex (waits_for p g) (tasks s)"
proof -
  let ?c = "current s"
  let ?t = "(tasks s ! ?c)\<lparr>t_clear_child_tid := 0\<rparr>"
  let ?ts = "(tasks s)[?c := ?t]"
  have same: "?ts = tasks s" if "t_clear_child_tid (tasks s ! ?c) = 0"
    using that by (intro update_same) simp
  obtain w ts where f: "futex_wake_tasks (t_clear_child_tid (tasks s ! ?c)) FUTEX_BITSET_MATCH_ANY 1 ?ts = (w, ts)"
    by (rule prod.exhaust)
  have l: "list_all2 woken ?ts (tasks s1) \<and> current s1 = ?c \<and>
      list_ex (waits_for p g) (tasks s1) = list_ex (waits_for p g) ?ts"
  proof (cases "t_clear_child_tid (tasks s ! ?c) = 0")
    case True
    then show ?thesis
      using assms(3) same by (simp add: exit_clear_tid_def)
  next
    case False
    then have "s1 = s\<lparr>tasks := ts\<rparr>"
      using assms(3) f by (auto simp: exit_clear_tid_def Let_def futex_wake_unlocked_def)
    then show ?thesis
      using futex_wake_tasks_woken [OF f] futex_wake_tasks_waits [OF f] by simp
  qed
  have len: "length (tasks s1) = length (tasks s)"
    using l by (auto dest: list_all2_lengthD)
  have nth: "woken (?ts ! j) (tasks s1 ! j)" if "j < length (tasks s)" for j
    using l that by (auto simp: list_all2_conv_all_nth)
  show "current s1 = ?c" "length (tasks s1) = length (tasks s)"
    using l len by simp_all
  show "woken (tasks s ! j) (tasks s1 ! j)" if "j < length (tasks s)" "j \<noteq> ?c" for j
    using nth [OF that(1)] that by simp
  show "tasks s1 ! ?c = ?t"
    using nth [OF assms(1)] assms(1,2) by (simp add: woken_def)
  have "list_ex (waits_for p g) ?ts = list_ex (waits_for p g) (tasks s)"
    using assms(1,2) by (auto simp: list_ex_length nth_list_update waits_for_def split: task_state.splits)
  then show "list_ex (waits_for p g) (tasks s1) = list_ex (waits_for p g) (tasks s)"
    using l by simp
qed

definition last_thread :: "scheduler \<Rightarrow> bool" where
  "last_thread s \<longleftrightarrow> (\<forall>j<length (tasks s). j \<noteq> current s \<longrightarrow> \<not> thread_alive (t_tgid (tasks s ! current s)) (tasks s ! j))"

definition parent_of :: "task \<Rightarrow> u64" where
  "parent_of t = (case t_parent_pid t of Some p \<Rightarrow> p | None \<Rightarrow> 0)"

text \<open>What becomes of the exiting task: reaped when it is the last thread of its group in the table and its parent
  waits there, a zombie otherwise.\<close>

definition exit_state :: "u64 \<Rightarrow> scheduler \<Rightarrow> task_state" where
  "exit_state code s =
    (let t = tasks s ! current s in
     if last_thread s \<and> list_ex (waits_for (parent_of t) (t_tgid t)) (tasks s) then Reaped else Zombie code)"

lemma woken_key: "woken t u \<Longrightarrow> task_key u = task_key t"
  by (auto simp: woken_def)

lemma thread_alive_key: "task_key u = task_key t \<Longrightarrow> thread_alive g u = thread_alive g t"
  by (simp add: task_key_def thread_alive_def)

text \<open>The table after the task has ended and before its parent is looked for.\<close>

definition exit_zombie :: "u64 \<Rightarrow> scheduler \<Rightarrow> scheduler" where
  "exit_zombie code s =
    (let s1 = exit_clear_tid s; c = current s in
     s1\<lparr>tasks := (tasks s1)[c := (tasks s1 ! c)\<lparr>t_process := None, t_state := Zombie code\<rparr>]\<rparr>)"

lemma exit_local_eq:
  "exit_local code s =
    (let t = tasks s ! current s; s2 = exit_zombie code s in
     if list_ex (thread_alive (t_tgid t)) (tasks s2) then (s2, clear_tid_write t)
     else case wake_parent_tasks (parent_of t) (t_tgid t) code (exit_status code) (tasks s2) of
       None \<Rightarrow> (s2, clear_tid_write t)
     | Some (ts, ws) \<Rightarrow> (s2\<lparr>tasks := ts[current s := (ts ! current s)\<lparr>t_state := Reaped\<rparr>]\<rparr>, clear_tid_write t @ ws))"
  unfolding exit_local_def exit_zombie_def Let_def parent_of_def by (rule refl)

lemma exit_zombie_shape:
  assumes c: "current s < length (tasks s)" "t_state (tasks s ! current s) = Runnable"
    and s2_def: "s2 = exit_zombie code s" and t_def: "t = tasks s ! current s"
  shows "length (tasks s2) = length (tasks s)" "current s2 = current s"
    "tasks s2 ! current s = t\<lparr>t_clear_child_tid := 0, t_process := None, t_state := Zombie code\<rparr>"
    "\<And>j. j < length (tasks s) \<Longrightarrow> j \<noteq> current s \<Longrightarrow> woken (tasks s ! j) (tasks s2 ! j)"
    "list_ex (thread_alive (t_tgid t)) (tasks s2) \<longleftrightarrow> \<not> last_thread s"
    "list_ex (waits_for p g) (tasks s2) = list_ex (waits_for p g) (tasks s)"
proof -
  let ?c = "current s" and ?g = "t_tgid t"
  define s1 where "s1 = exit_clear_tid s"
  note s1 = exit_clear_tid_shape [OF c s1_def [symmetric]]
  have s2: "s2 = s1\<lparr>tasks := (tasks s1)[?c := (tasks s1 ! ?c)\<lparr>t_process := None, t_state := Zombie code\<rparr>]\<rparr>"
    by (simp add: s2_def exit_zombie_def s1_def Let_def)
  show len: "length (tasks s2) = length (tasks s)" and "current s2 = ?c"
    using s1 by (simp_all add: s2)
  show cur: "tasks s2 ! ?c = t\<lparr>t_clear_child_tid := 0, t_process := None, t_state := Zombie code\<rparr>"
    using s1 c by (simp add: s2 t_def)
  show oth: "woken (tasks s ! j) (tasks s2 ! j)" if "j < length (tasks s)" "j \<noteq> ?c" for j
    using s1(3) [OF that] that by (simp add: s2)
  have "thread_alive ?g (tasks s2 ! j) = thread_alive ?g (tasks s ! j)" if "j < length (tasks s)" "j \<noteq> ?c" for j
    using woken_key [OF oth [OF that]] by (rule thread_alive_key)
  moreover have "\<not> thread_alive ?g (tasks s2 ! ?c)"
    by (simp add: cur thread_alive_def)
  ultimately show "list_ex (thread_alive ?g) (tasks s2) \<longleftrightarrow> \<not> last_thread s"
    using len by (auto simp: list_ex_length last_thread_def t_def)
  have "waits_for p g (tasks s2 ! j) = waits_for p g (tasks s1 ! j)" if "j < length (tasks s)" for j
    using that s1(4) s1(2) c by (cases "j = ?c") (simp_all add: s2 waits_for_def)
  then show "list_ex (waits_for p g) (tasks s2) = list_ex (waits_for p g) (tasks s)"
    using s1(2) len s1(5) [of p g] by (auto simp: list_ex_length)
qed

lemma exit_local_shape:
  assumes c: "current s < length (tasks s)" "t_state (tasks s ! current s) = Runnable" and e: "exit_local code s = (s', ws)"
  shows "current s' = current s \<and> length (tasks s') = length (tasks s) \<and>
    (\<forall>j<length (tasks s). j \<noteq> current s \<longrightarrow> woken (tasks s ! j) (tasks s' ! j)) \<and>
    tasks s' ! current s =
      (tasks s ! current s)\<lparr>t_clear_child_tid := 0, t_process := None, t_state := exit_state code s\<rparr>"
proof -
  let ?c = "current s" and ?g = "t_tgid (tasks s ! current s)" and ?p = "parent_of (tasks s ! current s)"
  define s2 where "s2 = exit_zombie code s"
  note s2 = exit_zombie_shape [OF c s2_def refl]
  note e' = e [unfolded exit_local_eq Let_def, folded s2_def]
  show ?thesis
  proof (cases "wake_parent_tasks ?p ?g code (exit_status code) (tasks s2)")
    case None
    then have "s' = s2"
      using e' by (simp split: if_splits)
    moreover have "\<not> list_ex (waits_for ?p ?g) (tasks s)"
      using None s2(6) wake_parent_tasks_None by metis
    ultimately show ?thesis
      using s2 by (simp add: exit_state_def)
  next
    case (Some r)
    then obtain ts w where r: "wake_parent_tasks ?p ?g code (exit_status code) (tasks s2) = Some (ts, w)"
      by (cases r) simp
    have l: "list_all2 woken (tasks s2) ts"
      by (rule wake_parent_tasks_woken [OF r])
    have cur: "ts ! ?c = tasks s2 ! ?c"
      using l c s2(1,3) by (auto simp: list_all2_conv_all_nth woken_def dead_def)
    have oth: "woken (tasks s ! j) (ts ! j)" if "j < length (tasks s)" "j \<noteq> ?c" for j
      using woken_trans [OF s2(4) [OF that]] l s2(1) that by (simp add: list_all2_conv_all_nth)
    have w: "list_ex (waits_for ?p ?g) (tasks s)"
      using s2(6) r by (metis wake_parent_tasks_None option.distinct(1))
    have "length ts = length (tasks s)"
      using list_all2_lengthD [OF l] s2(1) by simp
    then show ?thesis
      using e' r s2 cur oth w c by (cases "last_thread s") (auto simp: exit_state_def Let_def)
  qed
qed

lemma wake_parent_on_idle:
  "(\<And>c s. c \<in> set cs \<Longrightarrow> SCHEDULERS k ! c = Some s \<Longrightarrow> \<not> list_ex (waits_for p g) (tasks s)) \<Longrightarrow>
    wake_parent_on cs p g code st k = (False, k)"
proof (induction cs)
  case (Cons d cs)
  have "wake_parent_tasks p g code st (tasks s) = None" if "SCHEDULERS k ! d = Some s" for s
    using Cons.prems [of d s] that by (simp add: wake_parent_tasks_None)
  then show ?case
    using Cons by (auto split: option.splits)
qed simp

lemma wake_parent_on_found:
  "c \<in> set cs \<Longrightarrow> SCHEDULERS k ! c = Some s \<Longrightarrow> list_ex (waits_for p g) (tasks s) \<Longrightarrow>
    \<exists>k'. wake_parent_on cs p g code st k = (True, k')"
proof (induction cs)
  case (Cons d cs)
  show ?case
  proof (cases "SCHEDULERS k ! d")
    case None
    then show ?thesis
      using Cons by auto
  next
    case (Some s')
    then show ?thesis
      using Cons wake_parent_tasks_None [of p g code st "tasks s'"]
      by (cases "wake_parent_tasks p g code st (tasks s')") auto
  qed
qed simp

lemma wake_parent_on_other:
  "wake_parent_on cs p g code st k = (b, k') \<Longrightarrow> d \<notin> set cs \<Longrightarrow>
    SCHEDULERS k' ! d = SCHEDULERS k ! d \<and> length (SCHEDULERS k') = length (SCHEDULERS k)"
  by (induction cs arbitrary: k) (auto split: option.splits)

lemma steal_prefix:
  assumes "SCHEDULERS k ! cpu = Some m" "cpu < length (SCHEDULERS k)" "steal cpu free ps k = (r, k')"
  shows "(\<exists>m' xs. SCHEDULERS k' ! cpu = Some m' \<and> tasks m' = tasks m @ xs) \<and> length (SCHEDULERS k') = length (SCHEDULERS k)"
  using assms
proof (induction ps)
  case (Cons p ps)
  then show ?case
    by (auto simp: Let_def split: if_splits option.splits)
qed simp

text \<open>Taking another task keeps the places of the tasks of this processor.\<close>

lemma dispatch_prefix:
  assumes "SCHEDULERS k ! cpu = Some m" "cpu < length (SCHEDULERS k)" "dispatch cpu prev free k = Some (r, k')"
  shows "\<exists>m' xs. SCHEDULERS k' ! cpu = Some m' \<and> tasks m' = tasks m @ xs" "r \<noteq> NoTasks"
proof -
  obtain i k1 where f: "find_next cpu prev free k = (i, k1)"
    by (rule prod.exhaust)
  have k1: "\<exists>m' xs. SCHEDULERS k1 ! cpu = Some m' \<and> tasks m' = tasks m @ xs" "length (SCHEDULERS k1) = length (SCHEDULERS k)"
    using f assms(1,2) steal_prefix [OF assms(1,2)] by (auto simp: find_next_def split: option.splits)
  show "\<exists>m' xs. SCHEDULERS k' ! cpu = Some m' \<and> tasks m' = tasks m @ xs" "r \<noteq> NoTasks"
    using assms(2,3) k1 f by (auto simp: dispatch_def resume_def Let_def split: option.splits if_splits)
qed

definition live :: "kernel \<Rightarrow> (u64 \<times> u64 \<times> process option) multiset" where
  "live k = {# x \<in># task_keys k. snd (snd x) \<noteq> None #}"

lemma kernel_ok_drop:
  assumes "kernel_ok B k" "cpu \<notin> B"
  shows "kernel_ok B (k\<lparr>SCHEDULERS := (SCHEDULERS k)[cpu := None]\<rparr>)"
proof -
  have "SCHEDULERS k ! d = (SCHEDULERS k)[cpu := None] ! d" if "d \<in> B" for d
    using that assms(2) by (metis nth_list_update_neq)
  moreover have "Some s \<in> set (SCHEDULERS k)" if "Some s \<in> set ((SCHEDULERS k)[cpu := None])" for s
    using that set_update_subset_insert [of "SCHEDULERS k" cpu None] by auto
  ultimately show ?thesis
    using assms(1) by (simp add: kernel_ok_def)
qed

lemma exit_local_ok:
  assumes "running_ok s" "procs_ok s" "exit_local code s = (s', ws)"
  shows "procs_ok s'" "map task_key (tasks s') =
    (map task_key (tasks s))[current s := (t_tid (tasks s ! current s), t_tgid (tasks s ! current s), None)]"
proof -
  have c: "current s < length (tasks s)" "t_state (tasks s ! current s) = Runnable"
    using assms(1) by (simp_all add: running_ok_def runnable_def)
  note sh = exit_local_shape [OF c assms(3)]
  have "task_ok (tasks s' ! j)" if j: "j < length (tasks s')" for j
  proof (cases "j = current s")
    case True
    then show ?thesis
      using sh by (simp add: task_ok_def dead_def exit_state_def Let_def)
  next
    case False
    then show ?thesis
      using sh j assms(2) by (auto simp: procs_ok_def intro: woken_task_ok)
  qed
  then show "procs_ok s'"
    by (auto simp: procs_ok_def in_set_conv_nth)
  show "map task_key (tasks s') =
      (map task_key (tasks s))[current s := (t_tid (tasks s ! current s), t_tgid (tasks s ! current s), None)]"
  proof (rule nth_equalityI)
    fix j assume "j < length (map task_key (tasks s'))"
    then show "map task_key (tasks s') ! j =
        (map task_key (tasks s))[current s := (t_tid (tasks s ! current s), t_tgid (tasks s ! current s), None)] ! j"
      using sh woken_key by (cases "j = current s") (simp_all add: task_key_def)
  qed (use sh in simp)
qed

lemma filter_mset_replace:
  "x \<in># M \<Longrightarrow> P x \<Longrightarrow> \<not> P y \<Longrightarrow> N = add_mset y (M - {#x#}) \<Longrightarrow> filter_mset P M = add_mset x (filter_mset P N)"
  by (auto dest!: multi_member_split)

lemma live_sched_update:
  assumes c: "c < length (SCHEDULERS k)" "SCHEDULERS k ! c = Some s" and i: "i < length (tasks s)" "t_process (tasks s ! i) \<noteq> None"
    and m: "map task_key (tasks s') = (map task_key (tasks s))[i := (a, b, None)]"
  shows "live k = add_mset (task_key (tasks s ! i)) (live (set_sched c s' k))"
proof -
  let ?F = "filter_mset (\<lambda>x. snd (snd x) \<noteq> None) :: _ \<Rightarrow> (u64 \<times> u64 \<times> process option) multiset"
  have k: "sched_keys (Some u) = mset (map task_key (tasks u))" for u
    by simp
  have r: "mset (map task_key (tasks s')) = add_mset (a, b, None) (mset (map task_key (tasks s)) - {#task_key (tasks s ! i)#})"
    using i by (simp add: m mset_update)
  have "?F (sched_keys (Some s)) = add_mset (task_key (tasks s ! i)) (?F (sched_keys (Some s')))"
    unfolding k by (rule filter_mset_replace [OF _ _ _ r]) (use i in \<open>auto simp: task_key_def\<close>)
  moreover have "live (set_sched c s' k) + ?F (sched_keys (Some s)) = live k + ?F (sched_keys (Some s'))"
    using arg_cong [OF task_keys_set_sched [OF c(1), of s'], of ?F] c(2) by (simp add: live_def)
  ultimately show ?thesis
    by (simp add: add.commute)
qed

lemma live_drop:
  assumes "c < length (SCHEDULERS k)" "SCHEDULERS k ! c = Some s" "filter (\<lambda>u. t_process u \<noteq> None) (tasks s) = []"
  shows "live (k\<lparr>SCHEDULERS := (SCHEDULERS k)[c := None]\<rparr>) = live k"
proof -
  have "task_keys (k\<lparr>SCHEDULERS := (SCHEDULERS k)[c := None]\<rparr>) + sched_keys (Some s) = task_keys k"
    using sum_list_update_add [of c "map sched_keys (SCHEDULERS k)" "{#}"] assms by (simp add: task_keys_sum map_update)
  moreover have "filter_mset (\<lambda>x. snd (snd x) \<noteq> None) (sched_keys (Some s)) = {#}"
    using assms(3) by (auto simp: filter_empty_conv task_key_def)
  ultimately show ?thesis
    unfolding live_def by (metis (no_types, lifting) add.right_neutral filter_union_mset)
qed

definition waits_elsewhere :: "nat \<Rightarrow> u64 \<Rightarrow> u64 \<Rightarrow> kernel \<Rightarrow> bool" where
  "waits_elsewhere cpu p g k \<longleftrightarrow>
    (\<exists>c s. c < MAX_CPUS \<and> c \<noteq> cpu \<and> SCHEDULERS k ! c = Some s \<and> list_ex (waits_for p g) (tasks s))"

lemma exit_remote_none:
  assumes "\<And>p. parent = Some p \<Longrightarrow> \<not> waits_elsewhere cpu p g k"
  shows "exit_remote cpu code parent g k = Some k"
proof (cases parent)
  case (Some p)
  have "wake_parent_on (filter (\<lambda>c. c \<noteq> cpu) [0..<MAX_CPUS]) p g code (exit_status code) k = (False, k)"
    by (rule wake_parent_on_idle) (use assms [OF Some] in \<open>auto simp: waits_elsewhere_def\<close>)
  then show ?thesis
    by (simp add: exit_remote_def Some)
qed (simp add: exit_remote_def)

lemma waits_elsewhere_cong:
  "(\<And>c. c \<noteq> cpu \<Longrightarrow> SCHEDULERS k' ! c = SCHEDULERS k ! c) \<Longrightarrow> waits_elsewhere cpu p g k' = waits_elsewhere cpu p g k"
  by (auto simp: waits_elsewhere_def)

lemma exit_current_eq:
  assumes "SCHEDULERS k ! cpu = Some s" "current s < length (tasks s)" "t = tasks s ! current s" "exit_local code s = (s1, ws)"
    and k0: "k0 = k\<lparr>FOREGROUND_PID := (if FOREGROUND_PID k = t_tgid t \<or> FOREGROUND_PID k = t_tid t then 0 else FOREGROUND_PID k),
      user_writes := user_writes k @ ws\<rparr>"
  shows "exit_current cpu code free k =
    (case next_alive s1 (current s) of
      Some i \<Rightarrow>
        (case (t_process (tasks s1 ! i), exit_remote cpu code (t_parent_pid t) (t_tgid t) (set_sched cpu (s1\<lparr>current := i\<rparr>) k0)) of
          (Some p, Some k2) \<Rightarrow> Some (Resume (t_context (tasks s1 ! i)) (p_space p), k2)
        | _ \<Rightarrow> None)
    | None \<Rightarrow>
        (case exit_remote cpu code (t_parent_pid t) (t_tgid t) (set_sched cpu s1 k0) of
          None \<Rightarrow> None
        | Some k2 \<Rightarrow>
           if filter (\<lambda>u. t_process u \<noteq> None) (tasks s1) \<noteq> [] then dispatch cpu 0 free k2
           else Some (NoTasks, k2\<lparr>SCHEDULERS := (SCHEDULERS k2)[cpu := None]\<rparr>)))"
  using assms by (simp add: exit_current_def Let_def split: option.splits)

lemma exit_k1:
  assumes ok: "kernel_ok B k" "cpu \<in> B" and s: "SCHEDULERS k ! cpu = Some s" and e: "exit_local code s = (s1, ws)"
    and k1: "k1 = set_sched cpu s2 k0" "tasks s2 = tasks s1" "SCHEDULERS k0 = SCHEDULERS k"
    and C: "C = (if running_ok s2 then B else B - {cpu})"
  shows "kernel_ok C k1" "live k = add_mset (task_key (tasks s ! current s)) (live k1)"
    "SCHEDULERS k1 ! cpu = Some s2" "cpu < length (SCHEDULERS k1)" "cpu < MAX_CPUS"
proof -
  have r: "running_ok s" "procs_ok s" "cpu < length (SCHEDULERS k)"
    using kernel_ok_sched [OF ok s] .
  then have c: "current s < length (tasks s)" "runnable (tasks s) (current s)"
    by (simp_all add: running_ok_def)
  obtain p where p: "t_process (tasks s ! current s) = Some p"
    using runnable_process [OF r(2) c] .
  note l = exit_local_ok [OF r(1,2) e]
  have k0: "kernel_ok B k0" "live k0 = live k"
    using ok k1(3) by (simp_all add: kernel_ok_def live_def task_keys_def)
  show "cpu < MAX_CPUS"
    using ok by (auto simp: kernel_ok_def)
  then show "kernel_ok C k1"
    unfolding k1(1) using l(1) k1(2) C ok(2) by (intro kernel_ok_set [OF k0(1)]) (auto simp: procs_ok_def)
  show "live k = add_mset (task_key (tasks s ! current s)) (live k1)"
    using live_sched_update [of cpu k0 s "current s" s2] s r(3) c p l(2) k1 k0(2) by simp
  show "SCHEDULERS k1 ! cpu = Some s2" "cpu < length (SCHEDULERS k1)"
    using r(3) k1 by simp_all
qed

lemma exit_last_runnable:
  assumes ok: "kernel_ok B k" "cpu \<in> B" and s: "SCHEDULERS k ! cpu = Some s" and e: "exit_local code s = (s1, ws)"
    and k1_def: "k1 = set_sched cpu s1 k0" and k0: "SCHEDULERS k0 = SCHEDULERS k" and "next_alive s1 (current s) = None"
  shows "\<exists>r k'. (if filter (\<lambda>u. t_process u \<noteq> None) (tasks s1) \<noteq> [] then dispatch cpu 0 free k1
        else Some (NoTasks, k1\<lparr>SCHEDULERS := (SCHEDULERS k1)[cpu := None]\<rparr>)) = Some (r, k') \<and>
      kernel_ok (if r = Idle \<or> r = NoTasks then B - {cpu} else B) k' \<and>
      live k = add_mset (task_key (tasks s ! current s)) (live k') \<and>
      (r \<noteq> NoTasks \<longrightarrow> (\<exists>s'. SCHEDULERS k' ! cpu = Some s' \<and> t_state (tasks s' ! current s) = exit_state code s))"
proof -
  have c: "current s < length (tasks s)" "t_state (tasks s ! current s) = Runnable"
    using kernel_ok_sched [OF ok s] by (simp_all add: running_ok_def runnable_def)
  note sh = exit_local_shape [OF c e]
  have "\<not> running_ok s1"
    using sh by (auto simp: running_ok_def runnable_def exit_state_def Let_def)
  note k1 = exit_k1 [OF ok s e k1_def refl k0 refl, unfolded if_not_P [OF this]]
  show ?thesis
  proof (cases "filter (\<lambda>u. t_process u \<noteq> None) (tasks s1) = []")
    case True
    have "kernel_ok (B - {cpu}) (k1\<lparr>SCHEDULERS := (SCHEDULERS k1)[cpu := None]\<rparr>)"
      using k1(1) by (rule kernel_ok_drop) simp
    then show ?thesis
      using True k1(2) live_drop [OF k1(4,3) True] by simp
  next
    case False
    obtain r k' where d: "dispatch cpu 0 free k1 = Some (r, k')" "kernel_ok (running cpu r (B - {cpu})) k'" "task_keys k' = task_keys k1"
      using dispatch_ok [OF k1(1) k1(5) _ k1(3), of 0 free] by auto
    have "running cpu r (B - {cpu}) = (if r = Idle then B - {cpu} else B)"
      using ok(2) by (auto simp: running_def)
    then show ?thesis
      using False d k1(2) dispatch_prefix [OF k1(3,4) d(1)] sh c(1) by (auto simp: live_def nth_append)
  qed
qed


text \<open>With a waiting parent on another processor, whatever task is current on this one is marked.\<close>

lemma exit_remote_reaps:
  assumes s: "SCHEDULERS k ! cpu = Some s" "cpu < length (SCHEDULERS k)" "current s < length (tasks s)"
    and w: "waits_elsewhere cpu p g k" "\<not> list_ex (thread_alive g) (all_tasks (SCHEDULERS k))"
  obtains k2 where "exit_remote cpu code (Some p) g k = Some k2"
    "SCHEDULERS k2 ! cpu = Some (s\<lparr>tasks := (tasks s)[current s := (tasks s ! current s)\<lparr>t_state := Reaped\<rparr>]\<rparr>)"
proof -
  let ?cs = "filter (\<lambda>c. c \<noteq> cpu) [0..<MAX_CPUS]"
  obtain c s' where "c \<in> set ?cs" "SCHEDULERS k ! c = Some s'" "list_ex (waits_for p g) (tasks s')"
    using w(1) by (auto simp: waits_elsewhere_def)
  then obtain k' where k': "wake_parent_on ?cs p g code (exit_status code) k = (True, k')"
    using wake_parent_on_found by blast
  then have "SCHEDULERS k' ! cpu = Some s" "cpu < length (SCHEDULERS k')"
    using wake_parent_on_other [OF k', of cpu] s by simp_all
  then show ?thesis
    using that k' w(2) s(3) by (simp add: exit_remote_def update_current_def)
qed

lemma all_tasks_places:
  assumes "length (SCHEDULERS k) = MAX_CPUS" "\<And>c j. c < MAX_CPUS \<Longrightarrow> j < length (tasks_on k c) \<Longrightarrow> \<not> P (tasks_on k c ! j)"
  shows "\<not> list_ex P (all_tasks (SCHEDULERS k))"
proof
  assume "list_ex P (all_tasks (SCHEDULERS k))"
  then obtain u where u: "u \<in> set (all_tasks (SCHEDULERS k))" "P u"
    by (auto simp: list_ex_iff)
  then obtain x where x: "x \<in> set (SCHEDULERS k)" "u \<in> set (case x of None \<Rightarrow> [] | Some s \<Rightarrow> tasks s)"
    by (auto simp: all_tasks_def)
  then obtain c where "c < MAX_CPUS" "SCHEDULERS k ! c = x"
    using assms(1) by (metis in_set_conv_nth)
  moreover then have "u \<in> set (tasks_on k c)"
    using x by (simp add: tasks_on_def)
  ultimately show False
    using assms(2) u(2) by (metis in_set_conv_nth)
qed

lemma exit_no_thread:
  fixes k1 :: kernel
  assumes c: "current s < length (tasks s)" "t_state (tasks s ! current s) = Runnable" and e: "exit_local code s = (s1, ws)"
    and s: "SCHEDULERS k ! cpu = Some s" and t: "t = tasks s ! current s"
    and last: "\<And>c j. c < MAX_CPUS \<Longrightarrow> j < length (tasks_on k c) \<Longrightarrow> (c, j) \<noteq> (cpu, current s) \<Longrightarrow>
      \<not> thread_alive (t_tgid t) (tasks_on k c ! j)"
    and k1: "SCHEDULERS k1 ! cpu = Some (s1\<lparr>current := i\<rparr>)" "\<And>d. d \<noteq> cpu \<Longrightarrow> SCHEDULERS k1 ! d = SCHEDULERS k ! d"
    "length (SCHEDULERS k1) = MAX_CPUS"
  shows "\<not> list_ex (thread_alive (t_tgid t)) (all_tasks (SCHEDULERS k1))"
proof (rule all_tasks_places [OF k1(3)])
  note sh = exit_local_shape [OF c e]
  fix d l assume d: "d < MAX_CPUS" "l < length (tasks_on k1 d)"
  show "\<not> thread_alive (t_tgid t) (tasks_on k1 d ! l)"
  proof (cases "d = cpu")
    case True
    then have "l < length (tasks s)" "tasks_on k1 d ! l = tasks s1 ! l"
      using d k1(1) sh by (simp_all add: tasks_on_def)
    then show ?thesis
      using True sh last [of cpu l] d(1) s thread_alive_key [OF woken_key, of "tasks s ! l" "tasks s1 ! l" "t_tgid t"]
      by (cases "l = current s") (auto simp: thread_alive_def tasks_on_def)
  next
    case False
    then show ?thesis
      using last [of d l] d k1(2) by (simp add: tasks_on_def)
  qed
qed

text \<open>C34.  When the parent of an exiting process waits on another processor, the wrong task is reaped.  The next task to
  run has already been made the current one when the code marks "the current task" as reaped: that task is resumed
  although its table entry says reaped, so that it will never be scheduled again and its slot may be given away while
  it runs, and the exited process stays behind as a zombie.\<close>

theorem exit_reaps_bystander:
  assumes ok: "kernel_ok B k" "cpu \<in> B" and s: "SCHEDULERS k ! cpu = Some s" and t: "t = tasks s ! current s" "t_parent_pid t = Some p"
    and last: "\<And>c j. c < MAX_CPUS \<Longrightarrow> j < length (tasks_on k c) \<Longrightarrow> (c, j) \<noteq> (cpu, current s) \<Longrightarrow>
      \<not> thread_alive (t_tgid t) (tasks_on k c ! j)"
    and waits: "\<not> list_ex (waits_for p (t_tgid t)) (tasks s)" "waits_elsewhere cpu p (t_tgid t) k"
    and nxt: "j < length (tasks s)" "j \<noteq> current s" "t_state (tasks s ! j) = Runnable"
  shows "\<exists>c space k' s'. exit_current cpu code free k = Some (Resume c space, k') \<and> SCHEDULERS k' ! cpu = Some s' \<and>
    current s' \<noteq> current s \<and> t_context (tasks s' ! current s') = c \<and> t_process (tasks s' ! current s') \<noteq> None \<and>
    t_state (tasks s' ! current s') = Reaped \<and> t_state (tasks s' ! current s) = Zombie code"
proof -
  have r: "running_ok s" "procs_ok s" "cpu < length (SCHEDULERS k)"
    using kernel_ok_sched [OF ok s] .
  then have c: "current s < length (tasks s)" "t_state (tasks s ! current s) = Runnable"
    by (simp_all add: running_ok_def runnable_def)
  obtain s1 ws where e: "exit_local code s = (s1, ws)"
    by (rule prod.exhaust)
  have "exit_state code s = Zombie code"
    using waits(1) t by (simp add: exit_state_def parent_of_def Let_def)
  note sh = exit_local_shape [OF c e, unfolded this]
  have "tasks s1 ! j = tasks s ! j"
    using sh nxt by (auto simp: woken_def)
  then obtain i where i: "next_alive s1 (current s) = Some i"
    using next_alive_None [of "current s" s1] nxt sh c by (cases "next_alive s1 (current s)") (auto simp: runnable_def)
  then have i': "i < length (tasks s1)" "runnable (tasks s1) i" "i \<noteq> current s"
    using next_alive_in [OF i] sh by (auto simp: runnable_def)
  obtain q where q: "t_process (tasks s1 ! i) = Some q"
    using runnable_process [OF exit_local_ok(1) [OF r(1,2) e] i'(1,2)] .
  define k0 where "k0 = k\<lparr>FOREGROUND_PID := (if FOREGROUND_PID k = t_tgid t \<or> FOREGROUND_PID k = t_tid t then 0 else FOREGROUND_PID k),
    user_writes := user_writes k @ ws\<rparr>"
  define k1 where "k1 = set_sched cpu (s1\<lparr>current := i\<rparr>) k0"
  have k1: "SCHEDULERS k1 ! cpu = Some (s1\<lparr>current := i\<rparr>)" "\<And>d. d \<noteq> cpu \<Longrightarrow> SCHEDULERS k1 ! d = SCHEDULERS k ! d"
    "length (SCHEDULERS k1) = MAX_CPUS"
    using r(3) kernel_ok_len [OF ok(1)] by (simp_all add: k1_def k0_def)
  obtain k2 where k2: "exit_remote cpu code (Some p) (t_tgid t) k1 = Some k2"
      "SCHEDULERS k2 ! cpu = Some (s1\<lparr>current := i, tasks := (tasks s1)[i := (tasks s1 ! i)\<lparr>t_state := Reaped\<rparr>]\<rparr>)"
    using exit_remote_reaps [OF k1(1) _ _ _ exit_no_thread [OF c e s t(1) last k1], of p code] i'(1) r(3) kernel_ok_len [OF ok(1)]
      waits(2) k1(2,3) waits_elsewhere_cong [of cpu k1 k p "t_tgid t"] by auto
  show ?thesis
    using exit_current_eq [OF s c(1) t(1) e k0_def, of free] i q k2 t(2) i' sh by (simp add: k1_def [symmetric])
qed

section \<open>Lemmas: creation\<close>

text \<open>Every identifier in use belongs to one task and is below the next one to be given out.\<close>

definition pids_ok :: "kernel \<Rightarrow> bool" where
  "pids_ok k \<longleftrightarrow> (\<forall>x. count (image_mset fst (task_keys k)) x \<le> (if x < NEXT_PID k then 1 else 0))"

lemma position_Some:
  assumes "position P xs = Some i"
  shows "i < length xs" "P (xs ! i)"
  using assms nth_length_takeWhile [of "\<lambda>x. \<not> P x" xs] by (auto simp: position_def Let_def split: if_splits)

lemma place_task_cases:
  assumes "place_task t s = Some s'"
  obtains i where "i < length (tasks s)" "t_state (tasks s ! i) = Reaped" "s' = s\<lparr>tasks := (tasks s)[i := t]\<rparr>"
    | "s' = s\<lparr>tasks := tasks s @ [t]\<rparr>"
proof (cases "position (\<lambda>u. t_state u = Reaped) (tasks s)")
  case None
  then show ?thesis
    using assms that(2) by (simp add: place_task_def split: if_splits)
next
  case (Some i)
  then show ?thesis
    using assms that(1) position_Some [OF Some] by (simp add: place_task_def)
qed

text \<open>A placed task appears beside the tasks that are there; only a reaped one can make room for it.\<close>

lemma place_task_keys:
  assumes c: "c < length (SCHEDULERS k)" "SCHEDULERS k ! c = Some s" and p: "place_task t s = Some s'"
    and t: "t_process t \<noteq> None" and clean: "\<And>u. u \<in> set (tasks s) \<Longrightarrow> t_state u = Reaped \<Longrightarrow> t_process u = None"
  shows "task_keys (set_sched c s' k) \<subseteq># add_mset (task_key t) (task_keys k)"
    "live (set_sched c s' k) = add_mset (task_key t) (live k)"
proof -
  note sum = task_keys_set_sched [OF c(1), of s', unfolded c(2)]
  from p have *: "\<exists>D. sched_keys (Some s') + D = add_mset (task_key t) (sched_keys (Some s)) \<and> (\<forall>x\<in>#D. snd (snd x) = None)"
  proof (cases rule: place_task_cases)
    case (1 i)
    have "mset (map task_key (tasks s')) = add_mset (task_key t) (mset (map task_key (tasks s)) - {#task_key (tasks s ! i)#})"
      using 1 by (simp add: map_update mset_update)
    moreover have "task_key (tasks s ! i) \<in># mset (map task_key (tasks s))" "snd (snd (task_key (tasks s ! i))) = None"
      using 1 clean [of "tasks s ! i"] by (auto simp: task_key_def)
    ultimately show ?thesis
      by (intro exI [of _ "{#task_key (tasks s ! i)#}"]) (simp add: insert_DiffM)
  next
    case 2
    then show ?thesis
      by (intro exI [of _ "{#}"]) simp
  qed
  then obtain D where D: "sched_keys (Some s') + D = add_mset (task_key t) (sched_keys (Some s))" "\<And>x. x \<in># D \<Longrightarrow> snd (snd x) = None"
    by blast
  have "task_keys (set_sched c s' k) + D + sched_keys (Some s) = add_mset (task_key t) (task_keys k) + sched_keys (Some s)"
    using sum D(1) by (metis (no_types, lifting) add.assoc add.commute union_mset_add_mset_left)
  then have eq: "task_keys (set_sched c s' k) + D = add_mset (task_key t) (task_keys k)"
    by (simp only: add_right_cancel)
  then show "task_keys (set_sched c s' k) \<subseteq># add_mset (task_key t) (task_keys k)"
    by (metis mset_subset_eq_add_left)
  let ?F = "filter_mset (\<lambda>x. snd (snd x) \<noteq> None) :: _ \<Rightarrow> (u64 \<times> u64 \<times> process option) multiset"
  have z: "?F D = {#}"
    using D(2) by (simp add: filter_mset_eq_conv)
  have "snd (snd (task_key t)) \<noteq> None"
    using t by (simp add: task_key_def)
  then have "live (set_sched c s' k) + ?F D = add_mset (task_key t) (live k)"
    using arg_cong [OF eq, of ?F] by (simp add: live_def)
  then show "live (set_sched c s' k) = add_mset (task_key t) (live k)"
    unfolding z by simp
qed

lemma place_task_ok:
  assumes ok: "kernel_ok B k" "cpu \<in> B" and s: "SCHEDULERS k ! cpu = Some s" and p: "place_task t s = Some s'"
    and t: "t_process t \<noteq> None" "t_state t = Runnable"
  shows "kernel_ok B (set_sched cpu s' k)"
    "\<And>j. j < length (tasks s) \<Longrightarrow> t_state (tasks s ! j) \<noteq> Reaped \<Longrightarrow> j < length (tasks s') \<and> tasks s' ! j = tasks s ! j"
proof -
  have r: "running_ok s" "procs_ok s" "cpu < length (SCHEDULERS k)"
    using kernel_ok_sched [OF ok s] .
  show frame: "j < length (tasks s') \<and> tasks s' ! j = tasks s ! j" if "j < length (tasks s)" "t_state (tasks s ! j) \<noteq> Reaped" for j
    using p that by (cases rule: place_task_cases) (auto simp: nth_append nth_list_update)
  have "task_ok t"
    using t by (simp add: task_ok_def)
  have "procs_ok s'"
    using p r(2) \<open>task_ok t\<close> by (cases rule: place_task_cases) (auto simp: procs_ok_def dest!: subsetD [OF set_update_subset_insert])
  moreover have "running_ok s'"
  proof -
    have "current s' = current s"
      using p by (cases rule: place_task_cases) simp_all
    then show ?thesis
      using frame [of "current s"] r(1) by (simp add: running_ok_def runnable_def)
  qed
  ultimately show "kernel_ok B (set_sched cpu s' k)"
    using ok r(3) kernel_ok_len [OF ok(1)] by (intro kernel_ok_set [OF ok(1)]) auto
qed

lemma pids_ok_place:
  assumes "pids_ok k" "NEXT_PID k \<noteq> - 1" "task_keys k' \<subseteq># add_mset (NEXT_PID k, y) (task_keys k)" "NEXT_PID k' = NEXT_PID k + 1"
  shows "pids_ok k'"
proof -
  have less: "x < NEXT_PID k + 1 \<longleftrightarrow> x = NEXT_PID k \<or> x < NEXT_PID k" for x
  proof -
    have "1 + NEXT_PID k \<noteq> 0"
      using assms(2) by (simp add: eq_neg_iff_add_eq_0 add.commute)
    then have "unat (NEXT_PID k + 1) = Suc (unat (NEXT_PID k))"
      by (simp add: unatSuc add.commute)
    then show ?thesis
      by (auto simp: word_less_nat_alt word_unat_eq_iff)
  qed
  have "count (image_mset fst (task_keys k')) x \<le> (if x < NEXT_PID k + 1 then 1 else 0)" for x
  proof -
    have "count (image_mset fst (task_keys k')) x \<le> count (image_mset fst (add_mset (NEXT_PID k, y) (task_keys k))) x"
      using image_mset_subseteq_mono [OF assms(3)] by (rule mset_subset_eq_count)
    also have "\<dots> \<le> (if x < NEXT_PID k + 1 then 1 else 0)"
      using assms(1) [unfolded pids_ok_def, rule_format, of x] less [of x] by (auto split: if_splits)
    finally show ?thesis .
  qed
  then show ?thesis
    by (simp add: pids_ok_def assms(4))
qed

text \<open>The common end of \<open>spawn_current\<close> and \<open>clone_task_current\<close>: \<open>k0\<close> is the kernel with the identifier taken and
  the new signal table and writes in place.\<close>

lemma pid_taken_ok:
  assumes "kernel_ok B k" "pids_ok k" "NEXT_PID k \<noteq> - 1" "SCHEDULERS k0 = SCHEDULERS k" "NEXT_PID k0 = NEXT_PID k + 1"
  shows "kernel_ok B k0" "pids_ok k0"
  using assms pids_ok_place [OF assms(2,3), of k0] by (simp_all add: kernel_ok_def task_keys_def)

lemma creation_ok:
  assumes ok: "kernel_ok B k" "cpu \<in> B" "pids_ok k" "NEXT_PID k \<noteq> - 1" and s: "SCHEDULERS k ! cpu = Some s"
    and clean: "\<And>u. u \<in> set (tasks s) \<Longrightarrow> t_state u = Reaped \<Longrightarrow> t_process u = None"
    and k0: "SCHEDULERS k0 = SCHEDULERS k" "NEXT_PID k0 = NEXT_PID k + 1"
    and t: "t_process t \<noteq> None" "t_state t = Runnable" "t_tid t = NEXT_PID k" and p: "place_task t s = Some s'"
  shows "kernel_ok B (set_sched cpu s' k0)" "pids_ok (set_sched cpu s' k0)"
    "live (set_sched cpu s' k0) = add_mset (task_key t) (live k)"
    "\<forall>j<length (tasks s). t_state (tasks s ! j) \<noteq> Reaped \<longrightarrow> tasks s' ! j = tasks s ! j"
proof -
  have keys: "task_keys k0 = task_keys k" "live k0 = live k"
    using k0 by (simp_all add: task_keys_def live_def)
  have c: "cpu < length (SCHEDULERS k0)" "SCHEDULERS k0 ! cpu = Some s"
    using kernel_ok_sched [OF ok(1,2) s] s k0 by simp_all
  note pk = place_task_keys [OF c p t(1) clean]
  show "pids_ok (set_sched cpu s' k0)"
    using pk(1) k0 t(3) keys by (intro pids_ok_place [OF ok(3,4)]) (simp_all add: task_key_def set_sched_def)
  show "live (set_sched cpu s' k0) = add_mset (task_key t) (live k)"
    using pk(2) keys by simp
  show "kernel_ok B (set_sched cpu s' k0)"
    "\<forall>j<length (tasks s). t_state (tasks s ! j) \<noteq> Reaped \<longrightarrow> tasks s' ! j = tasks s ! j"
    using place_task_ok [OF pid_taken_ok(1) [OF ok(1,3,4) k0] ok(2) c(2) p t(1,2)] by simp_all
qed

text \<open>The outcome of a creation on a processor with table \<open>s\<close>.\<close>

definition created :: "nat set \<Rightarrow> nat \<Rightarrow> scheduler \<Rightarrow> kernel \<Rightarrow> (u64 option \<times> kernel) option \<Rightarrow> bool" where
  "created B cpu s k f \<longleftrightarrow> (\<exists>res k'. f = Some (res, k') \<and> kernel_ok B k' \<and> pids_ok k' \<and>
    (case res of
      None \<Rightarrow> SCHEDULERS k' = SCHEDULERS k
    | Some i \<Rightarrow> i = NEXT_PID k \<and> (\<exists>t s'. t_tid t = i \<and> t_state t = Runnable \<and> live k' = add_mset (task_key t) (live k) \<and>
        SCHEDULERS k' = (SCHEDULERS k)[cpu := Some s'] \<and>
        (\<forall>j<length (tasks s). t_state (tasks s ! j) \<noteq> Reaped \<longrightarrow> tasks s' ! j = tasks s ! j))))"

lemma created_place:
  assumes ok: "kernel_ok B k" "cpu \<in> B" "pids_ok k" "NEXT_PID k \<noteq> - 1" and s: "SCHEDULERS k ! cpu = Some s"
    and clean: "\<And>u. u \<in> set (tasks s) \<Longrightarrow> t_state u = Reaped \<Longrightarrow> t_process u = None"
    and t: "t_process t \<noteq> None" "t_state t = Runnable" "t_tid t = NEXT_PID k"
    and f: "f = (case place_task t s of None \<Rightarrow> Some (None, k0) | Some s' \<Rightarrow> Some (Some (NEXT_PID k), set_sched cpu s' k1))"
    and k0: "SCHEDULERS k0 = SCHEDULERS k" "NEXT_PID k0 = NEXT_PID k + 1"
    and k1: "SCHEDULERS k1 = SCHEDULERS k" "NEXT_PID k1 = NEXT_PID k + 1"
  shows "created B cpu s k f"
proof (cases "place_task t s")
  case None
  then show ?thesis
    using f k0 pid_taken_ok [OF ok(1,3,4) k0] by (simp add: created_def)
next
  case (Some s')
  have "SCHEDULERS (set_sched cpu s' k1) = (SCHEDULERS k)[cpu := Some s']"
    by (simp add: set_sched_def k1)
  then show ?thesis
    using f Some t creation_ok [OF ok s clean k1 t Some] by (auto simp: created_def)
qed

lemma spawn_created:
  assumes ok: "kernel_ok B k" "cpu \<in> B" "pids_ok k" "NEXT_PID k \<noteq> - 1" and s: "SCHEDULERS k ! cpu = Some s"
    and clean: "\<And>u. u \<in> set (tasks s) \<Longrightarrow> t_state u = Reaped \<Longrightarrow> t_process u = None"
  shows "created B cpu s k (spawn_current selectors cpu im k)"
proof -
  define t where "t = new_task selectors (NEXT_PID k) (NEXT_PID k) (Some (t_tgid (tasks s ! current s)))
    (if t_uid (tasks s ! current s) = 0 then uid Credentials_vanta else t_uid (tasks s ! current s)) im (length (sig_tables k))"
  define k0 where "k0 = k\<lparr>NEXT_PID := NEXT_PID k + 1, sig_tables := sig_tables k @ [replicate 65 LinuxSigAction_default]\<rparr>"
  have t: "t_process t \<noteq> None" "t_state t = Runnable" "t_tid t = NEXT_PID k"
    by (simp_all add: t_def new_task_def Let_def)
  have "current s < length (tasks s)"
    using kernel_ok_sched [OF ok(1,2) s] by (simp add: running_ok_def)
  then have eq: "spawn_current selectors cpu im k =
    (case place_task t s of None \<Rightarrow> Some (None, k0) | Some s' \<Rightarrow> Some (Some (NEXT_PID k), set_sched cpu s' (k0\<lparr>FOREGROUND_PID := NEXT_PID k\<rparr>)))"
    by (simp add: spawn_current_def s Let_def allocate_pid_def add_sig_table_def t_def k0_def split: option.splits)
  show ?thesis
    by (rule created_place [OF ok s _ t eq]) (simp_all add: k0_def clean)
qed

lemma clone_created:
  assumes ok: "kernel_ok B k" "cpu \<in> B" "pids_ok k" "NEXT_PID k \<noteq> - 1" and s: "SCHEDULERS k ! cpu = Some s"
    and clean: "\<And>u. u \<in> set (tasks s) \<Longrightarrow> t_state u = Reaped \<Longrightarrow> t_process u = None"
  shows "created B cpu s k (clone_task_current cpu r copied k)"
proof -
  let ?par = "tasks s ! current s"
  have cur: "current s < length (tasks s)" "runnable (tasks s) (current s)" "procs_ok s"
    using kernel_ok_sched [OF ok(1,2) s] by (simp_all add: running_ok_def)
  obtain proc where proc: "t_process ?par = Some proc"
    using runnable_process [OF cur(3,1,2)] .
  define child where "child = (if cl_flags r AND CLONE_VM \<noteq> 0 then Some proc else map_option (\<lambda>space. proc\<lparr>p_space := space\<rparr>) copied)"
  define k1 where "k1 = k\<lparr>NEXT_PID := NEXT_PID k + 1\<rparr>"
  obtain tbl k2 where k2: "(if cl_flags r AND (CLONE_SIGHAND OR CLONE_THREAD) \<noteq> 0 then (t_signal_actions ?par, k1)
      else add_sig_table (sig_tables k1 ! t_signal_actions ?par) k1) = (tbl, k2)"
    by (rule prod.exhaust)
  define k3 where "k3 = k2\<lparr>user_writes := user_writes k2 @ clone_writes r (p_space proc) (NEXT_PID k)\<rparr>"
  have k3: "SCHEDULERS k3 = SCHEDULERS k" "NEXT_PID k3 = NEXT_PID k + 1"
    using k2 by (auto simp: k3_def k1_def add_sig_table_def split: if_splits)
  have eq: "clone_task_current cpu r copied k =
    (case child of None \<Rightarrow> Some (None, k1)
     | Some q \<Rightarrow> (case place_task (clone_child r (NEXT_PID k) q tbl ?par) s of
         None \<Rightarrow> Some (None, k3) | Some s' \<Rightarrow> Some (Some (NEXT_PID k), set_sched cpu s' k3)))"
  proof -
    have "allocate_pid k = (NEXT_PID k, k1)"
      by (simp add: allocate_pid_def k1_def)
    then show ?thesis
      by (simp only: clone_task_current_def s option.case if_True cur(1) Let_def proc prod.case child_def [symmetric] k2 k3_def [symmetric])
  qed
  show ?thesis
  proof (cases child)
    case None
    then show ?thesis
      using eq pid_taken_ok [OF ok(1,3,4), of k1] by (simp add: created_def k1_def)
  next
    case (Some q)
    then have "clone_task_current cpu r copied k =
      (case place_task (clone_child r (NEXT_PID k) q tbl ?par) s of
        None \<Rightarrow> Some (None, k3) | Some s' \<Rightarrow> Some (Some (NEXT_PID k), set_sched cpu s' k3))"
      by (simp add: eq)
    from created_place [OF ok s _ _ _ _ this] k3 show ?thesis
      by (simp add: clone_child_def Let_def clean)
  qed
qed

text \<open>C19.  Creating a task, by \<open>spawn\<close> or by \<open>clone\<close>, is safe and gives it a fresh identifier.  The scheduler does not
  panic and stays consistent; identifiers stay unique; on success exactly one live task is added, it is runnable and has
  the next identifier, and no task that has not been reaped is touched; on failure no table changes.\<close>

theorem creation_fresh:
  assumes "kernel_ok B k" "cpu \<in> B" "pids_ok k" "NEXT_PID k \<noteq> - 1" "SCHEDULERS k ! cpu = Some s"
    and "\<And>u. u \<in> set (tasks s) \<Longrightarrow> t_state u = Reaped \<Longrightarrow> t_process u = None"
    and "f = spawn_current selectors cpu im k \<or> f = clone_task_current cpu r copied k"
  shows "\<exists>res k'. f = Some (res, k') \<and> kernel_ok B k' \<and> pids_ok k' \<and>
    (case res of
      None \<Rightarrow> SCHEDULERS k' = SCHEDULERS k
    | Some i \<Rightarrow> i = NEXT_PID k \<and> (\<exists>t s'. t_tid t = i \<and> t_state t = Runnable \<and> live k' = add_mset (task_key t) (live k) \<and>
        SCHEDULERS k' = (SCHEDULERS k)[cpu := Some s'] \<and>
        (\<forall>j<length (tasks s). t_state (tasks s ! j) \<noteq> Reaped \<longrightarrow> tasks s' ! j = tasks s ! j)))"
  using assms(7) spawn_created [OF assms(1-6)] clone_created [OF assms(1-6)] unfolding created_def by blast

section \<open>Lemmas: the timer interrupt\<close>

definition sleeping :: "task \<Rightarrow> bool" where
  "sleeping t = (case t_state t of Sleeping _ _ \<Rightarrow> True | _ \<Rightarrow> False)"

text \<open>The sleeping tasks with an identifier in \<open>D\<close> wake up.\<close>

definition wake_in :: "u64 set \<Rightarrow> task \<Rightarrow> task" where
  "wake_in D t = (if t_tid t \<in> D \<and> sleeping t then wake_task t else t)"

definition wake_scheds_in :: "u64 set \<Rightarrow> scheduler option list \<Rightarrow> scheduler option list" where
  "wake_scheds_in D = map (map_option (\<lambda>s. s\<lparr>tasks := map (wake_in D) (tasks s)\<rparr>))"

lemma wake_in_simps [simp]: "t_tid (wake_in D t) = t_tid t" "wake_in {} t = t" "t_tid t \<notin> D \<Longrightarrow> wake_in D t = t"
  by (simp_all add: wake_in_def wake_task_def Let_def)

lemma wake_in_insert: "wake_in D (wake_in {i} t) = wake_in (insert i D) t"
  by (auto simp: wake_in_def sleeping_def wake_task_def Let_def split: task_state.splits)

lemma wake_scheds_in_insert: "wake_scheds_in D (wake_scheds_in {i} ss) = wake_scheds_in (insert i D) ss"
  by (simp add: wake_scheds_in_def option.map_comp comp_def wake_in_insert)

lemma map_wake_in_other: "i \<notin> t_tid ` set ts \<Longrightarrow> map (wake_in {i}) ts = ts"
  by (induction ts) auto

lemma wake_first_map:
  "distinct (map t_tid ts) \<Longrightarrow>
    wake_first i ts = (if i \<in> t_tid ` set ts then Some (map (wake_in {i}) ts) else None)"
proof (induction ts)
  case (Cons t ts)
  show ?case
  proof (cases "t_tid t = i")
    case True
    then have "map (wake_in {i}) ts = ts"
      using Cons.prems by (intro map_wake_in_other) auto
    then show ?thesis
      using True by (simp add: wake_in_def sleeping_def split: task_state.splits)
  next
    case False
    then show ?thesis
      using Cons by simp
  qed
qed simp

lemma wake_scheds_in_other: "i \<notin> t_tid ` set (all_tasks ss) \<Longrightarrow> wake_scheds_in {i} ss = ss"
proof (induction ss)
  case (Cons x ss)
  then show ?case
    by (cases x) (auto simp: wake_scheds_in_def map_wake_in_other image_Un)
qed (simp add: wake_scheds_in_def)

lemma wake_scheds_map: "distinct (map t_tid (all_tasks ss)) \<Longrightarrow> wake_scheds i ss = wake_scheds_in {i} ss"
proof (induction i ss rule: wake_scheds.induct)
  case (3 i s ss)
  have d: "distinct (map t_tid (tasks s))" "distinct (map t_tid (all_tasks ss))"
    "i \<in> t_tid ` set (tasks s) \<Longrightarrow> i \<notin> t_tid ` set (all_tasks ss)"
    using "3.prems" by auto
  show ?case
  proof (cases "i \<in> t_tid ` set (tasks s)")
    case True
    then show ?thesis
      using d wake_scheds_in_other [of i ss] by (simp add: wake_first_map) (simp add: wake_scheds_in_def)
  next
    case False
    then have "wake_first i (tasks s) = None" "map (wake_in {i}) (tasks s) = tasks s"
      using d wake_first_map map_wake_in_other by auto
    then show ?thesis
      using "3.IH" d(2) by (simp add: wake_scheds_in_def)
  qed
qed (simp_all add: wake_scheds_in_def)

lemma all_tasks_wake: "map t_tid (all_tasks (wake_scheds_in D ss)) = map t_tid (all_tasks ss)"
proof (induction ss)
  case (Cons x ss)
  then show ?case
    by (cases x) (simp_all add: wake_scheds_in_def comp_def)
qed (simp add: wake_scheds_in_def)

lemma expire_sleeps:
  assumes "distinct (map t_tid (all_tasks (SCHEDULERS k)))" "\<And>e. e \<in> set es \<Longrightarrow> te_kind e = Sleep (sleep_tid (te_kind e))"
  shows "expire_all cpu es k = Some (k\<lparr>SCHEDULERS := wake_scheds_in ((sleep_tid \<circ> te_kind) ` set es) (SCHEDULERS k)\<rparr>)"
  using assms
proof (induction es arbitrary: k)
  case Nil
  then show ?case
    by (simp add: wake_scheds_in_def option.map_id [unfolded id_def] map_idI)
next
  case (Cons e es)
  obtain i where i: "te_kind e = Sleep i"
    using Cons.prems(2) [of e] by auto
  have "expire cpu e k = Some (k\<lparr>SCHEDULERS := wake_scheds_in {i} (SCHEDULERS k)\<rparr>)"
    using Cons.prems(1) by (simp add: expire_def i wake_sleeping_task_def wake_scheds_map)
  then show ?case
    using Cons.IH [of "k\<lparr>SCHEDULERS := wake_scheds_in {i} (SCHEDULERS k)\<rparr>"] Cons.prems
    by (simp add: all_tasks_wake i wake_scheds_in_insert)
qed

lemma pids_distinct: "pids_ok k \<Longrightarrow> distinct (map t_tid (all_tasks (SCHEDULERS k)))"
proof -
  assume p: "pids_ok k"
  have "image_mset fst (task_keys k) = mset (map t_tid (all_tasks (SCHEDULERS k)))"
    by (simp add: task_keys_def task_key_def multiset.map_comp comp_def)
  then have "count (mset (map t_tid (all_tasks (SCHEDULERS k)))) x \<le> 1" for x
    using p [unfolded pids_ok_def, rule_format, of x] by (auto split: if_splits)
  then show ?thesis
    unfolding distinct_count_atmost_1 by (metis count_mset_0_iff le_neq_implies_less less_one)
qed


section \<open>Concrete kernels\<close>

text \<open>Process 2, a child of process 1, is current on processor \<open>cpu\<close>; \<open>a\<close> and \<open>b\<close> are the tables of processors 0 and 1.\<close>

definition demo_child :: task where
  "demo_child = demo_task 2 8\<lparr>t_parent_pid := Some 1\<rparr>"

definition demo_parent :: task where
  "demo_parent = demo_task 1 8\<lparr>t_state := Waiting 2 0\<rparr>"

definition life_demo :: "task list \<Rightarrow> task list \<Rightarrow> kernel" where
  "life_demo a b = demo_kernel\<lparr>SCHEDULERS := [Some (demo_sched a), Some (demo_sched b), None, None, None, None, None, None]\<rparr>"

lemma life_demo_nth: "SCHEDULERS (life_demo a b) ! 0 = Some (demo_sched a)" "SCHEDULERS (life_demo a b) ! 1 = Some (demo_sched b)"
  "1 < c \<Longrightarrow> c < MAX_CPUS \<Longrightarrow> SCHEDULERS (life_demo a b) ! c = None"
  by (auto simp: life_demo_def MAX_CPUS_def less_Suc_eq numeral_eq_Suc)

lemma demo_sched_simps [simp]: "tasks (demo_sched ts) = ts" "current (demo_sched ts) = 0"
  by (simp_all add: demo_sched_def)

theorem wait_child_exact_witness:
  "\<exists>k'. wait_child_current 0 (- 1) (life_demo [demo_task 1 8, demo_child\<lparr>t_state := Zombie 7\<rparr>] [demo_task 3 8]) = Ok (Some (2, 7), k')"
proof -
  let ?k = "life_demo [demo_task 1 8, demo_child\<lparr>t_state := Zombie 7\<rparr>] [demo_task 3 8]"
  have "find (\<lambda>x. is_zombie (task_at ?k x)) (kids 0 1 (- 1) ?k) = Some (0, 1)" "task_at ?k (0, 1) = demo_child\<lparr>t_state := Zombie 7\<rparr>"
    by code_simp+
  moreover have "t_tgid demo_child = 2"
    by (simp add: demo_child_def demo_task_def)
  ultimately show ?thesis
    using wait_child_exact [OF life_demo_nth(1), of "[demo_task 1 8, demo_child\<lparr>t_state := Zombie 7\<rparr>]" 1 "- 1" "[demo_task 3 8]"]
    by (simp add: demo_task_def)
qed

lemma life_demo_ok:
  "\<forall>t\<in>set (a @ b). task_ok t \<Longrightarrow> (c = 0 \<and> a \<noteq> [] \<and> t_state (hd a) = Runnable) \<or> (c = 1 \<and> b \<noteq> [] \<and> t_state (hd b) = Runnable) \<Longrightarrow>
    kernel_ok {c} (life_demo a b)"
  by (auto simp: kernel_ok_def life_demo_def procs_ok_def running_ok_def runnable_def MAX_CPUS_def hd_conv_nth)

lemma demo_states [simp]: "t_state demo_parent = Waiting 2 0" "t_state demo_child = Runnable" "t_state (demo_task i p) = Runnable"
  "task_ok demo_parent" "task_ok demo_child" "task_ok (demo_task i p)" "t_parent_pid demo_child = Some 1" "t_tgid demo_child = 2"
  "t_tgid (demo_task i p) = i" "t_tgid demo_parent = 1"
  by (simp_all add: demo_parent_def demo_child_def demo_task_def task_ok_def)


theorem exit_reaps_bystander_witness:
  "\<exists>c space k' s'. exit_current 1 7 (\<lambda>_. True) (life_demo [demo_parent] [demo_child, demo_task 3 8]) = Some (Resume c space, k') \<and>
    SCHEDULERS k' ! 1 = Some s' \<and> current s' \<noteq> 0 \<and> t_process (tasks s' ! current s') \<noteq> None \<and>
    t_state (tasks s' ! current s') = Reaped \<and> t_state (tasks s' ! 0) = Zombie 7"
proof -
  let ?a = "[demo_parent]" and ?b = "[demo_child, demo_task 3 8]"
  let ?k = "life_demo ?a ?b"
  have ok: "kernel_ok {1} ?k"
    by (rule life_demo_ok) auto
  have last: "\<not> thread_alive 2 (tasks_on ?k c ! j)"
    if "c < MAX_CPUS" "j < length (tasks_on ?k c)" "(c, j) \<noteq> (1, 0)" for c j
  proof -
    have "c \<le> 1"
      using life_demo_nth(3) [of c ?a ?b] that by (cases "c \<le> 1") (auto simp: tasks_on_def)
    then consider "c = 0" | "c = 1"
      by linarith
    then show ?thesis
      using that life_demo_nth(1,2) [of ?a ?b] by cases (auto simp: tasks_on_def thread_alive_def less_Suc_eq)
  qed
  have "waits_for 1 2 demo_parent" "\<not> waits_for 1 2 demo_child" "\<not> waits_for 1 2 (demo_task 3 8)"
    by (simp_all add: waits_for_def)
  moreover then have "waits_elsewhere 1 1 2 ?k"
    unfolding waits_elsewhere_def using life_demo_nth(1) [of ?a ?b] by (intro exI [of _ 0]) (auto simp: MAX_CPUS_def)
  ultimately show ?thesis
    using exit_reaps_bystander [OF ok _ life_demo_nth(2) refl, of 1 1 7 "\<lambda>_. True"] last by fastforce
qed

lemma demo_pids: "pids_ok (demo_kernel\<lparr>SCHEDULERS := ss\<rparr>) \<longleftrightarrow>
  (\<forall>x. count (mset (map t_tid (all_tasks ss))) x \<le> (if x < 5 then 1 else 0))"
  by (simp add: pids_ok_def demo_kernel_def task_keys_def task_key_def multiset.map_comp comp_def)

theorem creation_fresh_witness:
  "\<exists>k'. spawn_current (0x23, 0x1b) 0 \<lparr>im_process = \<lparr>p_space = 0x9000, p_native = False\<rparr>, im_entry = 0x400000, im_stack_top = 0x7000\<rparr>
      (life_demo [demo_task 1 8] [demo_task 3 8]) = Some (Some 5, k') \<and> pids_ok k' \<and> kernel_ok {0} k'"
proof -
  let ?k = "life_demo [demo_task 1 8] [demo_task 3 8]"
    and ?im = "\<lparr>im_process = \<lparr>p_space = 0x9000, p_native = False\<rparr>, im_entry = 0x400000, im_stack_top = 0x7000\<rparr>"
  have ok: "kernel_ok {0} ?k"
    by (rule life_demo_ok) auto
  have pids: "pids_ok ?k"
    by (auto simp: life_demo_def demo_pids all_tasks_def demo_task_def)
  have n: "NEXT_PID ?k \<noteq> - 1"
    by (simp add: life_demo_def demo_kernel_def)
  obtain res k' where "spawn_current (0x23, 0x1b) 0 ?im ?k = Some (res, k')" "kernel_ok {0} k'" "pids_ok k'"
    using creation_fresh [OF ok _ pids n life_demo_nth(1) _ disjI1 [OF refl], of "(0x23, 0x1b)" ?im] by auto
  moreover have "map_option fst (spawn_current (0x23, 0x1b) 0 ?im ?k) = Some (Some 5)"
    by code_simp
  ultimately show ?thesis
    by auto
qed


text \<open>A thread that has exited is reported as the end of its process, although another thread of it is alive.\<close>

lemma thread_exit_reported:
  "case wait_child_current 0 2 (life_demo [demo_task 1 8] [demo_child, demo_child\<lparr>t_tid := 9, t_state := Zombie 3\<rparr>]) of
     Ok (r, k') \<Rightarrow> r = Some (2, 3) \<and> thread_alive 2 (task_at k' (1, 0))
   | _ \<Rightarrow> False"
  by code_simp

text \<open>A child that exits on another processor between the search of its parent for zombies and the parent's going to
  sleep leaves the parent asleep beside the zombie.\<close>

lemma lost_child_wakeup:
  "case wait_child_current 0 2 (life_demo [demo_task 1 8] [demo_child, demo_task 3 8]) of
     Ok (None, k1) \<Rightarrow>
       (case exit_current 1 7 (\<lambda>_. True) k1 of
         Some (_, k2) \<Rightarrow>
           (case wait_current 0 2 0 (0x23, 0x1b) demo_context (\<lambda>_. True) k2 of
             Some (r, k3) \<Rightarrow> r = Idle \<and> t_state (task_at k3 (0, 0)) = Waiting 2 0 \<and> t_state (task_at k3 (1, 0)) = Zombie 7
           | None \<Rightarrow> False)
       | None \<Rightarrow> False)
   | _ \<Rightarrow> False"
  by code_simp

end
