(* ===== verification/Spec2Isabelle.thy ===== *)
theory Spec2Isabelle
  imports Services Vma Image Linuxd Tmpfs Pty Timer Tasks
begin

text \<open>
  Vanta OS: a verification development of the kernel and the system crates under \<open>rust/\<close>.

  \<^bold>\<open>The program.\<close>  The kernel (\<open>rust/kernel/src\<close>) gives processes address spaces, files, terminals, timers
  and processor time; \<open>rust/abi\<close> and \<open>rust/services\<close> define the native interface and the supervised system
  services; \<open>rust/linuxd\<close> translates Linux system calls and static ELF files for it; \<open>rust/gpt\<close> reads the
  partition table at boot, and \<open>rust/image\<close> builds the disk that carries it.  Physical frames come from the
  buddy allocator; the in-memory file system stores file data in them.  The timer interrupt drives the timer
  wheel, whose expired entries wake sleeping tasks and raise signals in the scheduler.

  \<^bold>\<open>Conventions.\<close>  The kernel is built in release mode, so \<open>uN\<close> is \<open>N word\<close> and arithmetic wraps; an
  \<open>usize\<close> that indexes or counts is a \<open>nat\<close>.  \<open>Result\<close> becomes \<open>outcome\<close> (\<open>Ok\<close>, \<open>Err\<close>, \<open>Panic\<close>), and a function
  without \<open>Result\<close> that may panic returns an \<open>option\<close> whose \<open>None\<close> is the panic.  State is passed explicitly in
  records.  A \<open>BTreeMap\<close> is a sorted association list, a shared \<open>Arc<Mutex<_>>\<close> an index into a list.  Port reads,
  lock availability and other processors' timing are arguments.

  \<^bold>\<open>The theories.\<close>
  \<^item> \<open>Prelude\<close>: integer types, outcomes, checked and saturating arithmetic, slices, little-endian encodings,
    page alignment.  \<open>Btree\<close>: the contract \<open>ordered_map\<close> of the ordered map and its interpretation.
    \<open>Byte_Queue\<close>: the contract of a byte stream and the lemma that every interleaving of writes and reads delivers
    the bytes in order.
  \<^item> \<open>Abi\<close> (\<open>abi/src/lib.rs\<close>): feature sets, directory records, system-call numbers, capabilities.
  \<^item> \<open>Services\<close> (\<open>services/src/lib.rs\<close>): the 256-byte frames and the supervisor as a state machine.  Frames
    round-trip, decoding arbitrary bytes is safe, revocation is permanent, dispatch succeeds exactly with the
    current authority, the audit ring holds exactly the latest events.
  \<^item> \<open>Vma\<close> (\<open>kernel/src/vma.rs\<close>): the regions of an address space.  Removal, insertion and overwriting refine the
    map from addresses to flags and backing positions (locale \<open>address_map\<close>); the search for a free region
    terminates and is exact; stack growth is safe.
  \<^item> \<open>Gpt\<close> (\<open>gpt/src/lib.rs\<close>) and \<open>Image\<close> (\<open>image/src/lib.rs\<close>): the reader accepts exactly checksummed tables and
    rejects every corruption of up to four consecutive bytes; the reader finds on every built image what the builder laid
    out.
  \<^item> \<open>Linuxd\<close> (\<open>linuxd/src/lib.rs\<close>): the translation table, the broker's decision, the static ELF parser.
  \<^item> \<open>Buddy\<close> (\<open>kernel/src/memory.rs\<close>): the frame allocator on its intrusive lists.  The invariant ties lists,
    status bytes and counters to the set of free blocks; allocation, release, reservation, boot and all sequences
    of requests (locale \<open>frame_pool\<close>) keep it.
  \<^item> \<open>Tmpfs\<close> (\<open>kernel/src/tmpfs.rs\<close>): files in physical frames.  It uses the allocator through the locale
    \<open>frame_source\<close>, interpreted on \<open>Buddy\<close>; reads and writes refine flat byte sequences.
  \<^item> \<open>Pty\<close> (\<open>kernel/src/pty.rs\<close>): line discipline, pairs and control operations; both directions interpret
    \<open>byte_queue\<close>, line editing equals a reference that reads the line from its end.
  \<^item> \<open>Timer\<close> (\<open>kernel/src/timer.rs\<close>): the four-level wheel refines the multiset of pending timers (locale
    \<open>timer_service\<close>); every timer fires in its tick and in no other; clocks.
  \<^item> \<open>Sched\<close> (\<open>kernel/src/scheduler.rs\<close>): tasks, the choice of the next one, yielding, preemption, blocking,
    stealing, wake-ups, futexes, process groups and priorities.  As a transition system over all processors it
    loses no task and never selects an exited one; preemption starves nobody, with an explicit bound, while mixing
    yields with preemption can; futex operations serve exactly the first waiters.
  \<^item> \<open>Signals\<close> (\<open>kernel/src/scheduler.rs\<close>): masks, actions, pending signals and the sending of signals to processes,
    groups and threads.  The lowest unblocked signal is delivered first, SIGKILL cannot be escaped; what it does to a
    task that is running, and how one member of a group decides for the others, is shown as well.
  \<^item> \<open>Sigframe\<close> (\<open>kernel/src/syscall.rs\<close>): signal frames on the user stack, delivery, \<open>rt_sigreturn\<close> and the other
    signal system calls.  User memory is a byte function with the set of addresses the page tables (with demand paging
    and copy-on-write) let the kernel read or write.  Delivery and return are inverse to each other.
  \<^item> \<open>Tasks\<close> (\<open>kernel/src/scheduler.rs\<close>, waiting calls of \<open>kernel/src/syscall.rs\<close>): spawn, clone, exec, exit, waiting and the
    timer interrupt, which joins the wheel of \<open>Timer\<close> to the tables of \<open>Sched\<close> and the signals of \<open>Signals\<close>.  Creation
    keeps identifiers unique, exit removes exactly one live task, waiting reports exactly the first zombie child, and
    sleepers wake exactly at their tick; an exit whose parent waits on another processor reaps the wrong task.

  \<^bold>\<open>Loops and bounds.\<close>  Loops over data are structural recursions or \<open>function\<close>s with a termination proof; the
  search for a free region carries a measure.  The unbounded wait of an idle processor is one round of its loop per
  step of the transition system.  The bound of \<open>preemption_fair\<close> counts 256 interrupts for each step, since a
  slice is one byte.
\<close>

text \<open>
  \<^bold>\<open>Not modelled.\<close>  Privileged instructions, page-table walks, interrupt entry and multiprocessor start; device
  registers, DMA rings and port I/O; the decoding of system-call registers and the system calls
  other than those of signals and waiting; descriptor tables, working directories and resource limits of tasks; the VFS path walk with its RedoxFS and ext2 back ends (the file system itself is third-party code); the
  network stack; text formatting of the process and system file systems; user programs; the host-side build tool.
  In the modelled files: serial console output, and the random file-system identifiers of the image builder,
  which are arguments.
\<close>

end
